(* ===== verification/Prelude.thy ===== *)
theory Prelude
  imports Main "HOL-Library.AList" "HOL-Library.Product_Lexorder" "HOL-Library.List_Lexorder"
begin

text \<open>
  Shared vocabulary of the development: Python exceptions as values, the result type of a
  fallible computation and its sequencing, insertion-ordered dictionaries, and the generic
  lemmas on lists that several components use.

  A Python call that may raise is a value of type \<open>'a result\<close>: \<open>Inl e\<close> is the raised
  exception, \<open>Inr v\<close> the returned value. The constructors of \<open>exn\<close> are the exception classes
  the sources raise or let through; the string is the constant part of the message, the code
  points the identifier the message quotes.
\<close>

section \<open>Collections of facts\<close>

named_theorems result_simps \<open>inversion of sequenced computations\<close>
named_theorems dict_simps \<open>lookup in updated dictionaries\<close>

section \<open>Exceptions and results\<close>

datatype exn =
    KeyError string
  | IndexError
  | TypeError string
  | StructError
  | RecursionError
  | ValueError string
  | UnicodeDecodeError
  | UnicodeEncodeError
  | ValidationError string
  | SceneValidationError string "nat list"
  | RtpParseError string
  | MrcpParseError string
  | CBORError string
  | SileroVADError string
  | IncompleteReadError
  | FileNotFoundError
  | WaveError string
  | EOFError
  | AudioFormatError string
  | ONNXEmbedderError string
  | ParaformerError string
  | OtherError string

type_synonym 'a result = "exn + 'a"

text \<open>
  The class hierarchy the \<open>except\<close> clauses rely on: \<open>UnicodeDecodeError\<close>,
  \<open>UnicodeEncodeError\<close>, pydantic's \<open>ValidationError\<close> and the project's own parse errors
  derive from \<open>ValueError\<close>; \<open>KeyError\<close>, \<open>IndexError\<close>, \<open>struct.error\<close> and
  \<open>RecursionError\<close> do not.
\<close>

fun is_key_error :: "exn \<Rightarrow> bool" where
  "is_key_error (KeyError _) = True"
| "is_key_error _ = False"

fun is_value_error :: "exn \<Rightarrow> bool" where
  "is_value_error (ValueError _) = True"
| "is_value_error UnicodeDecodeError = True"
| "is_value_error UnicodeEncodeError = True"
| "is_value_error (ValidationError _) = True"
| "is_value_error (SceneValidationError _ _) = True"
| "is_value_error (RtpParseError _) = True"
| "is_value_error (MrcpParseError _) = True"
| "is_value_error (CBORError _) = True"
| "is_value_error (AudioFormatError _) = True"
| "is_value_error _ = False"

definition bindE :: "'a result \<Rightarrow> ('a \<Rightarrow> 'b result) \<Rightarrow> 'b result" where
  "bindE m f = (case m of Inl e \<Rightarrow> Inl e | Inr x \<Rightarrow> f x)"

lemma bindE_simps [simp]: "bindE (Inl e) f = Inl e" "bindE (Inr x) f = f x"
  by (simp_all add: bindE_def)

lemma bindE_Inr_iff [result_simps]: "bindE m f = Inr y \<longleftrightarrow> (\<exists>x. m = Inr x \<and> f x = Inr y)"
  by (cases m) auto

lemma bindE_Inl_iff [result_simps]:
  "bindE m f = Inl e \<longleftrightarrow> m = Inl e \<or> (\<exists>x. m = Inr x \<and> f x = Inl e)"
  by (cases m) auto

lemma bindE_assoc: "bindE (bindE m f) g = bindE m (\<lambda>x. bindE (f x) g)"
  by (cases m) auto

lemma bindE_cong [fundef_cong]:
  "m = m' \<Longrightarrow> (\<And>x. m' = Inr x \<Longrightarrow> f x = g x) \<Longrightarrow> bindE m f = bindE m' g"
  by (cases m') auto

text \<open>\<open>assertE b e\<close> is the statement \<open>if not b: raise e\<close>.\<close>

definition assertE :: "bool \<Rightarrow> exn \<Rightarrow> unit result" where
  "assertE b e = (if b then Inr () else Inl e)"

lemma assertE_simps [simp]: "assertE True e = Inr ()" "assertE False e = Inl e"
  by (simp_all add: assertE_def)

lemma assertE_Inr_iff [result_simps]: "assertE b e = Inr x \<longleftrightarrow> b"
  by (simp add: assertE_def)

lemma assertE_Inl_iff [result_simps]: "assertE b e = Inl e' \<longleftrightarrow> \<not> b \<and> e' = e"
  by (auto simp: assertE_def)

text \<open>Left-to-right traversals that stop at the first exception.\<close>

fun mapE :: "('a \<Rightarrow> 'b result) \<Rightarrow> 'a list \<Rightarrow> 'b list result" where
  "mapE f [] = Inr []"
| "mapE f (x # xs) = bindE (f x) (\<lambda>y. bindE (mapE f xs) (\<lambda>ys. Inr (y # ys)))"

fun concat_mapE :: "('a \<Rightarrow> 'b list result) \<Rightarrow> 'a list \<Rightarrow> 'b list result" where
  "concat_mapE f [] = Inr []"
| "concat_mapE f (x # xs) = bindE (f x) (\<lambda>y. bindE (concat_mapE f xs) (\<lambda>ys. Inr (y @ ys)))"

fun forE :: "('a \<Rightarrow> unit result) \<Rightarrow> 'a list \<Rightarrow> unit result" where
  "forE f [] = Inr ()"
| "forE f (x # xs) = bindE (f x) (\<lambda>_. forE f xs)"

fun foldE :: "('s \<Rightarrow> 'a \<Rightarrow> 's result) \<Rightarrow> 's \<Rightarrow> 'a list \<Rightarrow> 's result" where
  "foldE f s [] = Inr s"
| "foldE f s (x # xs) = bindE (f s x) (\<lambda>s'. foldE f s' xs)"

lemma mapE_Inr: "(\<And>x. x \<in> set xs \<Longrightarrow> f x = Inr (g x)) \<Longrightarrow> mapE f xs = Inr (map g xs)"
  by (induction xs) auto

lemma mapE_Inr_iff [result_simps]: "mapE f xs = Inr ys \<longleftrightarrow> list_all2 (\<lambda>x y. f x = Inr y) xs ys"
  by (induction xs arbitrary: ys) (auto simp: result_simps list_all2_Cons1)

lemma concat_mapE_Inr:
  "(\<And>x. x \<in> set xs \<Longrightarrow> f x = Inr (g x)) \<Longrightarrow> concat_mapE f xs = Inr (concat (map g xs))"
  by (induction xs) auto

lemma concat_mapE_Inl: "concat_mapE f xs = Inl e \<Longrightarrow> \<exists>x \<in> set xs. f x = Inl e"
  by (induction xs) (auto simp: result_simps)

lemma concat_mapE_cong [fundef_cong]:
  "xs = ys \<Longrightarrow> (\<And>x. x \<in> set ys \<Longrightarrow> f x = g x) \<Longrightarrow> concat_mapE f xs = concat_mapE g ys"
  by (induction xs arbitrary: ys) auto

lemma concat_mapE_ex_set:
  "concat_mapE f xs = Inr zs \<Longrightarrow> z \<in> set zs \<longleftrightarrow> (\<exists>x \<in> set xs. \<exists>ys. f x = Inr ys \<and> z \<in> set ys)"
  by (induction xs arbitrary: zs) (fastforce simp: bindE_Inr_iff)+

lemma concat_mapE_each: "concat_mapE f xs = Inr zs \<Longrightarrow> x \<in> set xs \<Longrightarrow> \<exists>y. f x = Inr y"
  by (induction xs arbitrary: zs) (auto simp: bindE_Inr_iff)

lemma concat_mapE_total:
  "(\<And>x. x \<in> set xs \<Longrightarrow> \<exists>y. f x = Inr y) \<Longrightarrow> \<exists>ys. concat_mapE f xs = Inr ys"
  by (induction xs) (fastforce simp: result_simps)+

lemma forE_Inr_iff [result_simps]: "forE f xs = Inr u \<longleftrightarrow> (\<forall>x \<in> set xs. f x = Inr ())"
  by (induction xs) (auto simp: result_simps)

lemma forE_Inl: "forE f xs = Inl e \<Longrightarrow> \<exists>x \<in> set xs. f x = Inl e"
  by (induction xs) (auto simp: result_simps)

text \<open>A lookup that insists on exactly one match.\<close>

lemma single_match_iff [result_simps]:
  "(case ms of [] \<Rightarrow> Inl a | [m] \<Rightarrow> f m | m # n # ns \<Rightarrow> Inl b) = Inr y \<longleftrightarrow>
     (\<exists>m. ms = [m] \<and> f m = Inr y)"
  by (auto split: list.splits)

lemma foldE_append: "foldE f s (xs @ ys) = bindE (foldE f s xs) (\<lambda>s'. foldE f s' ys)"
  by (induction xs arbitrary: s) (auto simp: bindE_assoc)

section \<open>Dictionaries\<close>

text \<open>
  A Python \<open>dict\<close> keeps its insertion order: it is an association list with distinct keys.
  \<open>AList.update\<close> overwrites a present key in place and appends a new one, as \<open>d[k] = v\<close> does.
\<close>

type_synonym ('k, 'v) dict = "('k \<times> 'v) list"

abbreviation dkeys :: "('k, 'v) dict \<Rightarrow> 'k list" where
  "dkeys d \<equiv> map fst d"

abbreviation dvalues :: "('k, 'v) dict \<Rightarrow> 'v list" where
  "dvalues d \<equiv> map snd d"

abbreviation dget :: "('k, 'v) dict \<Rightarrow> 'k \<Rightarrow> 'v option" where
  "dget d k \<equiv> map_of d k"

abbreviation dput :: "'k \<Rightarrow> 'v \<Rightarrow> ('k, 'v) dict \<Rightarrow> ('k, 'v) dict" where
  "dput \<equiv> AList.update"

abbreviation dpop :: "'k \<Rightarrow> ('k, 'v) dict \<Rightarrow> ('k, 'v) dict" where
  "dpop \<equiv> AList.delete"

definition wf_dict :: "('k, 'v) dict \<Rightarrow> bool" where
  "wf_dict d \<longleftrightarrow> distinct (dkeys d)"

lemma wf_dict_Nil [simp]: "wf_dict []"
  by (simp add: wf_dict_def)

lemma wf_dict_dput [simp]: "wf_dict d \<Longrightarrow> wf_dict (dput k v d)"
  by (simp add: wf_dict_def distinct_update)

lemma wf_dict_dpop [simp]: "wf_dict d \<Longrightarrow> wf_dict (dpop k d)"
  unfolding wf_dict_def by (rule distinct_delete)

lemma dget_dput [dict_simps]: "dget (dput k v d) k' = (if k' = k then Some v else dget d k')"
  by (simp add: update_conv')

lemma dget_dpop [dict_simps]: "dget (dpop k d) k' = (if k' = k then None else dget d k')"
  by (simp add: delete_conv')

lemma dput_new: "k \<notin> set (dkeys d) \<Longrightarrow> dput k v d = d @ [(k, v)]"
  by (induction d) auto

lemma dkeys_dput: "dkeys (dput k v d) = (if k \<in> set (dkeys d) then dkeys d else dkeys d @ [k])"
  by (simp add: update_keys)

lemma set_dkeys_dput [simp]: "set (dkeys (dput k v d)) = insert k (set (dkeys d))"
  by (auto simp: dkeys_dput)

lemma length_dpop_le: "length (dpop k d) \<le> length d"
  by (induction d) auto

lemma length_dpop_less: "k \<in> set (dkeys d) \<Longrightarrow> length (dpop k d) < length d"
proof (induction d)
  case (Cons p d)
  show ?case using Cons.IH Cons.prems length_dpop_le[of k d] by (cases "fst p = k") auto
qed simp

lemma dget_Some_key: "dget d k = Some v \<Longrightarrow> k \<in> set (dkeys d)"
  by (force dest: map_of_SomeD)

lemma dget_None_key: "dget d k = None \<longleftrightarrow> k \<notin> set (dkeys d)"
  by (induction d) auto

lemma dget_mem: "wf_dict d \<Longrightarrow> (k, v) \<in> set d \<Longrightarrow> dget d k = Some v"
  by (simp add: wf_dict_def)

section \<open>Ranking\<close>

text \<open>
  Both matchers and the fusion layer sort by descending score with ties broken by the
  identifier and keep the first \<open>n\<close>. The facts below are about any such ranking.
\<close>

lemma sorted_map_take: "sorted (map f xs) \<Longrightarrow> sorted (map f (take n xs))"
  by (metis sorted_wrt_take take_map)

lemma sorted_fst_of_lex:
  fixes f :: "'a \<Rightarrow> ('b::linorder) \<times> ('c::linorder)"
  shows "sorted (map f xs) \<Longrightarrow> sorted (map (fst \<circ> f) xs)"
  by (induction xs) (auto simp: less_eq_prod_def intro: order.strict_implies_order)

lemma distinct_set_single: "distinct xs \<Longrightarrow> set xs = {x} \<Longrightarrow> xs = [x]"
  by (cases xs; cases "tl xs") auto

text \<open>The slice \<open>xs[:n]\<close>: a negative bound counts from the end.\<close>

definition py_prefix :: "int \<Rightarrow> 'a list \<Rightarrow> 'a list" where
  "py_prefix n xs = take (if 0 \<le> n then nat n else length xs - nat (- n)) xs"

lemma set_py_prefix: "set (py_prefix n xs) \<subseteq> set xs"
  by (simp add: py_prefix_def set_take_subset)

lemma distinct_py_prefix: "distinct (map f xs) \<Longrightarrow> distinct (map f (py_prefix n xs))"
  by (simp add: py_prefix_def flip: take_map)

lemma length_py_prefix: "0 \<le> n \<Longrightarrow> int (length (py_prefix n xs)) \<le> n"
  by (simp add: py_prefix_def)

lemma py_prefix_all: "int (length xs) \<le> n \<Longrightarrow> py_prefix n xs = xs"
  by (simp add: py_prefix_def nat_le_iff)

lemma sorted_py_prefix: "sorted (map f xs) \<Longrightarrow> sorted (map f (py_prefix n xs))"
  by (simp add: py_prefix_def sorted_map_take)

section \<open>Windows of equally long blocks\<close>

lemma length_concat_frames:
  "list_all (\<lambda>f. length f = w) feats \<Longrightarrow> length (concat feats) = length feats * w"
  by (induction feats) auto

lemma concat_window:
  "list_all (\<lambda>f. length f = w) feats \<Longrightarrow>
     take (m * w) (drop (k * w) (concat feats)) = concat (take m (drop k feats))"
proof (induction feats arbitrary: k m)
  case (Cons f feats)
  show ?case
  proof (cases k)
    case 0
    then show ?thesis using Cons.IH [of "m - 1" 0] Cons.prems by (cases m) simp_all
  next
    case (Suc k')
    then show ?thesis using Cons.IH [of m k'] Cons.prems by simp
  qed
qed simp

end
