(* ===== verification/Py_Float.thy ===== *)
theory Py_Float
  imports Complex_Main
begin

text \<open>
  Python floats. A float is the rational number it denotes; every arithmetic operation is the
  exact operation followed by rounding to IEEE 754 binary64, to nearest with ties to even, with
  gradual underflow below \<open>2 ^ -1022\<close>. The program's floats are confidences and weights, that
  is numbers of size at most 2, so infinities, NaNs and the coarser grid above \<open>2 ^ 53\<close> are
  not modelled. The facts the fusion layer needs are that rounding is monotone, fixes every
  double, and in particular fixes 0 and 1.
\<close>

type_synonym pyfloat = rat

section \<open>Rounding\<close>

text \<open>\<open>fl_scale x\<close> is the number of binary places of the grid on which \<open>x\<close> is rounded.\<close>

function fl_scale_from :: "nat \<Rightarrow> rat \<Rightarrow> nat" where
  "fl_scale_from k x = (if 1074 \<le> k \<or> 2 ^ 52 \<le> x * 2 ^ k then k else fl_scale_from (Suc k) x)"
  by pat_completeness auto
termination
  by (relation "measure (\<lambda>(k, x). 1074 - k)") auto

declare fl_scale_from.simps [simp del]

definition fl_scale :: "rat \<Rightarrow> nat" where
  "fl_scale x = fl_scale_from 0 x"

definition round_half_even :: "rat \<Rightarrow> int" where
  "round_half_even y =
     (let f = \<lfloor>y\<rfloor>; r = y - of_int f
      in if r < 1 / 2 then f else if 1 / 2 < r then f + 1 else if even f then f else f + 1)"

definition fl_nonneg :: "rat \<Rightarrow> rat" where
  "fl_nonneg x = of_int (round_half_even (x * 2 ^ fl_scale x)) / 2 ^ fl_scale x"

definition fl :: "rat \<Rightarrow> pyfloat" where
  "fl x = (if x < 0 then - fl_nonneg (- x) else fl_nonneg x)"

definition is_double :: "rat \<Rightarrow> bool" where
  "is_double x \<longleftrightarrow> fl x = x"

definition fadd :: "pyfloat \<Rightarrow> pyfloat \<Rightarrow> pyfloat" where "fadd x y = fl (x + y)"
definition fmul :: "pyfloat \<Rightarrow> pyfloat \<Rightarrow> pyfloat" where "fmul x y = fl (x * y)"
definition fdiv :: "pyfloat \<Rightarrow> pyfloat \<Rightarrow> pyfloat" where "fdiv x y = fl (x / y)"

section \<open>The rounding grid\<close>

lemma fl_scale_from_props:
  "k \<le> 1074 \<Longrightarrow> (\<And>j. j < k \<Longrightarrow> x * 2 ^ j < 2 ^ 52) \<Longrightarrow>
     fl_scale_from k x \<le> 1074 \<and>
     (fl_scale_from k x < 1074 \<longrightarrow> 2 ^ 52 \<le> x * 2 ^ fl_scale_from k x) \<and>
     (\<forall>j < fl_scale_from k x. x * 2 ^ j < 2 ^ 52)"
proof (induction k x rule: fl_scale_from.induct)
  case (1 k x)
  show ?case
  proof (cases "1074 \<le> k \<or> 2 ^ 52 \<le> x * 2 ^ k")
    case True
    then have "fl_scale_from k x = k" by (simp add: fl_scale_from.simps [of k x])
    then show ?thesis using "1.prems" True by auto
  next
    case False
    then have eq: "fl_scale_from k x = fl_scale_from (Suc k) x"
      by (simp add: fl_scale_from.simps [of k x])
    have "\<And>j. j < Suc k \<Longrightarrow> x * 2 ^ j < 2 ^ 52"
      using "1.prems"(2) False by (auto simp: less_Suc_eq)
    then show ?thesis unfolding eq using "1.IH" False by auto
  qed
qed

lemma fl_scale_le: "fl_scale x \<le> 1074"
  and fl_scale_ge: "fl_scale x < 1074 \<Longrightarrow> 2 ^ 52 \<le> x * 2 ^ fl_scale x"
  and fl_scale_min: "j < fl_scale x \<Longrightarrow> x * 2 ^ j < 2 ^ 52"
  using fl_scale_from_props [of 0 x] by (auto simp: fl_scale_def)

lemma fl_scale_antimono:
  assumes "0 \<le> x" and "x \<le> y"
  shows "fl_scale y \<le> fl_scale x"
proof (rule ccontr)
  assume "\<not> fl_scale y \<le> fl_scale x"
  then have lt: "fl_scale x < fl_scale y" by simp
  then have "fl_scale x < 1074" using fl_scale_le [of y] by simp
  then have "2 ^ 52 \<le> x * 2 ^ fl_scale x" by (rule fl_scale_ge)
  also have "\<dots> \<le> y * 2 ^ fl_scale x" using assms by (simp add: mult_right_mono)
  also have "\<dots> < 2 ^ 52" using lt by (rule fl_scale_min)
  finally show False by simp
qed

section \<open>Rounding to an integer\<close>

lemma round_half_even_of_int [simp]: "round_half_even (of_int i) = i"
  by (simp add: round_half_even_def)

lemma round_half_even_bounds: "\<lfloor>y\<rfloor> \<le> round_half_even y" "round_half_even y \<le> \<lfloor>y\<rfloor> + 1"
  by (auto simp: round_half_even_def Let_def)

lemma round_half_even_mono:
  assumes "x \<le> y"
  shows "round_half_even x \<le> round_half_even y"
proof (cases "\<lfloor>x\<rfloor> = \<lfloor>y\<rfloor>")
  case True
  then show ?thesis using assms by (auto simp: round_half_even_def Let_def)
next
  case False
  then have "\<lfloor>x\<rfloor> + 1 \<le> \<lfloor>y\<rfloor>" using floor_mono [OF assms] by simp
  then show ?thesis using round_half_even_bounds(2) [of x] round_half_even_bounds(1) [of y] by simp
qed

lemma round_half_even_le_int: "y \<le> of_int i \<Longrightarrow> round_half_even y \<le> i"
  using round_half_even_mono [of y "of_int i"] by simp

lemma round_half_even_ge_int: "of_int i \<le> y \<Longrightarrow> i \<le> round_half_even y"
  using round_half_even_mono [of "of_int i" y] by simp

section \<open>Rounding to a double\<close>

lemma fl_nonneg_mono:
  assumes "0 \<le> x" and "x \<le> y"
  shows "fl_nonneg x \<le> fl_nonneg y"
proof -
  let ?a = "fl_scale x" and ?b = "fl_scale y"
  have le: "?b \<le> ?a" using assms by (rule fl_scale_antimono)
  show ?thesis
  proof (cases "?b = ?a")
    case True
    have "x * 2 ^ ?a \<le> y * 2 ^ ?a" using assms by (simp add: mult_right_mono)
    then have "round_half_even (x * 2 ^ ?a) \<le> round_half_even (y * 2 ^ ?a)"
      by (rule round_half_even_mono)
    then show ?thesis using True by (simp add: fl_nonneg_def divide_right_mono)
  next
    case False
    then have lt: "?b < ?a" using le by simp
    have p: "(2::rat) ^ ?a = 2 ^ ?b * 2 ^ (?a - ?b)"
      using le by (metis le_add_diff_inverse power_add)
    have "x * 2 ^ ?b < 2 ^ 52" using lt by (rule fl_scale_min)
    then have "x * 2 ^ ?b * 2 ^ (?a - ?b) \<le> 2 ^ 52 * 2 ^ (?a - ?b)"
      by (intro mult_right_mono) auto
    then have "x * 2 ^ ?a \<le> of_int (2 ^ 52 * 2 ^ (?a - ?b))" by (simp add: p mult.assoc)
    then have "round_half_even (x * 2 ^ ?a) \<le> 2 ^ 52 * 2 ^ (?a - ?b)"
      by (rule round_half_even_le_int)
    then have "of_int (round_half_even (x * 2 ^ ?a)) \<le> (of_int (2 ^ 52 * 2 ^ (?a - ?b)) :: rat)"
      by (simp only: of_int_le_iff)
    then have x: "fl_nonneg x \<le> 2 ^ 52 / 2 ^ ?b"
      by (simp add: fl_nonneg_def p field_simps)
    have "?b < 1074" using lt fl_scale_le [of x] by simp
    then have "of_int (2 ^ 52) \<le> y * 2 ^ ?b" using fl_scale_ge [of y] by simp
    then have "2 ^ 52 \<le> round_half_even (y * 2 ^ ?b)" by (rule round_half_even_ge_int)
    then have "(of_int (2 ^ 52) :: rat) \<le> of_int (round_half_even (y * 2 ^ ?b))"
      by (simp only: of_int_le_iff)
    then have "2 ^ 52 / 2 ^ ?b \<le> fl_nonneg y"
      by (simp add: fl_nonneg_def divide_right_mono)
    with x show ?thesis by simp
  qed
qed

lemma fl_nonneg_0 [simp]: "fl_nonneg 0 = 0"
  using round_half_even_of_int [of 0] by (simp add: fl_nonneg_def)

lemma fl_0 [simp]: "fl 0 = 0"
  by (simp add: fl_def)

lemma fl_nonneg_ge_0: "0 \<le> x \<Longrightarrow> 0 \<le> fl_nonneg x"
  using fl_nonneg_mono [of 0 x] by simp

lemma fl_mono:
  assumes "x \<le> y"
  shows "fl x \<le> fl y"
proof -
  consider "0 \<le> x" | "x < 0" "y < 0" | "x < 0" "0 \<le> y" by linarith
  then show ?thesis
  proof cases
    case 2
    then show ?thesis using assms fl_nonneg_mono [of "- y" "- x"] by (simp add: fl_def)
  next
    case 3
    then have "fl x \<le> 0" using fl_nonneg_ge_0 [of "- x"] by (simp add: fl_def)
    also have "0 \<le> fl y" using 3 fl_nonneg_ge_0 [of y] by (simp add: fl_def)
    finally show ?thesis .
  qed (use assms fl_nonneg_mono in \<open>simp add: fl_def\<close>)
qed

lemma fl_nonneg_grid:
  assumes "0 \<le> i" and "i \<le> 2 ^ 53" and "j \<le> 1074"
  shows "fl_nonneg (of_int i / 2 ^ j) = of_int i / 2 ^ j"
proof -
  let ?y = "of_int i / 2 ^ j :: rat"
  let ?k = "fl_scale ?y"
  have "\<exists>m. ?y * 2 ^ ?k = of_int m"
  proof (cases "j \<le> ?k")
    case True
    have "(2::rat) ^ ?k = 2 ^ j * 2 ^ (?k - j)" using True by (metis le_add_diff_inverse power_add)
    then have "?y * 2 ^ ?k = of_int (i * 2 ^ (?k - j))" by simp
    then show ?thesis ..
  next
    case False
    then have lt: "?k < j" by simp
    define d where "d = j - ?k"
    have d: "j - ?k = d" "1 \<le> d" using lt by (auto simp: d_def)
    have p: "(2::rat) ^ j = 2 ^ ?k * 2 ^ d"
      unfolding d_def using lt by (metis le_add_diff_inverse less_imp_le power_add)
    have "2 ^ 52 \<le> ?y * 2 ^ ?k" using lt assms(3) by (intro fl_scale_ge) simp
    also have eq: "?y * 2 ^ ?k = of_int i / 2 ^ d"
      by (subst (1) p) simp
    finally have ge: "2 ^ 52 * 2 ^ d \<le> (of_int i :: rat)" by (simp add: field_simps)
    have "(of_int i :: rat) \<le> of_int (2 ^ 53)" using assms(2) by (simp only: of_int_le_iff)
    then have "(2::rat) ^ 52 * 2 ^ d \<le> 2 ^ 52 * 2 ^ 1" using ge by simp
    then have "(2::rat) ^ d \<le> 2 ^ 1" by (rule mult_left_le_imp_le) simp
    then have "d \<le> 1" by (rule power_le_imp_le_exp [rotated]) simp
    then have d1: "d = 1" using d(2) by simp
    then have "(of_int (2 ^ 53) :: rat) \<le> of_int i" using ge by simp
    then have "i = 2 ^ 53" using assms(2) by (simp only: of_int_le_iff)
    then have "of_int i / 2 ^ d = (of_int (2 ^ 52) :: rat)" using d1 by simp
    then show ?thesis using eq by auto
  qed
  then obtain m where m: "?y * 2 ^ ?k = of_int m" ..
  then have "fl_nonneg ?y = ?y * 2 ^ ?k / 2 ^ ?k"
    by (simp only: fl_nonneg_def round_half_even_of_int)
  then show ?thesis by (simp only: nonzero_mult_div_cancel_right power_not_zero zero_neq_numeral
        not_False_eq_True)
qed

lemma fl_nonneg_idem:
  assumes "0 \<le> x"
  shows "fl_nonneg (fl_nonneg x) = fl_nonneg x"
proof -
  let ?k = "fl_scale x" and ?m = "round_half_even (x * 2 ^ fl_scale x)"
  have m0: "0 \<le> ?m" using assms round_half_even_ge_int [of 0 "x * 2 ^ ?k"] by simp
  show ?thesis
  proof (cases "?k = 0")
    case True
    then have x: "2 ^ 52 \<le> x" using fl_scale_ge [of x] by simp
    have y: "fl_nonneg x = of_int (round_half_even x)" using True by (simp add: fl_nonneg_def)
    have "2 ^ 52 \<le> round_half_even x" using x round_half_even_ge_int [of "2 ^ 52" x] by simp
    then have "(of_int (2 ^ 52) :: rat) \<le> fl_nonneg x" unfolding y by (simp only: of_int_le_iff)
    then have "fl_scale (fl_nonneg x) = 0"
      using fl_scale_min [of 0 "fl_nonneg x"] by fastforce
    then have "fl_nonneg (of_int (round_half_even x)) = of_int (round_half_even x)"
      unfolding y by (simp add: fl_nonneg_def)
    then show ?thesis by (simp only: y)
  next
    case False
    then obtain j where j: "?k = Suc j" by (cases ?k) auto
    have "x * 2 ^ j < 2 ^ 52" using j by (intro fl_scale_min) simp
    then have "x * 2 ^ ?k \<le> of_int (2 ^ 53)" by (simp add: j)
    then have "?m \<le> 2 ^ 53" by (rule round_half_even_le_int)
    then show ?thesis using m0 fl_nonneg_grid [of ?m ?k] fl_scale_le [of x]
      by (simp add: fl_nonneg_def [of x])
  qed
qed

lemma is_double_fl [simp]: "is_double (fl x)"
proof (cases "x < 0")
  case True
  then have n: "0 \<le> fl_nonneg (- x)" by (simp add: fl_nonneg_ge_0)
  then show ?thesis using True fl_nonneg_idem [of "- x"]
    by (cases "fl_nonneg (- x) = 0") (auto simp: is_double_def fl_def)
next
  case False
  then show ?thesis using fl_nonneg_idem [of x] fl_nonneg_ge_0 [of x]
    by (simp add: is_double_def fl_def)
qed

lemma is_double_grid:
  assumes "0 \<le> i" and "i \<le> 2 ^ 53" and "j \<le> 1074"
  shows "is_double (of_int i / 2 ^ j)"
proof -
  have "0 \<le> (of_int i / 2 ^ j :: rat)" using assms(1) by simp
  then show ?thesis using fl_nonneg_grid [OF assms] by (simp add: is_double_def fl_def)
qed

lemma fl_1 [simp]: "fl 1 = 1"
  using is_double_grid [of 1 0] by (simp add: is_double_def)

lemma is_double_0_1 [simp]: "is_double 0" "is_double 1"
  by (simp_all add: is_double_def)

lemma fl_le_double: "is_double y \<Longrightarrow> x \<le> y \<Longrightarrow> fl x \<le> y"
  using fl_mono [of x y] by (simp add: is_double_def)

lemma fl_ge_double: "is_double y \<Longrightarrow> y \<le> x \<Longrightarrow> y \<le> fl x"
  using fl_mono [of y x] by (simp add: is_double_def)

lemma fl_unit: "0 \<le> x \<Longrightarrow> x \<le> 1 \<Longrightarrow> 0 \<le> fl x \<and> fl x \<le> 1"
  by (simp add: fl_le_double fl_ge_double)

lemmas float_ops = fadd_def fmul_def fdiv_def

lemma is_double_ops [simp]: "is_double (fadd x y)" "is_double (fmul x y)" "is_double (fdiv x y)"
  by (simp_all add: float_ops)

text \<open>Multiplying by a confidence in the unit interval does not leave the interval up to a weight.\<close>

lemma fmul_unit:
  assumes "0 \<le> c" and "c \<le> 1" and "0 \<le> w" and "is_double w"
  shows "0 \<le> fmul w c" and "fmul w c \<le> w"
proof -
  have "w * c \<le> w" using assms by (simp add: mult_left_le)
  then show "fmul w c \<le> w" using assms(4) by (simp add: fmul_def fl_le_double)
  show "0 \<le> fmul w c" using assms by (simp add: fmul_def fl_ge_double)
qed

section \<open>The rounding error\<close>

lemma round_half_even_error: "\<bar>of_int (round_half_even y) - y\<bar> \<le> 1 / 2"
proof -
  define f where "f = (of_int \<lfloor>y\<rfloor> :: rat)"
  have "f \<le> y" and "y < f + 1" unfolding f_def by linarith+
  moreover have "of_int (round_half_even y) \<in> {f, f + 1}" "y - f < 1 / 2 \<Longrightarrow> of_int (round_half_even y) = f"
      "1 / 2 < y - f \<Longrightarrow> of_int (round_half_even y) = f + 1"
    unfolding round_half_even_def Let_def f_def by auto
  ultimately show ?thesis by (cases "y - f < 1 / 2"; cases "1 / 2 < y - f") (auto simp: abs_le_iff)
qed

lemma fl_nonneg_error:
  assumes "0 \<le> x"
  shows "\<bar>fl_nonneg x - x\<bar> \<le> x / 2 ^ 53 + 1 / 2 ^ 1075"
proof -
  let ?k = "fl_scale x"
  have "fl_nonneg x - x = (of_int (round_half_even (x * 2 ^ ?k)) - x * 2 ^ ?k) / 2 ^ ?k"
    by (simp add: fl_nonneg_def diff_divide_distrib)
  then have "\<bar>fl_nonneg x - x\<bar> \<le> (1 / 2) / 2 ^ ?k"
    using divide_right_mono [OF round_half_even_error [of "x * 2 ^ ?k"], of "2 ^ ?k"] by (simp only: abs_divide) simp
  also have "\<dots> \<le> x / 2 ^ 53 + 1 / 2 ^ 1075"
  proof (cases "?k = 1074")
    case True
    then show ?thesis using assms by simp
  next
    case False
    then have "2 ^ 52 \<le> x * 2 ^ ?k" using fl_scale_le [of x] by (intro fl_scale_ge) simp
    then have "(1 / 2) / 2 ^ ?k \<le> x / 2 ^ 53" by (simp add: field_simps)
    then show ?thesis by (rule order_trans) simp
  qed
  finally show ?thesis .
qed

lemma fl_error: "\<bar>fl x - x\<bar> \<le> \<bar>x\<bar> / 2 ^ 53 + 1 / 2 ^ 1075"
  using fl_nonneg_error [of x] fl_nonneg_error [of "- x"] by (cases "x < 0") (simp_all add: fl_def)

lemma tiny_power: "(1 :: rat) / 2 ^ 1075 \<le> 1 / 2 ^ k" if "k \<le> 1075"
  using that by (intro divide_left_mono power_increasing) auto

lemma fl_error_bounds:
  "fl x \<le> x + (\<bar>x\<bar> / 2 ^ 53 + 1 / 2 ^ 103)" "x - (\<bar>x\<bar> / 2 ^ 53 + 1 / 2 ^ 103) \<le> fl x"
proof -
  define e where "e = (1 :: rat) / 2 ^ 1075"
  have "e \<le> 1 / 2 ^ 103" unfolding e_def by (rule tiny_power) simp
  moreover have "\<bar>fl x - x\<bar> \<le> \<bar>x\<bar> / 2 ^ 53 + e" unfolding e_def by (rule fl_error)
  ultimately show "fl x \<le> x + (\<bar>x\<bar> / 2 ^ 53 + 1 / 2 ^ 103)" "x - (\<bar>x\<bar> / 2 ^ 53 + 1 / 2 ^ 103) \<le> fl x"
    unfolding abs_le_iff by linarith+
qed

lemma is_double_int: "\<bar>i\<bar> \<le> 2 ^ 53 \<Longrightarrow> is_double (of_int i)"
  using fl_nonneg_grid [of i 0] fl_nonneg_grid [of "- i" 0] by (cases "i < 0") (simp_all add: is_double_def fl_def)

section \<open>Evaluating a rounded operation\<close>

text \<open>
  A concrete rounding is certified by the grid \<open>k\<close> and the significand \<open>m\<close>: the exact value
  lies in the binade of that grid and closer to \<open>m\<close> than half a unit.
\<close>

lemma fl_scale_eqI:
  assumes "2 ^ 52 \<le> x * 2 ^ k" and "x * 2 ^ k < 2 ^ 53" and "0 < k" and "k < 1074"
  shows "fl_scale x = k"
proof (rule antisym)
  show "fl_scale x \<le> k"
  proof (rule ccontr)
    assume "\<not> fl_scale x \<le> k"
    then have "x * 2 ^ k < 2 ^ 52" by (intro fl_scale_min) simp
    then show False using assms(1) by simp
  qed
  show "k \<le> fl_scale x"
  proof (rule ccontr)
    assume lt: "\<not> k \<le> fl_scale x"
    then have ge: "2 ^ 52 \<le> x * 2 ^ fl_scale x" using assms(4) by (intro fl_scale_ge) simp
    have "(2::rat) ^ k = 2 ^ fl_scale x * 2 ^ (k - fl_scale x)"
      using lt by (metis le_add_diff_inverse nat_le_linear power_add)
    then have eq: "x * 2 ^ k = x * 2 ^ fl_scale x * 2 ^ (k - fl_scale x)" by simp
    have "(2::rat) ^ 1 \<le> 2 ^ (k - fl_scale x)" using lt by (intro power_increasing) auto
    then have "2 ^ 52 * 2 ^ 1 \<le> x * 2 ^ k" unfolding eq using ge by (intro mult_mono) auto
    then show False using assms(2) by simp
  qed
qed

lemma round_half_even_eqI:
  assumes "of_int m - 1 / 2 < y" and "y < of_int m + 1 / 2"
  shows "round_half_even y = m"
proof (cases "of_int m \<le> y")
  case True
  then have "\<lfloor>y\<rfloor> = m" using assms by (intro floor_unique) auto
  then show ?thesis using assms by (simp add: round_half_even_def Let_def)
next
  case False
  then have "\<lfloor>y\<rfloor> = m - 1" using assms by (intro floor_unique) auto
  then show ?thesis using assms by (simp add: round_half_even_def Let_def)
qed

lemma fl_eqI:
  assumes "2 ^ 52 \<le> x * 2 ^ k" and "x * 2 ^ k < 2 ^ 53" and "0 < k" and "k < 1074"
    and "of_int m - 1 / 2 < x * 2 ^ k" and "x * 2 ^ k < of_int m + 1 / 2"
  shows "fl x = of_int m / 2 ^ k"
proof -
  have "0 < x * 2 ^ k" using assms(1) by (rule less_le_trans [rotated]) simp
  then have "0 \<le> x" by (simp add: zero_less_mult_iff)
  then show ?thesis using fl_scale_eqI [OF assms(1-4)] round_half_even_eqI [OF assms(5,6)]
    by (simp add: fl_def fl_nonneg_def)
qed

text \<open>A tie goes to the even neighbour.\<close>

lemma fl_tieI:
  assumes "2 ^ 52 \<le> x * 2 ^ k" and "x * 2 ^ k < 2 ^ 53" and "0 < k" and "k < 1074"
    and "x * 2 ^ k = of_int m + 1 / 2" and "even m"
  shows "fl x = of_int m / 2 ^ k"
proof -
  have "0 < x * 2 ^ k" using assms(1) by (rule less_le_trans [rotated]) simp
  then have "0 \<le> x" by (simp add: zero_less_mult_iff)
  moreover have "\<lfloor>x * 2 ^ k\<rfloor> = m" unfolding assms(5) by (intro floor_unique) auto
  then have "round_half_even (x * 2 ^ k) = m"
    using assms(5,6) by (simp add: round_half_even_def Let_def)
  ultimately show ?thesis using fl_scale_eqI [OF assms(1-4)] by (simp add: fl_def fl_nonneg_def)
qed

text \<open>Doubling a double of the unit interval is exact.\<close>

lemma is_double_twice:
  assumes "is_double a" and "0 \<le> a" and "a \<le> 1"
  shows "is_double (2 * a)"
proof -
  let ?m = "round_half_even (a * 2 ^ fl_scale a)"
  have a: "a = of_int ?m / 2 ^ fl_scale a"
    using assms(1,2) by (simp add: is_double_def fl_def fl_nonneg_def)
  have "fl_scale a \<noteq> 0"
  proof
    assume "fl_scale a = 0"
    then have "2 ^ 52 \<le> a" using fl_scale_ge [of a] by simp
    then show False using assms(3) by simp
  qed
  then obtain j where j: "fl_scale a = Suc j" by (cases "fl_scale a") auto
  have "a * 2 ^ j < 2 ^ 52" using j by (intro fl_scale_min) simp
  then have "a * 2 ^ fl_scale a \<le> of_int (2 ^ 53)" by (simp add: j)
  then have m: "?m \<le> 2 ^ 53" by (rule round_half_even_le_int)
  have "0 \<le> ?m" using assms(2) round_half_even_ge_int [of 0 "a * 2 ^ fl_scale a"] by simp
  then have "is_double (of_int ?m / 2 ^ j)"
    using m j fl_scale_le [of a] by (intro is_double_grid) auto
  moreover have "of_int ?m / 2 ^ j = 2 * a" by (subst (2) a) (simp add: j)
  ultimately show ?thesis by simp
qed

end
