(* ===== verification/Py_Text.thy ===== *)
theory Py_Text
  imports Prelude Py_Float "HOL-Library.Word" "HOL-Library.Sublist"
begin

text \<open>
  Python text and bytes. A \<open>str\<close> is the list of its code points, a \<open>bytes\<close> object a list of
  8-bit words. The theory models the string methods the sources call: \<open>strip\<close>, \<open>split\<close> with
  a separator and on white space, \<open>join\<close>, \<open>replace\<close> of one character, \<open>find\<close>,
  \<open>partition\<close>, \<open>str(int)\<close>, \<open>int(str)\<close>, and UTF-8 encoding and strict decoding, with the
  round trips the message codecs rest on.
\<close>

type_synonym pystr = "nat list"
type_synonym byte = "8 word"
type_synonym bytes = "byte list"

text \<open>A source literal: \<open>u ''abc''\<close> is the Python string \<open>"abc"\<close>.\<close>

abbreviation u :: "string \<Rightarrow> pystr" where
  "u s \<equiv> map of_char s"

section \<open>White space\<close>

definition is_space :: "nat \<Rightarrow> bool" where
  "is_space c \<longleftrightarrow> (9 \<le> c \<and> c \<le> 13) \<or> (28 \<le> c \<and> c \<le> 32) \<or> c = 133 \<or> c = 160 \<or> c = 5760
     \<or> (8192 \<le> c \<and> c \<le> 8202) \<or> c = 8232 \<or> c = 8233 \<or> c = 8239 \<or> c = 8287 \<or> c = 12288"

definition strip_by :: "('a \<Rightarrow> bool) \<Rightarrow> 'a list \<Rightarrow> 'a list" where
  "strip_by p s = rev (dropWhile p (rev (dropWhile p s)))"

abbreviation strip :: "pystr \<Rightarrow> pystr" where
  "strip \<equiv> strip_by is_space"

lemma dropWhile_hd: "s = [] \<or> \<not> p (hd s) \<Longrightarrow> dropWhile p s = s"
  by (cases s) auto

lemma strip_by_id: "s = [] \<or> (\<not> p (hd s) \<and> \<not> p (last s)) \<Longrightarrow> strip_by p s = s"
  by (auto simp: strip_by_def dropWhile_hd hd_rev)

lemma strip_by_Nil [simp]: "strip_by p [] = []"
  by (simp add: strip_by_def)

lemma strip_by_none: "(\<And>c. c \<in> set s \<Longrightarrow> \<not> p c) \<Longrightarrow> strip_by p s = s"
  by (rule strip_by_id) (metis hd_in_set last_in_set)

lemma strip_by_Cons: "p c \<Longrightarrow> strip_by p (c # s) = strip_by p s"
  by (simp add: strip_by_def)

lemma strip_by_ends:
  assumes "strip_by p s \<noteq> []"
  shows "\<not> p (hd (strip_by p s))" and "\<not> p (last (strip_by p s))"
proof -
  let ?d = "dropWhile p s"
  have ne: "dropWhile p (rev ?d) \<noteq> []" using assms by (simp add: strip_by_def)
  then have "\<not> p (hd (dropWhile p (rev ?d)))" by (rule hd_dropWhile)
  then show "\<not> p (last (strip_by p s))" using ne by (simp add: strip_by_def last_rev)
  from ne have d: "?d \<noteq> []" by (metis dropWhile.simps(1) rev.simps(1))
  then have hd: "\<not> p (hd ?d)" by (rule hd_dropWhile)
  have "suffix (dropWhile p (rev ?d)) (rev ?d)" by (rule suffix_dropWhile)
  then have "prefix (strip_by p s) ?d" by (simp add: strip_by_def suffix_to_prefix)
  then show "\<not> p (hd (strip_by p s))" using assms hd by (auto simp: prefix_def)
qed

lemma strip_by_idem: "strip_by p (strip_by p s) = strip_by p s"
  using strip_by_ends[of p s] by (intro strip_by_id) auto

text \<open>\<open>s.split()\<close>: the maximal runs of non-space characters.\<close>

fun words_aux :: "('a \<Rightarrow> bool) \<Rightarrow> 'a list \<Rightarrow> 'a list \<Rightarrow> 'a list list" where
  "words_aux p acc [] = (if acc = [] then [] else [rev acc])"
| "words_aux p acc (c # cs) =
     (if p c then (if acc = [] then words_aux p [] cs else rev acc # words_aux p [] cs)
      else words_aux p (c # acc) cs)"

definition words_by :: "('a \<Rightarrow> bool) \<Rightarrow> 'a list \<Rightarrow> 'a list list" where
  "words_by p s = words_aux p [] s"

lemma words_aux_token:
  "(\<And>c. c \<in> set w \<Longrightarrow> \<not> p c) \<Longrightarrow> words_aux p acc (w @ s) = words_aux p (rev w @ acc) s"
  by (induction w arbitrary: acc) auto

lemma words_by_token:
  assumes "w \<noteq> []" and "\<And>c. c \<in> set w \<Longrightarrow> \<not> p c" and "p d"
  shows "words_by p (w @ d # s) = w # words_by p s" and "words_by p w = [w]"
  using words_aux_token[of w p "[]" "d # s"] words_aux_token[of w p "[]" "[]"] assms
  by (auto simp: words_by_def)

section \<open>Splitting and joining\<close>

text \<open>\<open>s.split(sep)\<close> for a non-empty separator: leftmost, non-overlapping.\<close>

function py_split :: "'a list \<Rightarrow> 'a list \<Rightarrow> 'a list list" where
  "py_split sep [] = [[]]"
| "py_split sep (c # cs) =
     (if sep \<noteq> [] \<and> take (length sep) (c # cs) = sep
      then [] # py_split sep (drop (length sep) (c # cs))
      else (case py_split sep cs of [] \<Rightarrow> [[c]] | w # ws \<Rightarrow> (c # w) # ws))"
  by pat_completeness auto
termination
  by (relation "measure (\<lambda>(sep, s). length s)") auto

declare py_split.simps(2) [simp del]

lemma py_split_ne [simp]: "py_split sep s \<noteq> []"
  by (cases s) (auto simp: py_split.simps split: list.splits)

fun py_join :: "'a list \<Rightarrow> 'a list list \<Rightarrow> 'a list" where
  "py_join sep [] = []"
| "py_join sep [w] = w"
| "py_join sep (w # ws) = w @ sep @ py_join sep ws"

lemma py_join_Cons: "ws \<noteq> [] \<Longrightarrow> py_join sep (w # ws) = w @ sep @ py_join sep ws"
  by (cases ws) auto

lemma py_split_sep: "sep \<noteq> [] \<Longrightarrow> py_split sep (sep @ s) = [] # py_split sep s"
  by (cases sep) (auto simp: py_split.simps)

lemma py_split_noprefix:
  "take (length sep) (c # cs) \<noteq> sep \<Longrightarrow>
     py_split sep (c # cs) = (c # hd (py_split sep cs)) # tl (py_split sep cs)"
  by (auto simp: py_split.simps split: list.splits)

text \<open>
  A separator of two different characters cannot begin inside a word that does not contain it,
  so splitting undoes joining. Both separators of the program, \<open>"->"\<close> and CR LF, are of this
  kind.
\<close>

lemma py_split_word2:
  assumes "a \<noteq> b" and "\<not> sublist [a, b] w"
  shows "py_split [a, b] (w @ [a, b] @ s) = w # py_split [a, b] s"
  using assms(2)
proof (induction w)
  case Nil
  then show ?case using py_split_sep[of "[a, b]" s] by simp
next
  case (Cons c w)
  have sub: "\<not> sublist [a, b] w" using Cons.prems by (meson sublist_Cons_right)
  have "take 2 (c # w @ [a, b] @ s) \<noteq> [a, b]"
    using assms(1) Cons.prems
    by (cases w) (auto simp: sublist_Cons_right numeral_2_eq_2)
  then show ?case using Cons.IH[OF sub] py_split_noprefix[of "[a, b]" c "w @ [a, b] @ s"]
    by (simp add: numeral_2_eq_2)
qed

lemma py_split_single2: "\<not> sublist [a, b] w \<Longrightarrow> py_split [a, b] w = [w]"
proof (induction w)
  case (Cons c w)
  have sub: "\<not> sublist [a, b] w" using Cons.prems by (meson sublist_Cons_right)
  have "take 2 (c # w) \<noteq> [a, b]"
    using Cons.prems by (cases w) (auto simp: sublist_Cons_right numeral_2_eq_2)
  then show ?case using Cons.IH[OF sub] py_split_noprefix[of "[a, b]" c w]
    by (simp add: numeral_2_eq_2)
qed simp

theorem py_split_join:
  assumes "a \<noteq> b" and "ws \<noteq> []" and "\<And>w. w \<in> set ws \<Longrightarrow> \<not> sublist [a, b] w"
  shows "py_split [a, b] (py_join [a, b] ws) = ws"
  using assms(2,3)
proof (induction ws)
  case (Cons w ws)
  then show ?case
    using py_split_word2[OF assms(1), of w] py_split_single2[of a b w]
    by (cases "ws = []") (auto simp: py_join_Cons)
qed simp

section \<open>Searching\<close>

text \<open>\<open>s.find(sub)\<close>: the least index at which \<open>sub\<close> occurs, \<open>None\<close> for \<open>-1\<close>.\<close>

fun py_find :: "'a list \<Rightarrow> 'a list \<Rightarrow> nat option" where
  "py_find sub [] = (if sub = [] then Some 0 else None)"
| "py_find sub (c # cs) =
     (if take (length sub) (c # cs) = sub then Some 0 else map_option Suc (py_find sub cs))"

lemma py_find_Some:
  "py_find sub s = Some i \<Longrightarrow> take (length sub) (drop i s) = sub"
  by (induction sub s arbitrary: i rule: py_find.induct) (auto split: if_splits)

lemma py_find_least:
  "py_find sub s = Some i \<Longrightarrow> j < i \<Longrightarrow> take (length sub) (drop j s) \<noteq> sub"
proof (induction sub s arbitrary: i j rule: py_find.induct)
  case (2 sub c cs)
  then show ?case by (cases j) (auto split: if_splits)
qed (auto split: if_splits)

lemma py_find_append:
  assumes "\<And>j. j < length p \<Longrightarrow> take (length sub) (drop j (p @ sub @ s)) \<noteq> sub"
  shows "py_find sub (p @ sub @ s) = Some (length p)"
  using assms
proof (induction p)
  case Nil
  show ?case by (cases sub; cases s) auto
next
  case (Cons c p)
  have "take (length sub) (c # p @ sub @ s) \<noteq> sub" using Cons.prems[of 0] by simp
  moreover have "py_find sub (p @ sub @ s) = Some (length p)"
    using Cons.prems[of "Suc j" for j] by (intro Cons.IH) auto
  ultimately show ?case by simp
qed

text \<open>\<open>s.partition(sep)\<close> for a one-character separator: head, whether it was found, rest.\<close>

fun py_partition :: "'a \<Rightarrow> 'a list \<Rightarrow> 'a list \<times> bool \<times> 'a list" where
  "py_partition sep [] = ([], False, [])"
| "py_partition sep (c # cs) =
     (if c = sep then ([], True, cs)
      else (case py_partition sep cs of (h, f, t) \<Rightarrow> (c # h, f, t)))"

lemma py_partition_found: "sep \<notin> set h \<Longrightarrow> py_partition sep (h @ sep # t) = (h, True, t)"
  by (induction h) auto

text \<open>\<open>s.replace(c, r)\<close> for a one-character pattern.\<close>

definition replace1 :: "'a \<Rightarrow> 'a list \<Rightarrow> 'a list \<Rightarrow> 'a list" where
  "replace1 c r s = concat (map (\<lambda>x. if x = c then r else [x]) s)"

lemma replace1_simps [simp]:
  "replace1 c r [] = []"
  "replace1 c r (x # s) = (if x = c then r else [x]) @ replace1 c r s"
  by (simp_all add: replace1_def)

lemma replace1_append [simp]: "replace1 c r (s @ t) = replace1 c r s @ replace1 c r t"
  by (simp add: replace1_def)

section \<open>Dynamic values\<close>

text \<open>A Python value as JSON, YAML and CBOR decoders produce it.\<close>

datatype pyval =
    PNone
  | PBool bool
  | PInt int
  | PFloat pyfloat
  | PStr pystr
  | PList "pyval list"
  | PDict "(pyval \<times> pyval) list"

text \<open>The truth value of \<open>x\<close> in \<open>x or y\<close>.\<close>

fun truthy :: "pyval \<Rightarrow> bool" where
  "truthy PNone = False"
| "truthy (PBool b) = b"
| "truthy (PInt i) = (i \<noteq> 0)"
| "truthy (PFloat x) = (x \<noteq> 0)"
| "truthy (PStr s) = (s \<noteq> [])"
| "truthy (PList xs) = (xs \<noteq> [])"
| "truthy (PDict d) = (d \<noteq> [])"

end
