(* ===== verification/Py_Codec.thy ===== *)
theory Py_Codec
  imports Py_Text
begin

text \<open>
  The text codecs of the protocol adapters: UTF-8 encoding and strict decoding, decimal numbers
  (\<open>str(n)\<close>, \<open>"%d"\<close> and \<open>int(s)\<close>), the byte-string versions of \<open>strip\<close> and \<open>split\<close>, and
  big-endian fields. \<open>int\<close> is
  modelled on ASCII text: sign, digits, single underscores between digits and surrounding white
  space; the decimal digits of other scripts, which Python also accepts, are rejected here.
\<close>

section \<open>UTF-8\<close>

definition byte_of :: "nat \<Rightarrow> byte" where
  "byte_of n = of_nat n"

lemma unat_byte_of [simp]: "n < 256 \<Longrightarrow> unat (byte_of n) = n"
  by (simp add: byte_of_def unat_of_nat)

lemma byte_of_inject: "m < 256 \<Longrightarrow> n < 256 \<Longrightarrow> byte_of m = byte_of n \<longleftrightarrow> m = n"
  by (metis unat_byte_of)

definition is_scalar :: "nat \<Rightarrow> bool" where
  "is_scalar c \<longleftrightarrow> c < 0xD800 \<or> (0xE000 \<le> c \<and> c < 0x110000)"

definition utf8_char :: "nat \<Rightarrow> bytes result" where
  "utf8_char c =
     (if \<not> is_scalar c then Inl UnicodeEncodeError
      else if c < 0x80 then Inr [byte_of c]
      else if c < 0x800 then Inr [byte_of (0xC0 + c div 64), byte_of (0x80 + c mod 64)]
      else if c < 0x10000
      then Inr [byte_of (0xE0 + c div 4096), byte_of (0x80 + c div 64 mod 64), byte_of (0x80 + c mod 64)]
      else Inr [byte_of (0xF0 + c div 262144), byte_of (0x80 + c div 4096 mod 64),
                byte_of (0x80 + c div 64 mod 64), byte_of (0x80 + c mod 64)])"

definition utf8_encode :: "pystr \<Rightarrow> bytes result" where
  "utf8_encode s = concat_mapE utf8_char s"

definition is_cont :: "byte \<Rightarrow> bool" where
  "is_cont b \<longleftrightarrow> 0x80 \<le> unat b \<and> unat b < 0xC0"

definition cont :: "byte \<Rightarrow> nat" where
  "cont b = unat b - 0x80"

text \<open>Strict decoding rejects stray and missing continuations, overlong forms and surrogates.\<close>

fun utf8_decode :: "bytes \<Rightarrow> pystr result" where
  "utf8_decode [] = Inr []"
| "utf8_decode (b # bs) =
     (if unat b < 0x80 then bindE (utf8_decode bs) (\<lambda>s. Inr (unat b # s))
      else if 0xC2 \<le> unat b \<and> unat b < 0xE0 then
        (case bs of
           b1 # bs' \<Rightarrow>
             if is_cont b1
             then bindE (utf8_decode bs') (\<lambda>s. Inr (((unat b - 0xC0) * 64 + cont b1) # s))
             else Inl UnicodeDecodeError
         | _ \<Rightarrow> Inl UnicodeDecodeError)
      else if 0xE0 \<le> unat b \<and> unat b < 0xF0 then
        (case bs of
           b1 # b2 # bs' \<Rightarrow>
             (let c = (unat b - 0xE0) * 4096 + cont b1 * 64 + cont b2
              in if is_cont b1 \<and> is_cont b2 \<and> 0x800 \<le> c \<and> is_scalar c
                 then bindE (utf8_decode bs') (\<lambda>s. Inr (c # s))
                 else Inl UnicodeDecodeError)
         | _ \<Rightarrow> Inl UnicodeDecodeError)
      else if 0xF0 \<le> unat b \<and> unat b < 0xF5 then
        (case bs of
           b1 # b2 # b3 # bs' \<Rightarrow>
             (let c = (unat b - 0xF0) * 262144 + cont b1 * 4096 + cont b2 * 64 + cont b3
              in if is_cont b1 \<and> is_cont b2 \<and> is_cont b3 \<and> 0x10000 \<le> c \<and> is_scalar c
                 then bindE (utf8_decode bs') (\<lambda>s. Inr (c # s))
                 else Inl UnicodeDecodeError)
         | _ \<Rightarrow> Inl UnicodeDecodeError)
      else Inl UnicodeDecodeError)"

declare utf8_decode.simps(2) [simp del]

lemma cont_byte [simp]: "x < 64 \<Longrightarrow> is_cont (byte_of (0x80 + x))" "x < 64 \<Longrightarrow> cont (byte_of (0x80 + x)) = x"
  by (simp_all add: is_cont_def cont_def)

lemma scalar_less: "is_scalar c \<Longrightarrow> c < 0x110000"
  by (auto simp: is_scalar_def)

lemma base64_digits:
  fixes c :: nat
  shows "c div 4096 * 4096 + c div 64 mod 64 * 64 + c mod 64 = c"
    and "c div 262144 * 262144 + c div 4096 mod 64 * 4096 + c div 64 mod 64 * 64 + c mod 64 = c"
proof -
  have q: "c div 4096 = c div 64 div 64" "c div 262144 = c div 4096 div 64"
    by (simp_all add: div_mult2_eq [symmetric])
  have "c div 64 * 64 + c mod 64 = c" "c div 64 div 64 * 64 + c div 64 mod 64 = c div 64"
    "c div 4096 div 64 * 64 + c div 4096 mod 64 = c div 4096" by (rule div_mult_mod_eq)+
  then show "c div 4096 * 4096 + c div 64 mod 64 * 64 + c mod 64 = c"
    "c div 262144 * 262144 + c div 4096 mod 64 * 4096 + c div 64 mod 64 * 64 + c mod 64 = c"
    unfolding q by linarith+
qed

lemma utf8_decode_char:
  assumes "utf8_char c = Inr bs"
  shows "utf8_decode (bs @ rest) = bindE (utf8_decode rest) (\<lambda>s. Inr (c # s))"
proof -
  have sc: "is_scalar c" using assms by (auto simp: utf8_char_def split: if_splits)
  consider (one) "c < 0x80" | (two) "0x80 \<le> c" "c < 0x800" | (three) "0x800 \<le> c" "c < 0x10000"
    | (four) "0x10000 \<le> c" "c < 0x110000"
    using scalar_less [OF sc] by linarith
  then show ?thesis
  proof cases
    case one
    then show ?thesis using assms sc by (auto simp: utf8_char_def utf8_decode.simps)
  next
    case two
    then have "2 \<le> c div 64" "c div 64 < 32" by auto
    then show ?thesis using assms sc two by (auto simp: utf8_char_def utf8_decode.simps)
  next
    case three
    have hi: "c div 4096 < 16" using three by auto
    show ?thesis using assms sc three hi base64_digits(1) [of c]
      by (auto simp: utf8_char_def utf8_decode.simps Let_def)
  next
    case four
    have hi: "c div 262144 < 5" using four by auto
    show ?thesis using assms sc four hi base64_digits(2) [of c]
      by (auto simp: utf8_char_def utf8_decode.simps Let_def)
  qed
qed

lemma utf8_roundtrip: "utf8_encode s = Inr bs \<Longrightarrow> utf8_decode bs = Inr s"
proof (induction s arbitrary: bs)
  case (Cons c s)
  then obtain x y where "utf8_char c = Inr x" "utf8_encode s = Inr y" "bs = x @ y"
    by (auto simp: utf8_encode_def bindE_Inr_iff)
  then show ?case using utf8_decode_char Cons.IH by simp
qed (simp add: utf8_encode_def)

text \<open>On ASCII text UTF-8 is the identity on codes.\<close>

abbreviation ascii :: "pystr \<Rightarrow> bytes" where
  "ascii s \<equiv> map byte_of s"

lemma utf8_encode_ascii: "(\<And>c. c \<in> set s \<Longrightarrow> c < 128) \<Longrightarrow> utf8_encode s = Inr (ascii s)"
proof (induction s)
  case (Cons c s)
  have "c < 128" using Cons.prems [of c] by simp
  then have "utf8_char c = Inr [byte_of c]" by (simp add: utf8_char_def is_scalar_def)
  then show ?case using Cons by (simp add: utf8_encode_def)
qed (simp add: utf8_encode_def)

lemma utf8_decode_append:
  "utf8_encode s = Inr bs \<Longrightarrow> utf8_decode (bs @ rest) = bindE (utf8_decode rest) (\<lambda>t. Inr (s @ t))"
proof (induction s arbitrary: bs)
  case (Cons c s)
  then obtain x y where "utf8_char c = Inr x" "utf8_encode s = Inr y" "bs = x @ y"
    by (auto simp: utf8_encode_def bindE_Inr_iff)
  then show ?case using utf8_decode_char Cons.IH by (simp add: bindE_assoc)
next
  case Nil
  then show ?case by (cases "utf8_decode rest") (simp_all add: utf8_encode_def)
qed

lemma utf8_encode_append:
  "utf8_encode (s @ t) = bindE (utf8_encode s) (\<lambda>x. bindE (utf8_encode t) (\<lambda>y. Inr (x @ y)))"
  unfolding utf8_encode_def
  by (induction s) (simp_all add: bindE_assoc, simp add: bindE_def split: sum.split)

text \<open>Bytes below 128 stand for themselves only: an encoded character contains no other.\<close>

lemma utf8_char_bytes: "utf8_char c = Inr bs \<Longrightarrow> b \<in> set bs \<Longrightarrow> unat b < 128 \<Longrightarrow> unat b = c \<and> bs = [b]"
proof -
  assume a: "utf8_char c = Inr bs" "b \<in> set bs" "unat b < 128"
  have "c < 0x110000" using a(1) scalar_less by (auto simp: utf8_char_def split: if_splits)
  then have "c div 262144 < 5" by auto
  moreover have "c < 0x800 \<Longrightarrow> c div 64 < 32" "c < 0x10000 \<Longrightarrow> c div 4096 < 16" by auto
  ultimately show ?thesis using a by (auto simp: utf8_char_def split: if_splits)
qed

section \<open>Decimal numbers\<close>

fun dec :: "nat \<Rightarrow> pystr" where
  "dec n = (if n < 10 then [48 + n] else dec (n div 10) @ [48 + n mod 10])"

declare dec.simps [simp del]

definition int_str :: "int \<Rightarrow> pystr" where
  "int_str i = (if i < 0 then 45 # dec (nat (- i)) else dec (nat i))"

definition is_digit :: "nat \<Rightarrow> bool" where
  "is_digit c \<longleftrightarrow> 48 \<le> c \<and> c \<le> 57"

fun digits_val :: "nat \<Rightarrow> bool \<Rightarrow> pystr \<Rightarrow> nat option" where
  "digits_val acc after_digit [] = (if after_digit then Some acc else None)"
| "digits_val acc after_digit (c # cs) =
     (if is_digit c then digits_val (acc * 10 + (c - 48)) True cs
      else if c = 95 \<and> after_digit then digits_val acc False cs
      else None)"

definition parse_int :: "(nat \<Rightarrow> bool) \<Rightarrow> pystr \<Rightarrow> int result" where
  "parse_int space s =
     (let t = strip_by space s;
          neg = (t \<noteq> [] \<and> hd t = 45);
          t = (if t \<noteq> [] \<and> (hd t = 45 \<or> hd t = 43) then tl t else t)
      in case digits_val 0 False t of
           None \<Rightarrow> Inl (ValueError ''invalid literal for int()'')
         | Some n \<Rightarrow> Inr (if neg then - int n else int n))"

lemma dec_digits: "c \<in> set (dec n) \<Longrightarrow> is_digit c"
proof (induction n rule: dec.induct)
  case (1 n)
  then show ?case by (subst (asm) (2) dec.simps) (auto simp: is_digit_def split: if_splits)
qed

lemma dec_ne [simp]: "dec n \<noteq> []"
  by (subst dec.simps) simp

lemma digits_val_append:
  "(\<And>c. c \<in> set s \<Longrightarrow> is_digit c) \<Longrightarrow> s \<noteq> [] \<Longrightarrow>
     digits_val acc b (s @ t) = digits_val (foldl (\<lambda>a c. a * 10 + (c - 48)) acc s) True t"
proof (induction s arbitrary: acc b)
  case (Cons c s)
  then show ?case by (cases "s = []") auto
qed simp

lemma foldl_dec: "foldl (\<lambda>a c. a * 10 + (c - 48)) 0 (dec n) = n"
proof (induction n rule: dec.induct)
  case (1 n)
  then show ?case by (subst dec.simps) auto
qed

lemma dec_parse:
  assumes "\<And>c. is_digit c \<Longrightarrow> \<not> space c"
  shows "parse_int space (dec n) = Inr (int n)"
proof -
  have "strip_by space (dec n) = dec n" using assms dec_digits by (intro strip_by_none) blast
  moreover have "is_digit (hd (dec n))" by (intro dec_digits [of _ n] hd_in_set) simp
  ultimately show ?thesis
    using digits_val_append [of "dec n" 0 False "[]"] dec_digits foldl_dec [of n]
    by (auto simp: parse_int_def is_digit_def)
qed

lemma length_dec_mono: "m \<le> n \<Longrightarrow> length (dec m) \<le> length (dec n)"
proof (induction n arbitrary: m rule: dec.induct)
  case (1 n)
  have "length (dec (m div 10)) \<le> length (dec (n div 10))" if "\<not> n < 10"
    using 1 that by (simp add: div_le_mono)
  then show ?case using "1.prems" by (subst (1 2) dec.simps) auto
qed

lemma length_dec_less: "9 < n \<Longrightarrow> length (dec n) < n"
proof (induction n rule: dec.induct)
  case (1 n)
  show ?case
  proof (cases "n div 10 \<le> 9")
    case True
    then have "length (dec (n div 10)) = 1" by (subst dec.simps) simp
    then show ?thesis using "1.prems" by (subst dec.simps) simp
  next
    case False
    then have "length (dec (n div 10)) < n div 10" using 1 by auto
    then show ?thesis using "1.prems" by (subst dec.simps) auto
  qed
qed

section \<open>Byte strings\<close>

text \<open>\<open>bytes.strip()\<close> and \<open>bytes.split()\<close> know the ASCII white space only.\<close>

definition ascii_space :: "nat \<Rightarrow> bool" where
  "ascii_space c \<longleftrightarrow> c = 32 \<or> (9 \<le> c \<and> c \<le> 13)"

abbreviation codes :: "bytes \<Rightarrow> pystr" where
  "codes b \<equiv> map unat b"

definition bytes_tokens :: "bytes \<Rightarrow> pystr list" where
  "bytes_tokens b = words_by ascii_space (strip_by ascii_space (codes b))"

lemma digit_not_space: "is_digit c \<Longrightarrow> \<not> ascii_space c" "is_digit c \<Longrightarrow> \<not> is_space c"
  by (auto simp: is_digit_def ascii_space_def is_space_def)

section \<open>Big-endian fields\<close>

text \<open>The \<open>struct\<close> formats \<open>!H\<close> and \<open>!I\<close>.\<close>

definition be16 :: "byte \<Rightarrow> byte \<Rightarrow> 16 word" where
  "be16 hi lo = word_cat hi lo"

definition be32 :: "byte \<Rightarrow> byte \<Rightarrow> byte \<Rightarrow> byte \<Rightarrow> 32 word" where
  "be32 a b c d = word_cat (be16 a b) (be16 c d)"

definition pack16 :: "16 word \<Rightarrow> bytes" where
  "pack16 w = [ucast (drop_bit 8 w), ucast w]"

definition pack32 :: "32 word \<Rightarrow> bytes" where
  "pack32 w = pack16 (ucast (drop_bit 16 w)) @ pack16 (ucast w)"

end
