(* ===== verification/Mrcp_Messages.thy ===== *)
theory Mrcp_Messages
  imports Py_Codec
begin

text \<open>
  The MRCPv2 wire format: \<open>adapters/mrcp/messages.py\<close> and the serialiser and event parser of the
  simulator \<open>adapters/mrcp/client_sim.py\<close>. The length field of a start line counts the whole
  message including itself, so both serialisers loop until the number they print is the number
  of bytes they produce; not returning is the value \<open>None\<close>. Shown here: the loop ends and the
  length is right, an event survives the wire, and the simulator's requests lose their headers.
\<close>

section \<open>Messages\<close>

definition MRCP_VERSION :: bytes where "MRCP_VERSION = ascii (u ''MRCP/2.0'')"
definition CRLF :: bytes where "CRLF = [13, 10]"

type_synonym headers = "(pystr, pystr) dict"

record mrcp_request =
  req_method :: pystr
  req_request_id :: int
  req_headers :: headers
  req_body :: bytes

record mrcp_response =
  resp_status_code :: int
  resp_request_id :: int
  resp_request_state :: pystr
  resp_headers :: headers
  resp_body :: bytes

record mrcp_event =
  ev_event_name :: pystr
  ev_request_id :: int
  ev_request_state :: pystr
  ev_headers :: headers
  ev_body :: bytes

section \<open>Serialising\<close>

text \<open>
  \<open>template % n\<close> on byte strings with one integer argument. The start line is formatted twice,
  so a percent sign in a token is read as a conversion: \<open>%%\<close> becomes one percent sign, a second
  \<open>%d\<close> finds no argument. Any other conversion is an error here; the server's tokens have none.
\<close>

fun fmt_d :: "pystr option \<Rightarrow> bytes \<Rightarrow> bytes result" where
  "fmt_d arg [] = (if arg = None then Inr [] else Inl (TypeError ''not all arguments converted''))"
| "fmt_d arg (b # bs) =
     (if b \<noteq> 37 then bindE (fmt_d arg bs) (\<lambda>r. Inr (b # r))
      else (case bs of
              [] \<Rightarrow> Inl (ValueError ''incomplete format'')
            | c # cs \<Rightarrow>
                if c = 37 then bindE (fmt_d arg cs) (\<lambda>r. Inr (37 # r))
                else if c = 100 then
                  (case arg of
                     None \<Rightarrow> Inl (TypeError ''not enough arguments for format string'')
                   | Some d \<Rightarrow> bindE (fmt_d None cs) (\<lambda>r. Inr (ascii d @ r)))
                else Inl (ValueError ''unsupported format character'')))"

text \<open>\<open>f"{name}: {value}".encode() + CRLF\<close>\<close>

definition header_line :: "pystr \<times> pystr \<Rightarrow> pystr" where
  "header_line h = fst h @ u '': '' @ snd h"

definition header_block :: "headers \<Rightarrow> bytes result" where
  "header_block hs = concat_mapE (\<lambda>h. bindE (utf8_encode (header_line h)) (\<lambda>b. Inr (b @ CRLF))) hs"

text \<open>The \<open>while True\<close> loop: \<open>build n\<close> is the message with \<open>n\<close> in its length field.\<close>

partial_function (option) length_loop ::
  "(nat \<Rightarrow> bytes result) \<Rightarrow> nat \<Rightarrow> bytes result option" where
  "length_loop build total_length =
     (case build total_length of
        Inl e \<Rightarrow> Some (Inl e)
      | Inr candidate \<Rightarrow>
          if length candidate = total_length then Some (Inr candidate)
          else length_loop build (length candidate))"

definition stabilise :: "(nat \<Rightarrow> bytes result) \<Rightarrow> bytes result option" where
  "stabilise build =
     (case build 0 of Inl e \<Rightarrow> Some (Inl e) | Inr provisional \<Rightarrow> length_loop build (length provisional))"

text \<open>\<open>merged_headers.setdefault("Content-Length", str(len(body)))\<close> when there is a body.\<close>

definition merged_headers :: "headers \<Rightarrow> bytes \<Rightarrow> headers" where
  "merged_headers hs body =
     (if body = [] \<or> u ''Content-Length'' \<in> set (dkeys hs) then hs
      else dput (u ''Content-Length'') (dec (length body)) hs)"

definition serialize :: "pystr \<Rightarrow> pystr \<Rightarrow> headers \<Rightarrow> bytes \<Rightarrow> bytes result option" where
  "serialize third_token fourth_token hs body =
     (case bindE (header_block (merged_headers hs body)) (\<lambda>block.
           bindE (utf8_encode third_token) (\<lambda>third.
           bindE (utf8_encode fourth_token) (\<lambda>fourth. Inr (block, third, fourth)))) of
        Inl e \<Rightarrow> Some (Inl e)
      | Inr (block, third, fourth) \<Rightarrow>
          (let start_line_template = MRCP_VERSION @ [32, 37, 100, 32] @ third @ [32] @ fourth
           in stabilise (\<lambda>n. bindE (fmt_d (Some (dec n)) start_line_template) (\<lambda>start.
                Inr (start @ CRLF @ block @ CRLF @ body)))))"

definition serialize_response :: "mrcp_response \<Rightarrow> bytes result option" where
  "serialize_response resp =
     serialize (int_str (resp_status_code resp))
       (int_str (resp_request_id resp) @ u '' '' @ resp_request_state resp)
       (resp_headers resp) (resp_body resp)"

definition serialize_event :: "mrcp_event \<Rightarrow> bytes result option" where
  "serialize_event ev =
     serialize (ev_event_name ev)
       (int_str (ev_request_id ev) @ u '' '' @ ev_request_state ev)
       (ev_headers ev) (ev_body ev)"

text \<open>
  The simulator's \<open>_serialize_request\<close>. Its template already ends in CR LF, and another CR LF
  follows before the header block.
\<close>

definition serialize_request :: "pystr \<Rightarrow> int \<Rightarrow> headers \<Rightarrow> bytes \<Rightarrow> bytes result option" where
  "serialize_request meth request_id hs body =
     (case bindE (header_block hs) (\<lambda>block.
           bindE (utf8_encode meth) (\<lambda>m. Inr (block, m))) of
        Inl e \<Rightarrow> Some (Inl e)
      | Inr (block, m) \<Rightarrow>
          (let template = MRCP_VERSION @ [32, 37, 100, 32] @ m @ [32] @ ascii (int_str request_id) @ CRLF
           in stabilise (\<lambda>n. bindE (fmt_d (Some (dec n)) template) (\<lambda>start.
                Inr (start @ CRLF @ block @ CRLF @ body)))))"

section \<open>Parsing\<close>

text \<open>The header loop of \<open>_split_message\<close>: a line without a colon is malformed.\<close>

definition add_header :: "headers \<Rightarrow> pystr \<Rightarrow> headers result" where
  "add_header hs line =
     (if line = [] then Inr hs
      else (case py_partition 58 line of
              (name, found, val) \<Rightarrow>
                if \<not> found then Inl (MrcpParseError ''malformed header line'')
                else Inr (dput (strip name) (strip val) hs)))"

definition split_message :: "bytes \<Rightarrow> (pystr \<times> headers \<times> bytes) result" where
  "split_message raw =
     (case py_find (CRLF @ CRLF) raw of
        None \<Rightarrow> Inl (MrcpParseError ''missing header/body separator (CRLF CRLF)'')
      | Some head_end \<Rightarrow>
          bindE (utf8_decode (take head_end raw)) (\<lambda>head.
          (let body = drop (head_end + 4) raw; lines = py_split [13, 10] head
           in bindE (foldE add_header [] (tl lines)) (\<lambda>hs. Inr (hd lines, hs, body)))))"

definition parse_request :: "bytes \<Rightarrow> mrcp_request result" where
  "parse_request raw =
     bindE (split_message raw) (\<lambda>(start_line, hs, body).
       (case words_by is_space start_line of
          [version, len, meth, req_id] \<Rightarrow>
            if version \<noteq> u ''MRCP/2.0'' then Inl (MrcpParseError ''unsupported MRCP version'')
            else (case parse_int is_space req_id of
                    Inl e \<Rightarrow> Inl (if is_value_error e then MrcpParseError ''bad request-id'' else e)
                  | Inr request_id \<Rightarrow>
                      Inr \<lparr>req_method = meth, req_request_id = request_id, req_headers = hs,
                           req_body = body\<rparr>)
        | _ \<Rightarrow> Inl (MrcpParseError ''request start line needs 4 tokens'')))"

text \<open>The simulator's \<open>_parse_event_frame\<close>: no check for the colon.\<close>

definition add_event_header :: "headers \<Rightarrow> pystr \<Rightarrow> headers" where
  "add_event_header hs line =
     (if line = [] then hs
      else (case py_partition 58 line of (name, found, val) \<Rightarrow> dput (strip name) (strip val) hs))"

definition parse_event_frame :: "bytes \<Rightarrow> mrcp_event result" where
  "parse_event_frame raw =
     (case py_find (CRLF @ CRLF) raw of
        None \<Rightarrow> Inl (MrcpParseError ''event missing header/body separator'')
      | Some head_end \<Rightarrow>
          bindE (utf8_decode (take head_end raw)) (\<lambda>head.
          (let body = drop (head_end + 4) raw; lines = py_split [13, 10] head
           in case words_by is_space (hd lines) of
                [version, len, event_name, request_id, request_state] \<Rightarrow>
                  (let hs = foldl add_event_header [] (tl lines)
                   in bindE (parse_int is_space request_id) (\<lambda>i.
                      Inr \<lparr>ev_event_name = event_name, ev_request_id = i,
                           ev_request_state = request_state, ev_headers = hs, ev_body = body\<rparr>))
              | _ \<Rightarrow> Inl (MrcpParseError ''event start line expects 5 tokens''))))"

section \<open>NLSML\<close>

text \<open>\<open>text.replace("&", "&amp;").replace("<", "&lt;").replace(">", "&gt;")\<close>\<close>

definition nlsml_escape :: "pystr \<Rightarrow> pystr" where
  "nlsml_escape s =
     replace1 62 (u ''&gt;'') (replace1 60 (u ''&lt;'') (replace1 38 (u ''&amp;'') s))"

text \<open>\<open>f"{x:.2f}"\<close>: the exact value is rounded half to even at the second decimal.\<close>

definition fmt2 :: "pyfloat \<Rightarrow> pystr" where
  "fmt2 x =
     (let n = nat (round_half_even (\<bar>x\<bar> * 100))
      in (if x < 0 then [45] else []) @ dec (n div 100) @ [46, 48 + n mod 100 div 10, 48 + n mod 10])"

abbreviation dquote :: "string \<Rightarrow> pystr" where
  "dquote s \<equiv> [34] @ u s @ [34]"

definition nlsml_head :: "pyfloat \<Rightarrow> pystr" where
  "nlsml_head confidence =
     u ''<?xml version='' @ dquote ''1.0'' @ u ''?>'' @ [10] @
     u ''<result xmlns='' @ dquote ''urn:ietf:params:xml:ns:nlsml:1.0'' @
     u '' grammar='' @ dquote ''session:any'' @ u ''>'' @ [10] @
     u ''  <interpretation confidence='' @ [34] @ fmt2 confidence @ [34] @ u ''>'' @ [10] @
     u ''    <instance>''"

definition nlsml_tail :: pystr where
  "nlsml_tail = u ''</instance>'' @ [10] @ u ''  </interpretation>'' @ [10] @ u ''</result>'' @ [10]"

definition nlsml_transcript :: "pystr \<Rightarrow> pyfloat \<Rightarrow> bytes result" where
  "nlsml_transcript text confidence =
     utf8_encode (nlsml_head confidence @ nlsml_escape text @ nlsml_tail)"

section \<open>The length field\<close>

lemma length_dec_le: "0 < n \<Longrightarrow> length (dec n) \<le> n"
  using length_dec_less [of n] by (cases "9 < n") (auto simp: dec.simps [of n])

lemma length_dec_div: "length (dec n) \<le> n div 10 + 1"
  using length_dec_le [of "n div 10"] by (cases "n < 10") (simp_all add: dec.simps [of n])

text \<open>
  The loop climbs: each round replaces the total by one that is at least as large, and no total
  exceeds twice the size of the message without its length field.
\<close>

lemma length_loop_stops:
  assumes build: "\<And>n. build n = Inr (pre @ ascii (dec n) @ post)"
    and "m \<le> length pre + length post + length (dec m)"
    and "m \<le> 2 * (length pre + length post) + 2"
  shows "\<exists>n. length_loop build m = Some (Inr (pre @ ascii (dec n) @ post)) \<and>
           n = length pre + length post + length (dec n)"
  using assms(2,3)
proof (induction "2 * (length pre + length post) + 2 - m" arbitrary: m rule: less_induct)
  case less
  let ?b = "length pre + length post"
  let ?next = "?b + length (dec m)"
  have len: "length (pre @ ascii (dec n) @ post) = ?b + length (dec n)" for n by simp
  show ?case
  proof (cases "?next = m")
    case True
    then show ?thesis by (subst length_loop.simps) (auto simp: build len)
  next
    case False
    then have up: "m < ?next" using less.prems(1) by simp
    have "length (dec m) \<le> length (dec (2 * ?b + 2))"
      using less.prems(2) by (rule length_dec_mono)
    then have bound: "?next \<le> 2 * ?b + 2" using length_dec_div [of "2 * ?b + 2"] by simp
    have "?next \<le> ?b + length (dec ?next)" using up by (simp add: length_dec_mono)
    then have "\<exists>n. length_loop build ?next = Some (Inr (pre @ ascii (dec n) @ post)) \<and> n = ?b + length (dec n)"
      using up bound by (intro less.hyps) linarith+
    then show ?thesis using False by (subst length_loop.simps) (simp add: build len add_ac)
  qed
qed

lemma stabilise_stops:
  assumes "\<And>n. build n = Inr (pre @ ascii (dec n) @ post)"
  shows "\<exists>n. stabilise build = Some (Inr (pre @ ascii (dec n) @ post)) \<and>
           n = length (pre @ ascii (dec n) @ post)"
proof -
  have "length (dec 0) = 1" by (simp add: dec.simps)
  moreover have "1 \<le> length (dec n)" for n by (simp add: Suc_leI)
  ultimately show ?thesis
    using length_loop_stops [of build, OF assms, of "length pre + length post + 1"]
    by (simp add: stabilise_def assms add_ac)
qed

lemma fmt_d_plain: "37 \<notin> set pre \<Longrightarrow> fmt_d arg (pre @ bs) = bindE (fmt_d arg bs) (\<lambda>r. Inr (pre @ r))"
proof (induction pre)
  case Nil
  show ?case by (cases "fmt_d arg bs") simp_all
next
  case (Cons b pre)
  then show ?case by (cases "fmt_d arg bs") auto
qed

lemma fmt_d_no_percent: "37 \<notin> set bs \<Longrightarrow> fmt_d None bs = Inr bs"
  by (induction bs) auto

text \<open>A message whose length field is right.\<close>

definition framed :: "bytes \<Rightarrow> bytes \<Rightarrow> bool" where
  "framed msg rest \<longleftrightarrow> msg = MRCP_VERSION @ [32] @ ascii (dec (length msg)) @ rest"

lemma fmt_d_start:
  "fmt_d (Some d) (MRCP_VERSION @ 32 # 37 # 100 # 32 # rest) =
     bindE (fmt_d None rest) (\<lambda>r. Inr (MRCP_VERSION @ 32 # ascii d @ 32 # r))"
proof -
  have "37 \<notin> set (MRCP_VERSION @ [32])" by (simp add: MRCP_VERSION_def) code_simp
  from fmt_d_plain [OF this, of "Some d" "[37, 100, 32] @ rest"] show ?thesis
    by (cases "fmt_d None rest") simp_all
qed

lemma stabilise_template:
  fixes rest tail :: bytes
  defines "build n \<equiv> bindE (fmt_d (Some (dec n)) (MRCP_VERSION @ 32 # 37 # 100 # 32 # rest))
    (\<lambda>s. Inr (s @ tail))"
  shows "fmt_d None rest = Inl e \<Longrightarrow> stabilise build = Some (Inl e)"
    and "fmt_d None rest = Inr r \<Longrightarrow> \<exists>msg. stabilise build = Some (Inr msg) \<and> framed msg (32 # r @ tail)"
proof -
  assume "fmt_d None rest = Inl e"
  then show "stabilise build = Some (Inl e)" by (simp add: stabilise_def build_def fmt_d_start)
next
  assume "fmt_d None rest = Inr r"
  then have "build n = Inr ((MRCP_VERSION @ [32]) @ ascii (dec n) @ (32 # r @ tail))" for n
    by (simp add: build_def fmt_d_start)
  from stabilise_stops [of build, OF this]
  show "\<exists>msg. stabilise build = Some (Inr msg) \<and> framed msg (32 # r @ tail)"
    by (auto simp: framed_def)
qed

section \<open>The head of a message\<close>

text \<open>A line of a message head: encodable, not empty, without line-end characters.\<close>

definition text_line :: "pystr \<Rightarrow> bool" where
  "text_line w \<longleftrightarrow> w \<noteq> [] \<and> list_all (\<lambda>c. is_scalar c \<and> c \<noteq> 13 \<and> c \<noteq> 10) w"

lemma utf8_encode_total: "list_all is_scalar w \<Longrightarrow> \<exists>b. utf8_encode w = Inr b"
  unfolding utf8_encode_def
  by (rule concat_mapE_total) (auto simp: utf8_char_def list_all_iff)

lemma utf8_encode_low:
  assumes "utf8_encode w = Inr b" and "x \<in> set b" and "unat x < 128"
  shows "unat x \<in> set w"
  using concat_mapE_ex_set [OF assms(1) [unfolded utf8_encode_def], of x] assms(2,3)
    utf8_char_bytes by blast

lemma utf8_encode_Nil_iff: "utf8_encode w = Inr [] \<longleftrightarrow> w = []"
  using utf8_roundtrip [of w "[]"] by (auto simp: utf8_encode_def)

lemma text_line_bytes:
  assumes "text_line w" and "utf8_encode w = Inr b"
  shows "b \<noteq> [] \<and> 13 \<notin> set b \<and> 10 \<notin> set b"
  using assms utf8_encode_low [OF assms(2), of 13] utf8_encode_low [OF assms(2), of 10] utf8_encode_Nil_iff [of w]
  by (auto simp: text_line_def list_all_iff)

lemma py_find_skip:
  "x \<notin> set w \<Longrightarrow> py_find (x # sub) (w @ s) = map_option (\<lambda>i. length w + i) (py_find (x # sub) s)"
  by (cases "py_find (x # sub) s"; induction w) auto

lemma find_blank_line:
  fixes ws :: "bytes list"
  assumes "ws \<noteq> []" and "\<And>w. w \<in> set ws \<Longrightarrow> w \<noteq> [] \<and> 13 \<notin> set w"
  shows "py_find [13, 10, 13, 10] (py_join [13, 10] ws @ [13, 10, 13, 10] @ s) = Some (length (py_join [13, 10] ws))"
  using assms
proof (induction ws)
  case (Cons w ws)
  show ?case
  proof (cases "ws = []")
    case True
    then show ?thesis using Cons.prems(2) [of w] by (simp add: py_find_skip)
  next
    case False
    then obtain c w' ws' where ws: "ws = (c # w') # ws'"
      using Cons.prems(2) by (cases ws; cases "hd ws") auto
    then have "c \<noteq> 13" using Cons.prems(2) [of "c # w'"] by simp
    moreover obtain r where r: "py_join [13, 10] ws = c # r" by (cases ws') (simp_all add: ws)
    moreover have "py_find [13, 10, 13, 10] (py_join [13, 10] ws @ [13, 10, 13, 10] @ s) =
        Some (length (py_join [13, 10] ws))"
      using Cons.IH False Cons.prems(2) by simp
    ultimately show ?thesis
      using Cons.prems(2) [of w] False by (simp add: py_join_Cons py_find_skip)
  qed
qed simp

lemma encode_join:
  "list_all2 (\<lambda>w b. utf8_encode w = Inr b) ws bs \<Longrightarrow>
     utf8_encode (py_join [13, 10] ws) = Inr (py_join CRLF bs)"
proof (induction rule: list_all2_induct)
  case (Cons w ws b bs)
  have "utf8_encode [13, 10] = Inr CRLF"
    by (subst utf8_encode_ascii) (auto simp: CRLF_def byte_of_def)
  then have "utf8_encode ([13, 10] @ py_join [13, 10] ws) = Inr (CRLF @ py_join CRLF bs)"
    by (simp only: utf8_encode_append Cons.IH bindE_simps)
  moreover have "ws = [] \<longleftrightarrow> bs = []" using Cons.hyps(2) by auto
  ultimately show ?case
    using Cons.hyps(1) by (cases "ws = []") (simp_all add: py_join_Cons utf8_encode_append)
qed (simp add: utf8_encode_def)

lemma head_lines:
  assumes "list_all2 (\<lambda>w b. utf8_encode w = Inr b) ws bs" and "ws \<noteq> []" and "list_all text_line ws"
  defines "head \<equiv> py_join CRLF bs"
  shows "py_find (CRLF @ CRLF) (head @ CRLF @ CRLF @ body) = Some (length head)"
    and "utf8_decode head = Inr (py_join [13, 10] ws)"
    and "py_split [13, 10] (py_join [13, 10] ws) = ws"
proof -
  have bs: "bs \<noteq> []" using assms(1,2) by auto
  have "w \<noteq> [] \<and> 13 \<notin> set w" if "w \<in> set bs" for w
    using that assms(1,3) text_line_bytes unfolding list_all2_conv_all_nth list_all_length in_set_conv_nth
    by metis
  from find_blank_line [OF bs this]
  show "py_find (CRLF @ CRLF) (head @ CRLF @ CRLF @ body) = Some (length head)"
    by (simp add: head_def CRLF_def)
  show "utf8_decode head = Inr (py_join [13, 10] ws)"
    using utf8_roundtrip [OF encode_join [OF assms(1)]] by (simp add: head_def)
  have "\<not> sublist [13, 10] w" if "w \<in> set ws" for w
    using that assms(3) by (auto simp: text_line_def list_all_iff sublist_def)
  then show "py_split [13, 10] (py_join [13, 10] ws) = ws"
    using assms(2) by (intro py_split_join) auto
qed

section \<open>What survives the wire\<close>

text \<open>
  Tokens are encodable, not empty and free of white space and percent signs; a header name has
  no colon, and neither name nor value has line ends or white space at its ends.
\<close>

definition wire_token :: "pystr \<Rightarrow> bool" where
  "wire_token s \<longleftrightarrow> s \<noteq> [] \<and> list_all (\<lambda>c. is_scalar c \<and> \<not> is_space c \<and> c \<noteq> 37) s"

definition wire_header :: "pystr \<times> pystr \<Rightarrow> bool" where
  "wire_header h \<longleftrightarrow>
     list_all (\<lambda>c. is_scalar c \<and> c \<noteq> 13 \<and> c \<noteq> 10) (fst h @ snd h) \<and> 58 \<notin> set (fst h) \<and>
     strip (fst h) = fst h \<and> strip (snd h) = snd h"

definition wire_event :: "mrcp_event \<Rightarrow> bool" where
  "wire_event ev \<longleftrightarrow> wire_token (ev_event_name ev) \<and> wire_token (ev_request_state ev) \<and>
     wf_dict (ev_headers ev) \<and> list_all wire_header (ev_headers ev)"

lemma digit_facts: "is_digit c \<Longrightarrow> is_scalar c \<and> \<not> is_space c \<and> c \<noteq> 37 \<and> c \<noteq> 13 \<and> c \<noteq> 10 \<and> c < 128"
  by (auto simp: is_digit_def is_scalar_def is_space_def)

lemma wire_token_dec: "wire_token (dec n)"
  using dec_digits [of _ n] digit_facts unfolding wire_token_def list_all_iff by (metis dec_ne)

lemma wire_token_int_str: "wire_token (int_str i)"
  using wire_token_dec by (auto simp: int_str_def wire_token_def is_scalar_def is_space_def)

lemma digits_val_dec: "digits_val 0 False (dec n) = Some n"
  using digits_val_append [of "dec n" 0 False "[]"] dec_digits foldl_dec [of n] by simp

lemma parse_int_str: "parse_int is_space (int_str i) = Inr i"
proof -
  have "strip (int_str i) = int_str i"
    using wire_token_int_str [of i] by (intro strip_by_none) (auto simp: wire_token_def list_all_iff)
  moreover have "hd (dec n) \<noteq> 45 \<and> hd (dec n) \<noteq> 43" for n
    using dec_digits [of "hd (dec n)" n] by (auto simp: is_digit_def)
  ultimately show ?thesis by (simp add: parse_int_def int_str_def digits_val_dec)
qed

text \<open>Words of a line whose tokens are separated by single blanks.\<close>

lemma space_chars: "is_space 32" "is_space 13" "is_space 10"
  by (simp_all add: is_space_def)

lemma words_tokens:
  "wire_token w \<Longrightarrow> words_by is_space (w @ 32 # s) = w # words_by is_space s"
  "wire_token w \<Longrightarrow> words_by is_space w = [w]"
  using words_by_token(1) [of w is_space 32 s] words_by_token(2) [of w is_space 32]
  by (auto simp: wire_token_def list_all_iff space_chars)

lemma wire_token_version: "wire_token (u ''MRCP/2.0'')"
  by (simp add: wire_token_def is_scalar_def is_space_def)

lemma encode_version: "utf8_encode (u ''MRCP/2.0'') = Inr MRCP_VERSION"
  unfolding MRCP_VERSION_def by (rule utf8_encode_ascii) auto

lemma wire_token_bytes:
  assumes "wire_token w"
  obtains b where "utf8_encode w = Inr b" and "37 \<notin> set b"
proof -
  have "list_all is_scalar w" using assms by (simp add: wire_token_def list_all_iff)
  then obtain b where b: "utf8_encode w = Inr b" using utf8_encode_total by blast
  have "37 \<notin> set b"
    using utf8_encode_low [OF b, of 37] assms by (auto simp: wire_token_def list_all_iff)
  with b show thesis by (rule that)
qed

lemma wire_token_text: "wire_token w \<Longrightarrow> list_all (\<lambda>c. is_scalar c \<and> c \<noteq> 13 \<and> c \<noteq> 10) w"
  unfolding wire_token_def list_all_iff using space_chars by metis

lemma header_line_text: "wire_header h \<Longrightarrow> text_line (header_line h)"
  by (auto simp: wire_header_def text_line_def header_line_def is_scalar_def)

lemma add_event_header_line:
  assumes "wire_header h"
  shows "add_event_header hs (header_line h) = dput (fst h) (snd h) hs"
    and "add_header hs (header_line h) = Inr (dput (fst h) (snd h) hs)"
proof -
  have "py_partition 58 (header_line h) = (fst h, True, 32 # snd h)"
    using assms py_partition_found [of 58 "fst h" "32 # snd h"] by (simp add: wire_header_def header_line_def)
  moreover have "strip (32 # snd h) = snd h"
    using assms by (simp add: wire_header_def strip_by_Cons is_space_def)
  moreover have "header_line h \<noteq> []" by (simp add: header_line_def)
  ultimately show "add_event_header hs (header_line h) = dput (fst h) (snd h) hs"
    and "add_header hs (header_line h) = Inr (dput (fst h) (snd h) hs)"
    using assms by (simp_all add: add_event_header_def add_header_def wire_header_def)
qed

lemma fold_event_headers:
  "list_all wire_header hs \<Longrightarrow> distinct (dkeys (acc @ hs)) \<Longrightarrow>
     foldl add_event_header acc (map header_line hs) = acc @ hs"
proof (induction hs arbitrary: acc)
  case (Cons h hs)
  then have "dput (fst h) (snd h) acc = acc @ [h]" by (cases h) (simp add: dput_new)
  then show ?case using Cons by (simp add: add_event_header_line)
qed simp

lemma wire_merged_headers:
  assumes "wf_dict hs" and "list_all wire_header hs"
  shows "wf_dict (merged_headers hs body)" and "list_all wire_header (merged_headers hs body)"
proof -
  show "wf_dict (merged_headers hs body)" using assms(1) by (simp add: merged_headers_def)
  have "wire_header (u ''Content-Length'', dec n)" for n
  proof -
    have "list_all (\<lambda>c. is_scalar c \<and> c \<noteq> 13 \<and> c \<noteq> 10) (u ''Content-Length'') \<and>
        58 \<notin> set (u ''Content-Length'') \<and> strip (u ''Content-Length'') = u ''Content-Length''"
      by (simp add: is_scalar_def is_space_def strip_by_def)
    moreover have "strip (dec n) = dec n"
      using dec_digits digit_facts by (intro strip_by_none) blast
    ultimately show ?thesis
      using wire_token_text [OF wire_token_dec [of n]] by (simp add: wire_header_def)
  qed
  then show "list_all wire_header (merged_headers hs body)"
    using assms(2) by (simp add: merged_headers_def dput_new)
qed

section \<open>Serialised messages\<close>

definition start_line :: "nat \<Rightarrow> pystr \<Rightarrow> pystr" where
  "start_line n rest = u ''MRCP/2.0'' @ 32 # dec n @ 32 # rest"

lemma utf8_encode_low_Cons: "c < 128 \<Longrightarrow> utf8_encode (c # s) = bindE (utf8_encode s) (\<lambda>b. Inr (byte_of c # b))"
  by (simp add: utf8_encode_def utf8_char_def is_scalar_def)

lemma utf8_encode_dec: "utf8_encode (dec n) = Inr (ascii (dec n))"
  using dec_digits digit_facts by (intro utf8_encode_ascii) blast

lemma encode_start_line:
  assumes "utf8_encode rest = Inr b"
  shows "utf8_encode (start_line n rest) = Inr (MRCP_VERSION @ 32 # ascii (dec n) @ 32 # b)"
  unfolding start_line_def
  by (simp add: utf8_encode_append utf8_encode_low_Cons utf8_encode_dec encode_version assms byte_of_def MRCP_VERSION_def)

lemma header_block_lines:
  "list_all2 (\<lambda>w b. utf8_encode w = Inr b) (map header_line hs) bs \<Longrightarrow>
     header_block hs = Inr (concat (map (\<lambda>b. b @ CRLF) bs))"
  by (induction hs arbitrary: bs) (auto simp: header_block_def list_all2_Cons1)

lemma join_block:
  "b @ CRLF @ concat (map (\<lambda>x. x @ CRLF) bs) @ tail = py_join CRLF (b # bs) @ CRLF @ tail"
  by (induction bs arbitrary: b) simp_all

lemma encode_lines:
  assumes "list_all text_line ws"
  obtains bs where "list_all2 (\<lambda>w b. utf8_encode w = Inr b) ws bs"
proof -
  have "\<exists>b. utf8_encode w = Inr b" if "w \<in> set ws" for w
    using that assms utf8_encode_total [of w] by (auto simp: text_line_def list_all_iff)
  then have "\<exists>bs. list_all2 (\<lambda>w b. utf8_encode w = Inr b) ws bs"
    by (induction ws) (auto simp: list_all2_Cons1)
  then show thesis using that by blast
qed

lemma serialize_wire:
  assumes "utf8_encode third = Inr bt" "37 \<notin> set bt" "utf8_encode fourth = Inr bf" "37 \<notin> set bf"
    and hs: "list_all wire_header (merged_headers hs body)"
  shows "\<exists>msg bs. serialize third fourth hs body = Some (Inr msg) \<and>
    list_all2 (\<lambda>w b. utf8_encode w = Inr b)
      (start_line (length msg) (third @ 32 # fourth) # map header_line (merged_headers hs body)) bs \<and>
    msg = py_join CRLF bs @ CRLF @ CRLF @ body"
proof -
  have "list_all text_line (map header_line (merged_headers hs body))"
    using hs header_line_text by (auto simp: list_all_iff)
  then obtain bs where bs: "list_all2 (\<lambda>w b. utf8_encode w = Inr b) (map header_line (merged_headers hs body)) bs"
    by (rule encode_lines)
  let ?block = "concat (map (\<lambda>b. b @ CRLF) bs)"
  let ?rest = "bt @ 32 # bf"
  have "fmt_d None ?rest = Inr ?rest" using assms by (intro fmt_d_no_percent) auto
  then obtain msg where msg: "serialize third fourth hs body = Some (Inr msg)"
    "framed msg (32 # ?rest @ CRLF @ ?block @ CRLF @ body)"
    using stabilise_template(2) [of ?rest ?rest "CRLF @ ?block @ CRLF @ body"] assms header_block_lines [OF bs]
    by (auto simp: serialize_def)
  let ?start = "MRCP_VERSION @ 32 # ascii (dec (length msg)) @ 32 # ?rest"
  have "utf8_encode (third @ 32 # fourth) = Inr ?rest"
    using assms by (simp add: utf8_encode_append utf8_encode_low_Cons byte_of_def)
  then have "utf8_encode (start_line (length msg) (third @ 32 # fourth)) = Inr ?start"
    by (rule encode_start_line)
  moreover have "msg = py_join CRLF (?start # bs) @ CRLF @ CRLF @ body"
    using msg(2) join_block [of ?start bs "CRLF @ body"] by (simp add: framed_def)
  ultimately show ?thesis using msg(1) bs by (intro exI [of _ msg] exI [of _ "?start # bs"]) simp
qed

text \<open>
  A message as the readers of the control channel see it: the first line, which carries the
  length of the whole, and the rest.
\<close>

definition first_line :: "bytes \<Rightarrow> bytes \<Rightarrow> bytes \<Rightarrow> bool" where
  "first_line msg line tail \<longleftrightarrow>
     (\<exists>brest. line = MRCP_VERSION @ 32 # ascii (dec (length msg)) @ 32 # brest \<and> 13 \<notin> set brest \<and>
        msg = line @ CRLF @ tail)"

lemma first_lineI:
  assumes "utf8_encode (start_line (length msg) rest) = Inr line" and "text_line rest"
    and "msg = line @ CRLF @ tail"
  shows "first_line msg line tail"
proof -
  obtain brest where "utf8_encode rest = Inr brest"
    using assms(2) utf8_encode_total [of rest] by (auto simp: text_line_def list_all_iff)
  then show ?thesis
    using assms text_line_bytes [OF assms(2)] encode_start_line [of rest brest "length msg"]
    by (auto simp: first_line_def)
qed

lemma utf8_encode_length: "utf8_encode w = Inr b \<Longrightarrow> length b \<le> 4 * length w"
proof (induction w arbitrary: b)
  case (Cons c w)
  then obtain x y where "utf8_char c = Inr x" "utf8_encode w = Inr y" "b = x @ y"
    by (auto simp: utf8_encode_def result_simps)
  moreover have "utf8_char c = Inr x \<Longrightarrow> length x \<le> 4" by (auto simp: utf8_char_def split: if_splits)
  ultimately show ?case using Cons.IH [of y] by simp
qed (simp add: utf8_encode_def)

lemma lines_length:
  "list_all2 (\<lambda>w b. utf8_encode w = Inr b) ws bs \<Longrightarrow>
     length (concat (map (\<lambda>x. x @ CRLF) bs)) \<le> sum_list (map (\<lambda>w. 4 * length w + 2) ws)"
  by (induction rule: list_all2_induct) (auto simp: CRLF_def dest: utf8_encode_length)

lemma length_dec_power: "n < 10 ^ k \<Longrightarrow> 0 < k \<Longrightarrow> length (dec n) \<le> k"
proof (induction k arbitrary: n)
  case (Suc k)
  show ?case
  proof (cases "n < 10")
    case True
    then show ?thesis by (simp add: dec.simps [of n])
  next
    case False
    then have "0 < k" using Suc.prems(1) by (cases k) auto
    moreover have "n div 10 < 10 ^ k" using Suc.prems(1) by (simp add: less_mult_imp_div_less mult.commute)
    ultimately show ?thesis using Suc.IH [of "n div 10"] False by (simp add: dec.simps [of n])
  qed
qed simp

text \<open>
  \<open>fits msg\<close>: the first line is short enough for a stream reader whose limit is 64 KiB.
\<close>

definition fits :: "bytes \<Rightarrow> bool" where
  "fits msg \<longleftrightarrow> (\<exists>line tail. first_line msg line tail \<and> length line \<le> 65536)"

lemma first_line_fits:
  assumes "first_line msg line tail" and "length line \<le> 10 + length (dec (length msg)) + m"
    and "m + length tail < 10 ^ 18" and "m \<le> 65000"
  shows "fits msg"
proof -
  let ?d = "length (dec (length msg))"
  have "msg = line @ CRLF @ tail" using assms(1) by (auto simp only: first_line_def)
  from arg_cong [OF this, of length] have "length msg = length line + 2 + length tail"
    by (simp add: CRLF_def)
  then have "length msg \<le> 12 + ?d + m + length tail" using assms(2) by simp
  then have "length msg < 10 ^ 19" using length_dec_div [of "length msg"] assms(3) by simp
  then have "?d \<le> 19" by (rule length_dec_power) simp
  then have "length line \<le> 65536" using assms(2,4) by simp
  then show ?thesis using assms(1) unfolding fits_def by blast
qed

lemma joined_fits:
  assumes "list_all2 (\<lambda>w b. utf8_encode w = Inr b) (start_line (length msg) rest # ws) bs"
    and "msg = py_join CRLF bs @ CRLF @ CRLF @ body" and "text_line rest" and "4 * length rest \<le> 65000"
    and "sum_list (map (\<lambda>w. 4 * length w + 2) ws) + length body < 10 ^ 17"
  shows "fits msg"
proof -
  obtain b0 bs' where bs: "bs = b0 # bs'" and b0: "utf8_encode (start_line (length msg) rest) = Inr b0"
    and ws: "list_all2 (\<lambda>w b. utf8_encode w = Inr b) ws bs'"
    using assms(1) by (cases bs) auto
  obtain brest where brest: "utf8_encode rest = Inr brest"
    using assms(3) utf8_encode_total [of rest] by (auto simp: text_line_def list_all_iff)
  let ?tail = "concat (map (\<lambda>x. x @ CRLF) bs') @ CRLF @ body"
  have "msg = b0 @ CRLF @ ?tail" using assms(2) bs join_block [of b0 bs' "CRLF @ body"] by simp
  with b0 assms(3) have line: "first_line msg b0 ?tail" by (rule first_lineI)
  have "b0 = MRCP_VERSION @ 32 # ascii (dec (length msg)) @ 32 # brest"
    using b0 unfolding encode_start_line [OF brest] by (simp only: sum.inject)
  from arg_cong [OF this, of length]
  have "length b0 \<le> 10 + length (dec (length msg)) + 4 * length rest"
    using utf8_encode_length [OF brest] by (simp add: MRCP_VERSION_def)
  then show ?thesis
  proof (rule first_line_fits [OF line])
    have "(65002::nat) + 10 ^ 17 \<le> 10 ^ 18" by simp
    then show "4 * length rest + length ?tail < 10 ^ 18"
      using assms(4,5) lines_length [OF ws] by (simp add: CRLF_def)
  qed (rule assms(4))
qed

lemma text_start_line:
  assumes "wire_token a" "wire_token b" "wire_token c"
  shows "text_line (start_line n (a @ 32 # b @ 32 # c))"
  using assms [THEN wire_token_text] wire_token_text [OF wire_token_dec [of n]]
  by (simp add: start_line_def text_line_def is_scalar_def)

lemma words_start_line:
  assumes "wire_token a" "wire_token b" "wire_token c"
  shows "words_by is_space (start_line n (a @ 32 # b @ 32 # c)) = [u ''MRCP/2.0'', dec n, a, b, c]"
  unfolding start_line_def
  by (simp only: words_tokens [OF wire_token_version] words_tokens [OF wire_token_dec]
      words_tokens [OF assms(1)] words_tokens [OF assms(2)] words_tokens [OF assms(3)])

text \<open>An event that is short enough for the readers of both ends, by a wide margin.\<close>

definition event_small :: "mrcp_event \<Rightarrow> bool" where
  "event_small ev \<longleftrightarrow>
     4 * length (ev_event_name ev @ 32 # int_str (ev_request_id ev) @ 32 # ev_request_state ev) \<le> 65000 \<and>
     sum_list (map (\<lambda>w. 4 * length w + 2) (map header_line (merged_headers (ev_headers ev) (ev_body ev)))) +
       length (ev_body ev) < 10 ^ 17"

lemma event_survives:
  assumes "wire_event ev"
  shows "\<exists>msg. serialize_event ev = Some (Inr msg) \<and>
    parse_event_frame msg = Inr (ev\<lparr>ev_headers := merged_headers (ev_headers ev) (ev_body ev)\<rparr>) \<and>
    (event_small ev \<longrightarrow> fits msg)"
proof -
  let ?hs = "merged_headers (ev_headers ev) (ev_body ev)"
  let ?id = "int_str (ev_request_id ev)"
  note tok = wire_token_int_str [of "ev_request_id ev"]
  have ev: "wire_token (ev_event_name ev)" "wire_token (ev_request_state ev)"
    using assms by (simp_all add: wire_event_def)
  have hs: "wf_dict ?hs" "list_all wire_header ?hs"
    using assms wire_merged_headers by (simp_all add: wire_event_def)
  obtain bn where bn: "utf8_encode (ev_event_name ev) = Inr bn" "37 \<notin> set bn"
    using ev(1) by (rule wire_token_bytes)
  obtain bi where bi: "utf8_encode ?id = Inr bi" "37 \<notin> set bi" using tok by (rule wire_token_bytes)
  obtain bst where bst: "utf8_encode (ev_request_state ev) = Inr bst" "37 \<notin> set bst"
    using ev(2) by (rule wire_token_bytes)
  have enc4: "utf8_encode (?id @ 32 # ev_request_state ev) = Inr (bi @ 32 # bst)" "37 \<notin> set (bi @ 32 # bst)"
    using bi(2) bst(2) by (simp_all add: utf8_encode_append utf8_encode_low_Cons bi(1) bst(1) byte_of_def)
  have ser: "serialize_event ev =
      serialize (ev_event_name ev) (?id @ 32 # ev_request_state ev) (ev_headers ev) (ev_body ev)"
    by (simp add: serialize_event_def)
  obtain msg bs where msg: "serialize_event ev = Some (Inr msg)"
    and bs: "list_all2 (\<lambda>w b. utf8_encode w = Inr b)
      (start_line (length msg) (ev_event_name ev @ 32 # ?id @ 32 # ev_request_state ev) # map header_line ?hs) bs"
    and eq: "msg = py_join CRLF bs @ CRLF @ CRLF @ ev_body ev"
    using serialize_wire [OF bn enc4 hs(2)] unfolding ser by blast
  have lines: "list_all text_line (start_line (length msg) (ev_event_name ev @ 32 # ?id @ 32 # ev_request_state ev)
      # map header_line ?hs)"
    using text_start_line [OF ev(1) tok ev(2)] hs(2) header_line_text by (auto simp: list_all_iff)
  have "parse_event_frame msg = Inr (ev\<lparr>ev_headers := ?hs\<rparr>)"
    using head_lines(1) [OF bs _ lines, of "ev_body ev"] head_lines(2,3) [OF bs _ lines] eq words_start_line [OF ev(1) tok ev(2)]
      fold_event_headers [OF hs(2), of "[]"] hs(1) parse_int_str [of "ev_request_id ev"]
    by (simp add: parse_event_frame_def CRLF_def wf_dict_def)
  moreover have "fits msg"
    if "4 * length (ev_event_name ev @ 32 # ?id @ 32 # ev_request_state ev) \<le> 65000"
    and "sum_list (map (\<lambda>w. 4 * length w + 2) (map header_line ?hs)) + length (ev_body ev) < 10 ^ 17"
    using wire_token_text [OF ev(1)] wire_token_text [OF tok] wire_token_text [OF ev(2)]
    by (intro joined_fits [OF bs eq _ that]) (simp add: text_line_def is_scalar_def)
  ultimately show ?thesis using msg unfolding event_small_def by blast
qed

section \<open>The simulator's requests\<close>

lemma encode_int_str: "utf8_encode (int_str i) = Inr (ascii (int_str i))"
  using dec_digits digit_facts by (intro utf8_encode_ascii) (auto simp: int_str_def split: if_splits)

lemma request_frame:
  assumes "wire_token meth" and "header_block hs = Inr block"
  shows "\<exists>msg start. serialize_request meth rid hs body = Some (Inr msg) \<and>
    utf8_encode (start_line (length msg) (meth @ 32 # int_str rid)) = Inr start \<and>
    msg = start @ CRLF @ CRLF @ block @ CRLF @ body"
proof -
  obtain bm where bm: "utf8_encode meth = Inr bm" "37 \<notin> set bm" using assms(1) by (rule wire_token_bytes)
  have id: "37 \<notin> set (ascii (int_str rid))"
    using wire_token_bytes [OF wire_token_int_str [of rid]] encode_int_str [of rid] by (metis sum.inject(2))
  let ?rest = "bm @ 32 # ascii (int_str rid)"
  have "fmt_d None (?rest @ CRLF) = Inr (?rest @ CRLF)"
    using bm(2) id by (intro fmt_d_no_percent) (simp add: CRLF_def)
  then obtain msg where msg: "serialize_request meth rid hs body = Some (Inr msg)"
    "framed msg (32 # (?rest @ CRLF) @ CRLF @ block @ CRLF @ body)"
    using stabilise_template(2) [of "?rest @ CRLF" "?rest @ CRLF" "CRLF @ block @ CRLF @ body"] assms bm
    by (auto simp: serialize_request_def)
  have "utf8_encode (meth @ 32 # int_str rid) = Inr ?rest"
    by (simp add: utf8_encode_append utf8_encode_low_Cons bm encode_int_str byte_of_def)
  from encode_start_line [OF this] msg show ?thesis by (simp add: framed_def)
qed

lemma request_loses_headers:
  assumes "wire_token meth" and "header_block hs = Inr block"
  shows "\<exists>msg. serialize_request meth rid hs body = Some (Inr msg) \<and>
    parse_request msg = Inr \<lparr>req_method = meth, req_request_id = rid, req_headers = [],
      req_body = block @ CRLF @ body\<rparr> \<and>
    (4 * length (meth @ 32 # int_str rid) \<le> 65000 \<longrightarrow> length block + length body < 10 ^ 16 \<longrightarrow> fits msg)"
proof -
  obtain msg start where msg: "serialize_request meth rid hs body = Some (Inr msg)"
    and start: "utf8_encode (start_line (length msg) (meth @ 32 # int_str rid)) = Inr start"
    and eq: "msg = start @ CRLF @ CRLF @ block @ CRLF @ body"
    using request_frame [OF assms] by blast
  let ?line = "start_line (length msg) (meth @ 32 # int_str rid)"
  have "text_line ?line"
    using wire_token_text [OF assms(1)] wire_token_text [OF wire_token_int_str [of rid]]
      wire_token_text [OF wire_token_dec [of "length msg"]]
    by (simp add: start_line_def text_line_def is_scalar_def)
  then have lines: "list_all text_line [?line]" by simp
  have enc: "list_all2 (\<lambda>w b. utf8_encode w = Inr b) [?line] [start]" using start by simp
  note head = head_lines(1) [OF enc _ lines, of "block @ CRLF @ body"] head_lines(2,3) [OF enc _ lines]
  have "words_by is_space ?line = [u ''MRCP/2.0'', dec (length msg), meth, int_str rid]"
    unfolding start_line_def by (simp only: words_tokens [OF wire_token_version] words_tokens [OF wire_token_dec]
        words_tokens [OF assms(1)] words_tokens [OF wire_token_int_str])
  then have "parse_request msg = Inr \<lparr>req_method = meth, req_request_id = rid, req_headers = [],
      req_body = block @ CRLF @ body\<rparr>"
    using head eq parse_int_str [of rid]
    by (simp add: parse_request_def split_message_def CRLF_def)
  moreover have "fits msg" if "4 * length (meth @ 32 # int_str rid) \<le> 65000" "length block + length body < 10 ^ 16"
  proof (rule joined_fits [OF enc _ _ that(1), where body = "block @ CRLF @ body"])
    show "text_line (meth @ 32 # int_str rid)"
      using wire_token_text [OF assms(1)] wire_token_text [OF wire_token_int_str [of rid]]
      by (simp add: text_line_def is_scalar_def)
  qed (use eq that(2) in \<open>simp_all add: CRLF_def\<close>)
  ultimately show ?thesis using msg by blast
qed

section \<open>Reading NLSML\<close>

text \<open>
  What a reader of the result document sees as the instance: the characters between the
  \<open>instance\<close> tags, with the three character entities resolved.
\<close>

function xml_unescape :: "pystr \<Rightarrow> pystr" where
  "xml_unescape s =
     (if s = [] then []
      else if take 5 s = u ''&amp;'' then 38 # xml_unescape (drop 5 s)
      else if take 4 s = u ''&lt;'' then 60 # xml_unescape (drop 4 s)
      else if take 4 s = u ''&gt;'' then 62 # xml_unescape (drop 4 s)
      else hd s # xml_unescape (tl s))"
  by pat_completeness auto
termination
  by (relation "measure length") auto

declare xml_unescape.simps [simp del]

definition xml_text :: "pystr \<Rightarrow> pystr \<Rightarrow> pystr \<Rightarrow> pystr option" where
  "xml_text opening closing xml =
     Option.bind (py_find opening xml) (\<lambda>i.
     (let rest = drop (i + length opening) xml
      in map_option (\<lambda>j. xml_unescape (take j rest)) (py_find closing rest)))"

definition xml_element :: "string \<Rightarrow> pystr \<Rightarrow> pystr option" where
  "xml_element tag = xml_text (u (''<'' @ tag @ ''>'')) (u (''</'' @ tag @ ''>''))"

lemma nlsml_escape_Cons:
  "nlsml_escape (c # s) =
     (if c = 38 then u ''&amp;'' else if c = 60 then u ''&lt;'' else if c = 62 then u ''&gt;'' else [c]) @
     nlsml_escape s"
  by (simp add: nlsml_escape_def)

lemma nlsml_escape_Nil: "nlsml_escape [] = []"
  by (simp add: nlsml_escape_def)

lemma unescape_escape: "xml_unescape (nlsml_escape s) = s"
proof (induction s)
  case Nil
  show ?case by (simp add: nlsml_escape_Nil xml_unescape.simps)
next
  case (Cons c s)
  then show ?case
    by (subst xml_unescape.simps) (simp add: nlsml_escape_Cons)
qed

lemma escape_no_markup: "60 \<notin> set (nlsml_escape s)"
  by (induction s) (auto simp: nlsml_escape_Cons nlsml_escape_Nil)

lemma escape_scalar: "list_all is_scalar s \<Longrightarrow> list_all is_scalar (nlsml_escape s)"
  by (induction s) (auto simp: nlsml_escape_Cons nlsml_escape_Nil is_scalar_def)

lemma fmt2_chars: "c \<in> set (fmt2 x) \<Longrightarrow> c < 60"
  using dec_digits by (fastforce simp: fmt2_def Let_def is_digit_def split: if_splits)

lemma xml_text_found:
  assumes "py_find opening xml = Some i" and "drop (i + length opening) xml = s @ (60 # closing) @ t"
    and "60 \<notin> set s"
  shows "xml_text opening (60 # closing) xml = Some (xml_unescape s)"
  using assms py_find_skip [of 60 s closing "(60 # closing) @ t"] py_find_append [of "[]" "60 # closing" t]
  by (simp add: xml_text_def)

lemma nlsml_reads_back:
  assumes "list_all is_scalar text"
  shows "\<exists>body. nlsml_transcript text confidence = Inr body \<and>
    bindE (utf8_decode body) (\<lambda>xml. Inr (xml_element ''instance'' xml)) = Inr (Some text)"
proof -
  let ?xml = "nlsml_head confidence @ nlsml_escape text @ nlsml_tail"
  have "list_all is_scalar (fmt2 confidence)"
    using fmt2_chars [of _ confidence] by (fastforce simp: list_all_iff is_scalar_def)
  then have "list_all is_scalar ?xml"
    using escape_scalar [OF assms] by (simp add: nlsml_head_def nlsml_tail_def is_scalar_def)
  then obtain body where body: "utf8_encode ?xml = Inr body" using utf8_encode_total by blast
  have "60 \<notin> set (fmt2 confidence)" using fmt2_chars by blast
  note skip = py_find_skip [OF this]
  let ?p = "take (length (nlsml_head confidence) - 10) (nlsml_head confidence)"
  have find: "py_find (u ''<instance>'') ?xml = Some (length ?p)"
    by (simp add: nlsml_head_def skip)
  have "length ?p + length (u ''<instance>'') = length (nlsml_head confidence)" by (simp add: nlsml_head_def)
  then have "drop (length ?p + length (u ''<instance>'')) ?xml = nlsml_escape text @ nlsml_tail"
    by (simp only: append_eq_conv_conj [THEN iffD1] drop_append) simp
  also have "\<dots> = nlsml_escape text @ (60 # u ''/instance>'') @ drop 11 nlsml_tail"
    by (simp add: nlsml_tail_def)
  finally have "xml_text (u ''<instance>'') (60 # u ''/instance>'') ?xml = Some text"
    using xml_text_found [OF find] escape_no_markup unescape_escape by metis
  then have "xml_element ''instance'' ?xml = Some text" by (simp add: xml_element_def)
  then show ?thesis using body utf8_roundtrip [OF body] by (simp add: nlsml_transcript_def)
qed

lemma header_block_total:
  assumes "list_all wire_header hs"
  obtains block where "header_block hs = Inr block"
    and "length block \<le> sum_list (map (\<lambda>w. 4 * length w + 2) (map header_line hs))"
proof -
  have "list_all text_line (map header_line hs)" using assms header_line_text by (auto simp: list_all_iff)
  then obtain bs where "list_all2 (\<lambda>w b. utf8_encode w = Inr b) (map header_line hs) bs" by (rule encode_lines)
  with header_block_lines lines_length show thesis using that by blast
qed

section \<open>Properties\<close>

text \<open>
  C9. The serialiser of responses and events always returns: the loop that settles the
  self-referential length field ends for every input, and the message it returns announces in
  its second token exactly the number of bytes it has, followed by the header block and the
  body as given.
\<close>

theorem serialize_terminates:
  "(\<exists>e. serialize third fourth hs body = Some (Inl e)) \<or>
   (\<exists>msg start block. serialize third fourth hs body = Some (Inr msg) \<and>
      msg = MRCP_VERSION @ [32] @ ascii (dec (length msg)) @ [32] @ start @ CRLF @ block @ CRLF @ body \<and>
      header_block (merged_headers hs body) = Inr block)"
proof (cases "bindE (header_block (merged_headers hs body)) (\<lambda>block.
    bindE (utf8_encode third) (\<lambda>t. bindE (utf8_encode fourth) (\<lambda>f. Inr (block, t, f))))")
  case (Inl e)
  then show ?thesis by (simp add: serialize_def)
next
  case (Inr p)
  then obtain block t f where p: "p = (block, t, f)" and block: "header_block (merged_headers hs body) = Inr block"
    by (auto simp: result_simps)
  show ?thesis
  proof (cases "fmt_d None (t @ 32 # f)")
    case (Inl e)
    then show ?thesis
      using \<open>_ = Inr p\<close> p stabilise_template(1) [of "t @ 32 # f" e "CRLF @ block @ CRLF @ body"]
      by (simp add: serialize_def Let_def)
  next
    case r: (Inr r)
    then obtain msg where "serialize third fourth hs body = Some (Inr msg)"
      "framed msg (32 # r @ CRLF @ block @ CRLF @ body)"
      using \<open>_ = Inr p\<close> p stabilise_template(2) [of "t @ 32 # f" r "CRLF @ block @ CRLF @ body"]
      by (auto simp: serialize_def Let_def)
    then show ?thesis using block by (auto simp: framed_def)
  qed
qed

text \<open>
  C8. An event survives the wire: for tokens without white space or percent signs and headers
  without line ends, the serialiser returns a message, and the simulator parses it back to the
  same name, request, state and body, with the same headers in the same order, followed by the
  length of the body where it has one and no header gives it.
\<close>

theorem event_roundtrip:
  assumes "wire_event ev"
  shows "\<exists>msg. serialize_event ev = Some (Inr msg) \<and>
    parse_event_frame msg = Inr (ev\<lparr>ev_headers := ev_headers ev @
      (if ev_body ev = [] \<or> u ''Content-Length'' \<in> set (dkeys (ev_headers ev)) then []
       else [(u ''Content-Length'', dec (length (ev_body ev)))])\<rparr>)"
proof -
  have "merged_headers (ev_headers ev) (ev_body ev) = ev_headers ev @
      (if ev_body ev = [] \<or> u ''Content-Length'' \<in> set (dkeys (ev_headers ev)) then []
       else [(u ''Content-Length'', dec (length (ev_body ev)))])"
    by (simp add: merged_headers_def dput_new)
  with event_survives [OF assms] show ?thesis by metis
qed

theorem event_roundtrip_witness:
  "\<exists>msg. serialize_event \<lparr>ev_event_name = u ''DONE'', ev_request_id = 7, ev_request_state = u ''COMPLETE'',
       ev_headers = [(u ''Content-Type'', u ''text/plain'')], ev_body = [104, 105]\<rparr> = Some (Inr msg) \<and>
     parse_event_frame msg = Inr \<lparr>ev_event_name = u ''DONE'', ev_request_id = 7,
       ev_request_state = u ''COMPLETE'',
       ev_headers = [(u ''Content-Type'', u ''text/plain''), (u ''Content-Length'', u ''2'')],
       ev_body = [104, 105]\<rparr>"
proof -
  let ?ev = "\<lparr>ev_event_name = u ''DONE'', ev_request_id = 7, ev_request_state = u ''COMPLETE'',
       ev_headers = [(u ''Content-Type'', u ''text/plain'')], ev_body = [104, 105]\<rparr>"
  have "wire_event ?ev"
    by (simp add: wire_event_def wire_token_def wire_header_def is_scalar_def is_space_def strip_by_def wf_dict_def)
  from event_roundtrip [OF this] show ?thesis by (simp add: dec.simps)
qed

text \<open>
  The simulator's requests lose their headers: an extra line end after the start line makes
  every header part of the body, so whatever headers a request is built with, the server reads
  none, and a body that starts with the header block.
\<close>

theorem client_request_loses_headers:
  assumes "wire_token meth" and "header_block hs = Inr block"
  shows "\<exists>msg. serialize_request meth rid hs body = Some (Inr msg) \<and>
    parse_request msg = Inr \<lparr>req_method = meth, req_request_id = rid, req_headers = [],
      req_body = block @ CRLF @ body\<rparr>"
  using request_loses_headers [OF assms] by blast

theorem client_request_loses_headers_witness:
  "\<exists>msg. serialize_request (u ''STOP'') 2 [(u ''A'', u ''b'')] [] = Some (Inr msg) \<and>
     parse_request msg = Inr \<lparr>req_method = u ''STOP'', req_request_id = 2, req_headers = [],
       req_body = ascii (u ''A: b'') @ CRLF @ CRLF\<rparr>"
proof -
  have "wire_token (u ''STOP'')" by (simp add: wire_token_def is_scalar_def is_space_def)
  moreover have "header_block [(u ''A'', u ''b'')] = Inr (ascii (u ''A: b'') @ CRLF)"
    by (simp add: header_block_def header_line_def utf8_encode_low_Cons utf8_encode_def utf8_char_def is_scalar_def)
  ultimately show ?thesis using client_request_loses_headers [of "u ''STOP''" _ _ 2 "[]"] by fastforce
qed

end
