(* ===== verification/Py_Stream.thy ===== *)
theory Py_Stream
  imports Py_Codec
begin

text \<open>
  \<open>asyncio.StreamReader\<close> as the protocol adapters use it: what has arrived, and whether the peer
  has closed its side. A read that needs more than that waits, which is the value \<open>None\<close>;
  with the peer gone it raises \<open>IncompleteReadError\<close>.
\<close>

record tcp_reader =
  rd_pending :: bytes
  rd_eof :: bool

text \<open>\<open>None\<close> is waiting for more data.\<close>

type_synonym 'a read = "('a \<times> tcp_reader) result option"

text \<open>\<open>StreamReader.readuntil(sep)\<close> with asyncio's default limit of 64 KiB.\<close>

definition readuntil :: "bytes \<Rightarrow> tcp_reader \<Rightarrow> bytes read" where
  "readuntil sep r =
     (case py_find sep (rd_pending r) of
        Some i \<Rightarrow>
          if 65536 < i then Some (Inl (OtherError ''LimitOverrunError''))
          else Some (Inr (take (i + length sep) (rd_pending r), r\<lparr>rd_pending := drop (i + length sep) (rd_pending r)\<rparr>))
      | None \<Rightarrow>
          if 65536 < length (rd_pending r) + 1 - length sep then Some (Inl (OtherError ''LimitOverrunError''))
          else if rd_eof r then Some (Inl IncompleteReadError)
          else None)"

definition readexactly :: "int \<Rightarrow> tcp_reader \<Rightarrow> bytes read" where
  "readexactly n r =
     (if n < 0 then Some (Inl (ValueError ''readexactly size can not be less than zero''))
      else if n \<le> int (length (rd_pending r))
      then Some (Inr (take (nat n) (rd_pending r), r\<lparr>rd_pending := drop (nat n) (rd_pending r)\<rparr>))
      else if rd_eof r then Some (Inl IncompleteReadError)
      else None)"

definition bindR :: "'a read \<Rightarrow> ('a \<Rightarrow> tcp_reader \<Rightarrow> 'b read) \<Rightarrow> 'b read" where
  "bindR m f =
     (case m of
        None \<Rightarrow> None
      | Some (Inl e) \<Rightarrow> Some (Inl e)
      | Some (Inr (x, r)) \<Rightarrow> f x r)"

lemma bindR_simps [simp]:
  "bindR None f = None" "bindR (Some (Inl e)) f = Some (Inl e)" "bindR (Some (Inr (x, r))) f = f x r"
  by (simp_all add: bindR_def)

definition lift_read :: "'a result \<Rightarrow> tcp_reader \<Rightarrow> 'a read" where
  "lift_read m r = Some (bindE m (\<lambda>x. Inr (x, r)))"

text \<open>
  How the handler of a connection ends: the writer closed, an exception that escaped, or still
  waiting for the peer.
\<close>

datatype conn_end = Closed | Raised exn | Waiting

lemma readexactly_append:
  "readexactly (int (length b)) \<lparr>rd_pending = b @ later, rd_eof = e\<rparr> =
     Some (Inr (b, \<lparr>rd_pending = later, rd_eof = e\<rparr>))"
  by (simp add: readexactly_def)

lemma readexactly_shorter:
  "readexactly n r = Some (Inr (b, r')) \<Longrightarrow> length (rd_pending r) = length (rd_pending r') + nat n"
  by (auto simp: readexactly_def split: if_splits)

end
