(* ===== verification/Bridge_Codec.thy ===== *)
theory Bridge_Codec
  imports Mrcp_Messages Py_Stream
begin

text \<open>
  The wire formats of the UniMRCP bridge, \<open>adapters/mrcp/bridge.py\<close>: the CBOR subset of START and
  ERROR payloads, frames with their length prefix, and the NLSML document of a RESULT. The
  decoder recurses into nested maps, so the interpreter's recursion limit is its first argument.
\<close>

section \<open>Frame types\<close>

definition FRAME_START :: nat where "FRAME_START = 0x01"
definition FRAME_AUDIO :: nat where "FRAME_AUDIO = 0x02"
definition FRAME_EOS :: nat where "FRAME_EOS = 0x03"
definition FRAME_STOP :: nat where "FRAME_STOP = 0x04"
definition FRAME_RESULT :: nat where "FRAME_RESULT = 0x10"
definition FRAME_ERROR :: nat where "FRAME_ERROR = 0x11"
definition MAX_FRAME_SIZE :: nat where "MAX_FRAME_SIZE = 1024 * 1024"

lemmas frame_types = FRAME_START_def FRAME_AUDIO_def FRAME_EOS_def FRAME_STOP_def FRAME_RESULT_def FRAME_ERROR_def

section \<open>CBOR\<close>

text \<open>Big-endian numbers of a given width, as \<open>struct\<close> reads and writes them.\<close>

definition be_nat :: "bytes \<Rightarrow> nat" where
  "be_nat bs = foldl (\<lambda>a b. a * 256 + unat b) 0 bs"

fun be_enc :: "nat \<Rightarrow> nat \<Rightarrow> bytes" where
  "be_enc 0 n = []"
| "be_enc (Suc k) n = be_enc k (n div 256) @ [byte_of (n mod 256)]"

definition unpack_from :: "nat \<Rightarrow> bytes \<Rightarrow> nat result" where
  "unpack_from width data =
     (if length data < 1 + width then Inl StructError else Inr (be_nat (take width (drop 1 data))))"

text \<open>The argument of the initial byte and the position after it.\<close>

definition cbor_head :: "bytes \<Rightarrow> nat \<Rightarrow> (nat \<times> nat) result" where
  "cbor_head data ai =
     (if ai < 24 then Inr (ai, 1)
      else if ai = 24 then (if length data < 2 then Inl IndexError else Inr (unat (data ! 1), 2))
      else if ai = 25 then bindE (unpack_from 2 data) (\<lambda>v. Inr (v, 3))
      else if ai = 26 then bindE (unpack_from 4 data) (\<lambda>v. Inr (v, 5))
      else if ai = 27 then bindE (unpack_from 8 data) (\<lambda>v. Inr (v, 9))
      else Inl (CBORError ''unsupported additional info''))"

text \<open>A map cannot be a dictionary key; numbers and strings can.\<close>

definition hashable :: "pyval \<Rightarrow> bool" where
  "hashable v = (case v of PDict _ \<Rightarrow> False | PList _ \<Rightarrow> False | _ \<Rightarrow> True)"

fun cbor_decode :: "nat \<Rightarrow> bytes \<Rightarrow> (pyval \<times> nat) result"
  and cbor_pairs :: "nat \<Rightarrow> nat \<Rightarrow> bytes \<Rightarrow> nat \<Rightarrow> (pyval, pyval) dict \<Rightarrow> (pyval \<times> nat) result" where
  "cbor_decode 0 data = Inl RecursionError"
| "cbor_decode (Suc frames) data =
     (if data = [] then Inl (CBORError ''empty'')
      else
        (let ib = unat (hd data); major = ib div 32; ai = ib mod 32
         in bindE (cbor_head data ai) (\<lambda>(val, pos).
              if major = 0 then Inr (PInt (int val), pos)
              else if major = 3 then
                bindE (utf8_decode (take val (drop pos data))) (\<lambda>s. Inr (PStr s, pos + val))
              else if major = 5 then cbor_pairs frames val data pos []
              else Inl (CBORError ''unsupported major type''))))"
| "cbor_pairs frames 0 data pos out = Inr (PDict out, pos)"
| "cbor_pairs frames (Suc n) data pos out =
     bindE (cbor_decode frames (drop pos data)) (\<lambda>(k, kn).
     bindE (cbor_decode frames (drop (pos + kn) data)) (\<lambda>(v, vn).
       if \<not> hashable k then Inl (TypeError ''unhashable type: dict'')
       else cbor_pairs frames n data (pos + kn + vn) (dput k v out)))"

definition cbor_encode_head :: "nat \<Rightarrow> int \<Rightarrow> bytes result" where
  "cbor_encode_head major val =
     (if val < 0 then Inl (ValueError ''byte must be in range(0, 256)'')
      else
        (let v = nat val
         in if v < 24 then Inr [byte_of (major * 32 + v)]
            else if v \<le> 0xFF then Inr [byte_of (major * 32 + 24), byte_of v]
            else if v \<le> 0xFFFF then Inr (byte_of (major * 32 + 25) # be_enc 2 v)
            else if v \<le> 0xFFFFFFFF then Inr (byte_of (major * 32 + 26) # be_enc 4 v)
            else if v \<le> 0xFFFFFFFFFFFFFFFF then Inr (byte_of (major * 32 + 27) # be_enc 8 v)
            else Inl StructError))"

definition cbor_encode_str :: "pystr \<Rightarrow> bytes result" where
  "cbor_encode_str s =
     bindE (utf8_encode s) (\<lambda>b. bindE (cbor_encode_head 3 (int (length b))) (\<lambda>h. Inr (h @ b)))"

definition cbor_encode_uint :: "int \<Rightarrow> bytes result" where
  "cbor_encode_uint v = cbor_encode_head 0 v"

definition cbor_encode_value :: "pyval \<Rightarrow> bytes result" where
  "cbor_encode_value v =
     (case v of
        PStr s \<Rightarrow> cbor_encode_str s
      | PInt i \<Rightarrow> cbor_encode_uint i
      | PBool b \<Rightarrow> cbor_encode_uint (if b then 1 else 0)
      | _ \<Rightarrow> Inl (TypeError ''unsupported value type''))"

definition cbor_encode_map :: "(pystr, pyval) dict \<Rightarrow> bytes result" where
  "cbor_encode_map m =
     (let n = length m
      in bindE (if n < 24 then Inr [byte_of (0xA0 + n)]
                else if n < 256 then Inr [0xB8, byte_of n]
                else Inl (ValueError ''byte must be in range(0, 256)'')) (\<lambda>h.
         bindE (concat_mapE (\<lambda>(k, v).
                  bindE (cbor_encode_str k) (\<lambda>kb. bindE (cbor_encode_value v) (\<lambda>vb. Inr (kb @ vb)))) m) (\<lambda>b.
           Inr (h @ b))))"

section \<open>Frames\<close>

definition read_frame :: "tcp_reader \<Rightarrow> (nat \<times> bytes) read" where
  "read_frame r =
     bindR (readexactly 5 r) (\<lambda>header r.
       (let total_len = be_nat (take 4 header); ftype = unat (header ! 4)
        in if total_len < 1 \<or> MAX_FRAME_SIZE < total_len - 1
           then Some (Inl (ValueError ''invalid frame size''))
           else bindR (if 1 < total_len then readexactly (int total_len - 1) r else Some (Inr ([], r)))
                  (\<lambda>payload r. Some (Inr ((ftype, payload), r)))))"

definition encode_frame :: "nat \<Rightarrow> bytes \<Rightarrow> bytes result" where
  "encode_frame ftype payload =
     (let total_len = length payload + 1
      in if 0xFFFFFFFF < total_len then Inl StructError
         else Inr (be_enc 4 total_len @ [byte_of ftype] @ payload))"

section \<open>NLSML\<close>

definition PLACEHOLDER_INTENT :: pystr where "PLACEHOLDER_INTENT = u ''PLACEHOLDER_INTENT''"

definition xml_escape :: "pystr \<Rightarrow> pystr" where
  "xml_escape s =
     replace1 62 (u ''&gt;'') (replace1 60 (u ''&lt;'') (replace1 38 (u ''&amp;'') s))"

definition bridge_nlsml_head :: "pyfloat \<Rightarrow> pystr" where
  "bridge_nlsml_head confidence =
     u ''<?xml version='' @ dquote ''1.0'' @ u ''?>'' @ [10] @
     u ''<result xmlns='' @ dquote ''http://www.ietf.org/xml/ns/mrcpv2'' @ [10] @
     u ''        grammar='' @ dquote ''session:grammar@sandroid'' @ u ''>'' @ [10] @
     u ''  <interpretation confidence='' @ [34] @ fmt2 confidence @ [34] @ u ''>'' @ [10] @
     u ''    <input mode='' @ dquote ''speech'' @ u ''>''"

definition bridge_nlsml_middle :: pystr where
  "bridge_nlsml_middle = u ''</input>'' @ [10] @ u ''    <instance>''"

definition render_nlsml :: "pystr \<Rightarrow> pyfloat \<Rightarrow> pystr \<Rightarrow> bytes result" where
  "render_nlsml transcript confidence intent_id =
     utf8_encode (bridge_nlsml_head confidence @ xml_escape transcript @ bridge_nlsml_middle @
       xml_escape intent_id @ nlsml_tail)"

section \<open>Round trips\<close>

lemma length_be_enc [simp]: "length (be_enc k n) = k"
  by (induction k arbitrary: n) auto

lemma be_nat_snoc: "be_nat (bs @ [b]) = be_nat bs * 256 + unat b"
  by (simp add: be_nat_def)

lemma be_nat_enc: "n < 256 ^ k \<Longrightarrow> be_nat (be_enc k n) = n"
proof (induction k arbitrary: n)
  case (Suc k)
  have "n div 256 < 256 ^ k" using Suc.prems by (simp add: less_mult_imp_div_less mult.commute)
  then show ?case using Suc.IH by (simp add: be_nat_snoc)
qed (simp add: be_nat_def)

lemma cbor_head_roundtrip:
  assumes "cbor_encode_head major val = Inr h" and "major < 8"
  shows "h \<noteq> []" and "unat (hd h) div 32 = major"
    and "cbor_head (h @ rest) (unat (hd h) mod 32) = Inr (nat val, length h)"
proof -
  let ?v = "nat val"
  have "h \<noteq> [] \<and> unat (hd h) div 32 = major \<and> cbor_head (h @ rest) (unat (hd h) mod 32) = Inr (?v, length h)"
  proof -
    have b: "unat (byte_of (major * 32 + x)) = major * 32 + x" if "x < 32" for x
      using that assms(2) by (intro unat_byte_of) linarith
    consider (a) "?v < 24" "h = [byte_of (major * 32 + ?v)]"
      | (b) "?v < 256" "h = [byte_of (major * 32 + 24), byte_of ?v]"
      | (c) "?v < 256 ^ 2" "h = byte_of (major * 32 + 25) # be_enc 2 ?v"
      | (d) "?v < 256 ^ 4" "h = byte_of (major * 32 + 26) # be_enc 4 ?v"
      | (e) "?v < 256 ^ 8" "h = byte_of (major * 32 + 27) # be_enc 8 ?v"
      using assms(1) by (fastforce simp: cbor_encode_head_def Let_def split: if_splits)
    then show ?thesis
      by cases (simp_all add: b cbor_head_def unpack_from_def be_nat_enc del: be_enc.simps)
  qed
  then show "h \<noteq> []" and "unat (hd h) div 32 = major"
    and "cbor_head (h @ rest) (unat (hd h) mod 32) = Inr (?v, length h)" by blast+
qed

lemma cbor_str_roundtrip:
  assumes "cbor_encode_str s = Inr b"
  shows "cbor_decode (Suc f) (b @ rest) = Inr (PStr s, length b)"
proof -
  obtain t h where t: "utf8_encode s = Inr t" and h: "cbor_encode_head 3 (int (length t)) = Inr h" and b: "b = h @ t"
    using assms by (auto simp: cbor_encode_str_def result_simps)
  note head = cbor_head_roundtrip(1,2) [OF h] cbor_head_roundtrip(3) [OF h, of "t @ rest"]
  then show ?thesis using utf8_roundtrip [OF t] b by (simp add: Let_def)
qed

lemma cbor_uint_roundtrip:
  assumes "cbor_encode_uint i = Inr b"
  shows "cbor_decode (Suc f) (b @ rest) = Inr (PInt i, length b)"
proof -
  have h: "cbor_encode_head 0 i = Inr b" and "0 \<le> i"
    using assms by (auto simp: cbor_encode_uint_def cbor_encode_head_def split: if_splits)
  then show ?thesis using cbor_head_roundtrip(1,2) [OF h] cbor_head_roundtrip(3) [OF h, of rest] by (simp add: Let_def)
qed

definition plain_value :: "pyval \<Rightarrow> bool" where
  "plain_value v = (case v of PStr _ \<Rightarrow> True | PInt _ \<Rightarrow> True | _ \<Rightarrow> False)"

lemma cbor_value_roundtrip:
  "plain_value v \<Longrightarrow> cbor_encode_value v = Inr b \<Longrightarrow> cbor_decode (Suc f) (b @ rest) = Inr (v, length b)"
  by (cases v) (simp_all add: plain_value_def cbor_encode_value_def cbor_str_roundtrip cbor_uint_roundtrip
      del: cbor_decode.simps)

lemma cbor_pairs_roundtrip:
  assumes "list_all (plain_value \<circ> snd) m" and "distinct (dkeys out @ map (PStr \<circ> fst) m)"
    and "concat_mapE (\<lambda>(k, v). bindE (cbor_encode_str k) (\<lambda>kb. bindE (cbor_encode_value v) (\<lambda>vb. Inr (kb @ vb)))) m = Inr b"
  shows "cbor_pairs (Suc f) (length m) (pre @ b @ rest) (length pre) out =
    Inr (PDict (out @ map (\<lambda>(k, v). (PStr k, v)) m), length (pre @ b))"
  using assms
proof (induction m arbitrary: out pre b)
  case (Cons kv m)
  obtain k v where kv: "kv = (k, v)" by force
  obtain kb vb b' where kb: "cbor_encode_str k = Inr kb" and vb: "cbor_encode_value v = Inr vb"
    and b': "concat_mapE (\<lambda>(k, v). bindE (cbor_encode_str k) (\<lambda>kb. bindE (cbor_encode_value v) (\<lambda>vb. Inr (kb @ vb)))) m = Inr b'"
    and b: "b = kb @ vb @ b'"
    using Cons.prems(3) kv by (auto simp: result_simps)
  have v: "plain_value v" using Cons.prems(1) kv by simp
  have new: "dput (PStr k) v out = out @ [(PStr k, v)]"
    using Cons.prems(2) kv by (intro dput_new) auto
  have IH: "cbor_pairs (Suc f) (length m) ((pre @ kb @ vb) @ b' @ rest) (length (pre @ kb @ vb)) (out @ [(PStr k, v)]) =
      Inr (PDict ((out @ [(PStr k, v)]) @ map (\<lambda>(k, v). (PStr k, v)) m), length ((pre @ kb @ vb) @ b'))"
    using Cons.prems(1,2) b' kv by (intro Cons.IH) auto
  have "cbor_decode (Suc f) (drop (length pre) (pre @ b @ rest)) = Inr (PStr k, length kb)"
    using cbor_str_roundtrip [OF kb, of f "vb @ b' @ rest"] b by simp
  moreover have "cbor_decode (Suc f) (drop (length pre + length kb) (pre @ b @ rest)) = Inr (v, length vb)"
    using cbor_value_roundtrip [OF v vb, of f "b' @ rest"] b by simp
  ultimately show ?case
    using IH new b kv by (simp add: hashable_def add_ac del: cbor_decode.simps)
qed simp

lemma cbor_map_roundtrip:
  assumes "wf_dict m" and "list_all (plain_value \<circ> snd) m" and "cbor_encode_map m = Inr b"
  shows "cbor_decode (Suc (Suc f)) (b @ rest) = Inr (PDict (map (\<lambda>(k, v). (PStr k, v)) m), length b)"
proof -
  obtain h body where b: "b = h @ body"
    and body: "concat_mapE (\<lambda>(k, v). bindE (cbor_encode_str k) (\<lambda>kb. bindE (cbor_encode_value v) (\<lambda>vb. Inr (kb @ vb)))) m = Inr body"
    and h: "length m < 24 \<and> h = [byte_of (0xA0 + length m)] \<or> length m < 256 \<and> h = [0xB8, byte_of (length m)]"
    using assms(3) by (auto simp: cbor_encode_map_def Let_def result_simps split: if_splits)
  have "distinct (map (PStr \<circ> fst) m)"
    using assms(1) by (simp add: wf_dict_def distinct_map comp_inj_on inj_on_def)
  then have pairs: "cbor_pairs (Suc f) (length m) (h @ body @ rest) (length h) [] =
      Inr (PDict (map (\<lambda>(k, v). (PStr k, v)) m), length (h @ body))"
    using cbor_pairs_roundtrip [OF assms(2) _ body, of "[]" f h rest] by simp
  have head: "h \<noteq> []" "unat (hd h) div 32 = 5"
    "cbor_head (h @ body @ rest) (unat (hd h) mod 32) = Inr (length m, length h)"
  proof -
    have "(160 + length m) mod 32 = length m \<and> (160 + length m) div 32 = 5 \<and> unat (byte_of (160 + length m)) = 160 + length m"
      if "length m < 24" using that by (simp add: mod_add_eq [of 160 32, symmetric] div_add1_eq)
    then show "h \<noteq> []" "unat (hd h) div 32 = 5"
      "cbor_head (h @ body @ rest) (unat (hd h) mod 32) = Inr (length m, length h)"
      using h by (auto simp: cbor_head_def)
  qed
  have "cbor_decode (Suc (Suc f)) (h @ body @ rest) =
      cbor_pairs (Suc f) (length m) (h @ body @ rest) (length h) []"
    using head by (subst cbor_decode.simps) (simp add: Let_def)
  with pairs show ?thesis by (simp add: b)
qed

lemma frame_roundtrip:
  assumes "encode_frame t p = Inr b" and "t < 256" and "length p \<le> MAX_FRAME_SIZE"
  shows "read_frame \<lparr>rd_pending = b @ later, rd_eof = e\<rparr> = Some (Inr ((t, p), \<lparr>rd_pending = later, rd_eof = e\<rparr>))"
proof -
  let ?h = "be_enc 4 (length p + 1) @ [byte_of t]"
  have b: "b @ later = ?h @ p @ later" using assms(1) by (simp add: encode_frame_def Let_def split: if_splits)
  have "length p + 1 < 256 ^ 4" using assms(3) by (simp add: MAX_FRAME_SIZE_def)
  then have len: "be_nat (take 4 ?h) = length p + 1" by (simp add: be_nat_enc del: be_enc.simps)
  have "readexactly 5 \<lparr>rd_pending = ?h @ p @ later, rd_eof = e\<rparr> = Some (Inr (?h, \<lparr>rd_pending = p @ later, rd_eof = e\<rparr>))"
    using readexactly_append [of ?h "p @ later" e] by (simp del: be_enc.simps)
  then show ?thesis
    unfolding b read_frame_def
    using assms(2,3) len readexactly_append [of p later e]
    by (cases "p = []") (simp_all add: Let_def nth_append del: be_enc.simps)
qed

section \<open>Reading the result document\<close>

lemma xml_escape_eq: "xml_escape = nlsml_escape"
  by (simp add: fun_eq_iff xml_escape_def nlsml_escape_def)

abbreviation input_tag :: pystr where
  "input_tag \<equiv> u ''<input mode='' @ dquote ''speech'' @ u ''>''"

lemma bridge_nlsml_reads_back:
  assumes "list_all is_scalar transcript" and "list_all is_scalar intent_id"
  shows "\<exists>body xml. render_nlsml transcript confidence intent_id = Inr body \<and> utf8_decode body = Inr xml \<and>
    xml_text input_tag (u ''</input>'') xml = Some transcript \<and> xml_element ''instance'' xml = Some intent_id"
proof -
  let ?t = "nlsml_escape transcript" and ?i = "nlsml_escape intent_id" and ?head = "bridge_nlsml_head confidence"
  let ?xml = "?head @ ?t @ bridge_nlsml_middle @ ?i @ nlsml_tail"
  have "list_all is_scalar (fmt2 confidence)"
    using fmt2_chars [of _ confidence] by (fastforce simp: list_all_iff is_scalar_def)
  then have "list_all is_scalar ?xml"
    using assms [THEN escape_scalar]
    by (simp add: bridge_nlsml_head_def bridge_nlsml_middle_def nlsml_tail_def is_scalar_def)
  then obtain body where body: "utf8_encode ?xml = Inr body" using utf8_encode_total by blast
  have "60 \<notin> set (fmt2 confidence)" using fmt2_chars by blast
  note skip = py_find_skip [OF this] py_find_skip [OF escape_no_markup]
  let ?p = "take (length ?head - length input_tag) ?head"
  have find: "py_find input_tag ?xml = Some (length ?p)" by (simp add: bridge_nlsml_head_def skip)
  have "length ?p + length input_tag = length ?head" by (simp add: bridge_nlsml_head_def)
  then have "drop (length ?p + length input_tag) ?xml = ?t @ bridge_nlsml_middle @ ?i @ nlsml_tail"
    by (simp only: append_eq_conv_conj [THEN iffD1] drop_append) simp
  also have "\<dots> = ?t @ (60 # u ''/input>'') @ drop 8 bridge_nlsml_middle @ ?i @ nlsml_tail"
    by (simp add: bridge_nlsml_middle_def)
  finally have input: "xml_text input_tag (60 # u ''/input>'') ?xml = Some transcript"
    using xml_text_found [OF find] escape_no_markup unescape_escape by metis
  let ?q = "?head @ ?t @ take (length bridge_nlsml_middle - 10) bridge_nlsml_middle"
  have find': "py_find (u ''<instance>'') ?xml = Some (length ?q)"
    by (simp add: bridge_nlsml_head_def bridge_nlsml_middle_def skip)
  have "length ?q + length (u ''<instance>'') = length (?head @ ?t @ bridge_nlsml_middle)"
    by (simp add: bridge_nlsml_middle_def)
  then have "drop (length ?q + length (u ''<instance>'')) ((?head @ ?t @ bridge_nlsml_middle) @ ?i @ nlsml_tail) = ?i @ nlsml_tail"
    by (simp only: append_eq_conv_conj [THEN iffD1] drop_append) simp
  also have "\<dots> = ?i @ (60 # u ''/instance>'') @ drop 11 nlsml_tail" by (simp add: nlsml_tail_def)
  finally have "drop (length ?q + length (u ''<instance>'')) ?xml = ?i @ (60 # u ''/instance>'') @ drop 11 nlsml_tail"
    by simp
  then have "xml_text (u ''<instance>'') (60 # u ''/instance>'') ?xml = Some intent_id"
    using xml_text_found [OF find'] escape_no_markup unescape_escape by metis
  then have "xml_element ''instance'' ?xml = Some intent_id" by (simp add: xml_element_def)
  moreover have "render_nlsml transcript confidence intent_id = Inr body"
    by (simp add: render_nlsml_def xml_escape_eq body)
  ultimately show ?thesis using input utf8_roundtrip [OF body] by auto
qed

section \<open>Properties\<close>

text \<open>
  C24. CBOR round trip: a map of distinct keys to strings and numbers that the encoder accepts is
  decoded to the same map in the same order, whatever bytes follow it, with two levels of
  recursion to spare, and the decoder consumes exactly the bytes the encoder produced.
\<close>

theorem cbor_roundtrip:
  assumes "wf_dict m" and "list_all (plain_value \<circ> snd) m" and "cbor_encode_map m = Inr b" and "2 \<le> frames"
  shows "cbor_decode frames (b @ rest) = Inr (PDict (map (\<lambda>(k, v). (PStr k, v)) m), length b)"
proof -
  obtain f where "frames = Suc (Suc f)" using assms(4) by (metis Suc_le_D numeral_2_eq_2 Suc_le_mono)
  then show ?thesis using cbor_map_roundtrip [OF assms(1-3)] by simp
qed

theorem cbor_roundtrip_witness:
  "\<exists>b. cbor_encode_map [(u ''code'', PStr (u ''BAD''))] = Inr b \<and>
     cbor_decode 2 (b @ [0]) = Inr (PDict [(PStr (u ''code''), PStr (u ''BAD''))], length b)"
proof -
  have "utf8_encode (u ''code'') = Inr (ascii (u ''code''))" "utf8_encode (u ''BAD'') = Inr (ascii (u ''BAD''))"
    by (rule utf8_encode_ascii; auto)+
  then obtain b where "cbor_encode_map [(u ''code'', PStr (u ''BAD''))] = Inr b"
    by (simp add: cbor_encode_map_def cbor_encode_str_def cbor_encode_value_def cbor_encode_head_def)
  then show ?thesis
    using cbor_roundtrip [of "[(u ''code'', PStr (u ''BAD''))]" b 2 "[0]"]
    by (simp add: wf_dict_def plain_value_def del: cbor_decode.simps)
qed

end
