(* ===== verification/Domain.thy ===== *)
theory Domain
  imports Py_Text
begin

text \<open>
  The domain model of \<open>core/domain.py\<close>: category modes and their property bits, intents,
  categories, the category tree with its lookups \<open>get\<close>, \<open>path_of\<close> and \<open>resolve_path\<close>, and the
  session. The second half is the theory of well-formed trees: the chain of ancestors of a
  category, and the round trip between a category and its path.
\<close>

type_synonym category_id = pystr
type_synonym intent_id = pystr
type_synonym category_path = pystr

section \<open>Modes\<close>

datatype search_depth = SD_NONE | SD_IMMEDIATE | SD_ALL

record mode_properties =
  may_hold_ordinary :: bool
  may_hold_special :: bool
  requires_special :: bool
  searches_down :: bool
  sdepth :: search_depth
  expose_ordinary :: bool
  expose_special :: bool
  allow_penetration :: bool
  single_child_chain :: bool
  forbids_children :: bool

datatype mode = STANDARD | ENUM | SEQUENTIAL | BRANCHING | DRILLDOWN | MEMORY

fun MODE_PROPERTIES :: "mode \<Rightarrow> mode_properties" where
  "MODE_PROPERTIES STANDARD = \<lparr>
     may_hold_ordinary = True, may_hold_special = False, requires_special = False,
     searches_down = True, sdepth = SD_ALL,
     expose_ordinary = True, expose_special = False, allow_penetration = True,
     single_child_chain = False, forbids_children = False\<rparr>"
| "MODE_PROPERTIES ENUM = \<lparr>
     may_hold_ordinary = True, may_hold_special = False, requires_special = False,
     searches_down = False, sdepth = SD_NONE,
     expose_ordinary = True, expose_special = False, allow_penetration = True,
     single_child_chain = False, forbids_children = False\<rparr>"
| "MODE_PROPERTIES SEQUENTIAL = \<lparr>
     may_hold_ordinary = True, may_hold_special = True, requires_special = True,
     searches_down = False, sdepth = SD_NONE,
     expose_ordinary = False, expose_special = True, allow_penetration = False,
     single_child_chain = True, forbids_children = False\<rparr>"
| "MODE_PROPERTIES BRANCHING = \<lparr>
     may_hold_ordinary = False, may_hold_special = True, requires_special = True,
     searches_down = True, sdepth = SD_IMMEDIATE,
     expose_ordinary = False, expose_special = True, allow_penetration = False,
     single_child_chain = False, forbids_children = False\<rparr>"
| "MODE_PROPERTIES DRILLDOWN = \<lparr>
     may_hold_ordinary = True, may_hold_special = True, requires_special = True,
     searches_down = True, sdepth = SD_ALL,
     expose_ordinary = True, expose_special = True, allow_penetration = True,
     single_child_chain = False, forbids_children = False\<rparr>"
| "MODE_PROPERTIES MEMORY = \<lparr>
     may_hold_ordinary = True, may_hold_special = False, requires_special = False,
     searches_down = False, sdepth = SD_NONE,
     expose_ordinary = False, expose_special = False, allow_penetration = False,
     single_child_chain = False, forbids_children = True\<rparr>"

text \<open>\<open>Mode(value)\<close>: the enum constructor raises \<open>ValueError\<close> on an unknown value.\<close>

definition mode_of_value :: "pystr \<Rightarrow> mode result" where
  "mode_of_value s =
     (if s = u ''STANDARD'' then Inr STANDARD
      else if s = u ''ENUM'' then Inr ENUM
      else if s = u ''SEQUENTIAL'' then Inr SEQUENTIAL
      else if s = u ''BRANCHING'' then Inr BRANCHING
      else if s = u ''DRILLDOWN'' then Inr DRILLDOWN
      else if s = u ''MEMORY'' then Inr MEMORY
      else Inl (ValueError ''is not a valid Mode''))"

section \<open>Intents and categories\<close>

datatype slot_source = SrcAsr | SrcRule | SrcUser

record slot =
  slot_name :: pystr
  slot_type :: pystr
  slot_value :: "pyval option"
  slot_confidence :: pyfloat
  slot_source :: slot_source

record intent =
  intent_id :: intent_id
  intent_category_id :: category_id
  question :: "pystr list"
  answer :: "pystr option"
  intent_slots :: "slot list"
  is_special :: bool
  follow_up :: "category_path option"
  switching :: "category_path option"

record on_complete_rule =
  rule_when :: "pystr option"
  rule_default :: bool
  rule_intent :: intent_id

datatype on_complete = OnCompleteHandoff | OnCompleteRules "on_complete_rule list"

text \<open>The field validator of \<open>OnCompleteRules\<close>: at most one default rule.\<close>

definition at_most_one_default :: "on_complete_rule list \<Rightarrow> on_complete_rule list result" where
  "at_most_one_default rules =
     (let defaults = length (filter rule_default rules)
      in if 1 < defaults
         then Inl (ValidationError ''on_complete.rules may declare at most one default rule'')
         else Inr rules)"

record category =
  cat_id :: category_id
  cat_name :: pystr
  parent_id :: "category_id option"
  cat_mode :: mode
  extends_enum_category :: "category_id option"
  intents :: "intent list"
  child_ids :: "category_id list"
  on_complete :: "on_complete option"

definition ordinary_intents :: "category \<Rightarrow> intent list" where
  "ordinary_intents c = filter (\<lambda>i. \<not> is_special i) (intents c)"

definition special_intents :: "category \<Rightarrow> intent list" where
  "special_intents c = filter is_special (intents c)"

abbreviation props :: "category \<Rightarrow> mode_properties" where
  "props c \<equiv> MODE_PROPERTIES (cat_mode c)"

section \<open>The category tree\<close>

record category_tree =
  root_id :: category_id
  categories :: "(category_id, category) dict"

definition tree_get :: "category_tree \<Rightarrow> category_id \<Rightarrow> category result" where
  "tree_get t cid =
     (case dget (categories t) cid of
        None \<Rightarrow> Inl (KeyError ''unknown category_id'')
      | Some c \<Rightarrow> Inr c)"

text \<open>
  The loop of \<open>path_of\<close> walks the parent pointers; on a cycle of parents it would not return,
  so not returning is the value \<open>None\<close>. \<open>parts\<close> holds the names in the order they are appended.
\<close>

partial_function (option) path_loop ::
  "category_tree \<Rightarrow> category_id option \<Rightarrow> pystr list \<Rightarrow> pystr list result option" where
  "path_loop t cur parts =
     (case cur of
        None \<Rightarrow> Some (Inr parts)
      | Some cid \<Rightarrow>
          (case tree_get t cid of
             Inl e \<Rightarrow> Some (Inl e)
           | Inr node \<Rightarrow> path_loop t (parent_id node) (parts @ [cat_name node])))"

definition path_of :: "category_tree \<Rightarrow> category_id \<Rightarrow> category_path result option" where
  "path_of t cid =
     (case path_loop t (Some cid) [] of
        None \<Rightarrow> None
      | Some (Inl e) \<Rightarrow> Some (Inl e)
      | Some (Inr parts) \<Rightarrow> Some (Inr (py_join (u ''->'') (rev parts))))"

fun children_named :: "category_tree \<Rightarrow> pystr \<Rightarrow> category_id list \<Rightarrow> category list result" where
  "children_named t name [] = Inr []"
| "children_named t name (cid # cids) =
     bindE (tree_get t cid) (\<lambda>node.
     bindE (children_named t name cids) (\<lambda>rest.
       Inr (if cat_name node = name then node # rest else rest)))"

definition resolve_step :: "category_tree \<Rightarrow> category \<Rightarrow> pystr \<Rightarrow> category result" where
  "resolve_step t cur name =
     bindE (children_named t name (child_ids cur)) (\<lambda>matches.
       case matches of
         [] \<Rightarrow> Inl (KeyError ''no child named'')
       | [m] \<Rightarrow> Inr m
       | _ \<Rightarrow> Inl (KeyError ''name collision''))"

definition path_parts :: "category_path \<Rightarrow> pystr list" where
  "path_parts path = filter (\<lambda>p. p \<noteq> []) (py_split (u ''->'') path)"

definition resolve_path :: "category_tree \<Rightarrow> category_path \<Rightarrow> category result" where
  "resolve_path t path =
     (case path_parts path of
        [] \<Rightarrow> Inl (ValueError ''empty category_path'')
      | p # ps \<Rightarrow>
          bindE (tree_get t (root_id t)) (\<lambda>root.
            if p \<noteq> cat_name root then Inl (KeyError ''category_path does not start at root'')
            else foldE (resolve_step t) root ps))"

section \<open>Sessions\<close>

record session =
  session_id :: pystr
  current_category_id :: category_id
  slots :: "(pystr, slot) dict"
  history :: "pystr list"
  switching_history :: "category_id list"

definition new_session :: "pystr \<Rightarrow> category_id \<Rightarrow> session" where
  "new_session sid cid =
     \<lparr>session_id = sid, current_category_id = cid, slots = [], history = [],
      switching_history = []\<rparr>"

section \<open>Chains of ancestors\<close>

text \<open>
  \<open>chain t k ids\<close>: \<open>ids\<close> are the categories from the root down to \<open>k\<close>, each a child of the one
  before it.
\<close>

inductive chain :: "category_tree \<Rightarrow> category_id \<Rightarrow> category_id list \<Rightarrow> bool" for t where
  root: "dget (categories t) (root_id t) = Some c \<Longrightarrow> chain t (root_id t) [root_id t]"
| child: "chain t p ids \<Longrightarrow> dget (categories t) p = Some c \<Longrightarrow> k \<in> set (child_ids c) \<Longrightarrow>
     dget (categories t) k = Some d \<Longrightarrow> chain t k (ids @ [k])"

inductive_cases chainE: "chain t k ids"

text \<open>
  The shape of a tree: keys are the identifiers, parent and child pointers agree, children are
  distinct and have distinct names, and every category hangs below the root.
\<close>

definition wf_tree :: "category_tree \<Rightarrow> bool" where
  "wf_tree t \<longleftrightarrow>
     wf_dict (categories t) \<and>
     (\<exists>r. dget (categories t) (root_id t) = Some r \<and> parent_id r = None) \<and>
     (\<forall>k c. dget (categories t) k = Some c \<longrightarrow>
        cat_id c = k \<and>
        distinct (child_ids c) \<and>
        distinct (map (\<lambda>i. cat_name (the (dget (categories t) i))) (child_ids c)) \<and>
        (\<forall>i \<in> set (child_ids c). \<exists>d. dget (categories t) i = Some d \<and> parent_id d = Some k) \<and>
        (\<exists>ids. chain t k ids))"

lemma wf_treeD:
  assumes "wf_tree t"
  shows "wf_dict (categories t)"
    and "\<exists>r. dget (categories t) (root_id t) = Some r \<and> parent_id r = None"
    and "dget (categories t) k = Some c \<Longrightarrow> cat_id c = k"
    and "dget (categories t) k = Some c \<Longrightarrow> distinct (child_ids c)"
    and "dget (categories t) k = Some c \<Longrightarrow>
      distinct (map (\<lambda>i. cat_name (the (dget (categories t) i))) (child_ids c))"
    and "dget (categories t) k = Some c \<Longrightarrow> i \<in> set (child_ids c) \<Longrightarrow>
      \<exists>d. dget (categories t) i = Some d \<and> parent_id d = Some k"
    and "dget (categories t) k = Some c \<Longrightarrow> \<exists>ids. chain t k ids"
  using assms unfolding wf_tree_def by blast+

lemma tree_get_Inr_iff [result_simps]:
  "tree_get t k = Inr c \<longleftrightarrow> dget (categories t) k = Some c"
  by (simp add: tree_get_def split: option.splits)

lemma tree_get_Some [simp]: "dget (categories t) k = Some c \<Longrightarrow> tree_get t k = Inr c"
  by (simp add: tree_get_def)

lemma chain_ne: "chain t k ids \<Longrightarrow> ids \<noteq> []"
  by (auto elim: chainE)

lemma chain_last: "chain t k ids \<Longrightarrow> last ids = k"
  by (auto elim: chainE)

lemma chain_mem: "chain t k ids \<Longrightarrow> set ids \<subseteq> set (dkeys (categories t))"
  by (induction rule: chain.induct) (auto dest: dget_Some_key)

lemma chain_in: "chain t k ids \<Longrightarrow> \<exists>c. dget (categories t) k = Some c"
  by (auto elim: chainE)

text \<open>In a well-formed tree the chain of a category is unique, because parents are.\<close>

lemma chain_unique:
  assumes "wf_tree t"
  shows "chain t k ids \<Longrightarrow> chain t k ids' \<Longrightarrow> ids = ids'"
proof (induction arbitrary: ids' rule: chain.induct)
  case (root c)
  obtain r where r: "dget (categories t) (root_id t) = Some r" "parent_id r = None"
    using wf_treeD(2) [OF assms] by blast
  from root.prems show ?case
  proof cases
    case (child p ids c d)
    then have "parent_id d = Some p"
      using wf_treeD(6) [OF assms child(3,4)] by auto
    then show ?thesis using r child by simp
  qed simp
next
  case (child p ids c k d)
  then have par: "parent_id d = Some p" using wf_treeD(6) [OF assms child.hyps(2,3)] by auto
  from child.prems show ?case
  proof cases
    case (root c')
    then show ?thesis using par child.hyps wf_treeD(2) [OF assms] by auto
  next
    case (child p' ids'' c' d')
    then have "parent_id d' = Some p'" using wf_treeD(6) [OF assms child(3,4)] by auto
    then have "p' = p" using par child child.hyps(4) \<open>dget (categories t) k = Some d\<close> by auto
    then show ?thesis using child.IH child by auto
  qed
qed

lemma chain_prefix:
  "chain t k ids \<Longrightarrow> ids = xs @ y # ys \<Longrightarrow> chain t y (xs @ [y])"
proof (induction arbitrary: ys rule: chain.induct)
  case (root c)
  then show ?case by (auto simp: Cons_eq_append_conv intro: chain.root)
next
  case (child p ids c k d)
  show ?case
  proof (cases ys rule: rev_cases)
    case Nil
    then have "ids = xs" "y = k" using child.prems by auto
    then show ?thesis using child.hyps by (auto intro: chain.child)
  next
    case (snoc zs z)
    then have "ids = xs @ y # zs" using child.prems by simp
    then show ?thesis by (rule child.IH)
  qed
qed

lemma chain_distinct:
  assumes "wf_tree t" and "chain t k ids"
  shows "distinct ids"
proof (rule ccontr)
  assume "\<not> distinct ids"
  then obtain xs ys zs y where ids: "ids = xs @ y # ys @ y # zs"
    using not_distinct_decomp [of ids] by auto
  have "chain t y (xs @ [y])" using assms(2) ids by (intro chain_prefix [of t k ids]) auto
  moreover have "chain t y ((xs @ y # ys) @ [y])"
    using assms(2) ids by (intro chain_prefix [of t k ids]) auto
  ultimately have "xs @ [y] = (xs @ y # ys) @ [y]" by (rule chain_unique [OF assms(1)])
  then show False by simp
qed

lemma chain_length:
  assumes "wf_tree t" and "chain t k ids"
  shows "length ids \<le> length (categories t)"
proof -
  have "length ids = card (set ids)" using chain_distinct [OF assms] by (simp add: distinct_card)
  also have "\<dots> \<le> card (set (dkeys (categories t)))"
    using chain_mem [OF assms(2)] by (intro card_mono) auto
  also have "\<dots> \<le> length (dkeys (categories t))" by (rule card_length)
  finally show ?thesis by simp
qed

section \<open>Paths\<close>

definition chain_names :: "category_tree \<Rightarrow> category_id list \<Rightarrow> pystr list" where
  "chain_names t ids = map (\<lambda>i. cat_name (the (dget (categories t) i))) ids"

lemma chain_names_snoc [simp]:
  "chain_names t (ids @ [k]) = chain_names t ids @ [cat_name (the (dget (categories t) k))]"
  by (simp add: chain_names_def)

text \<open>Walking up from a category returns, with the names of its chain in reverse.\<close>

lemma path_loop_chain:
  assumes "wf_tree t"
  shows "chain t k ids \<Longrightarrow> path_loop t (Some k) parts = Some (Inr (parts @ rev (chain_names t ids)))"
proof (induction arbitrary: parts rule: chain.induct)
  case (root c)
  then have "parent_id c = None" using wf_treeD(2) [OF assms] by auto
  then show ?case using root by (simp add: path_loop.simps chain_names_def)
next
  case (child p ids c k d)
  then have "parent_id d = Some p" using wf_treeD(6) [OF assms child.hyps(2,3)] by auto
  then show ?case using child by (simp add: path_loop.simps [of t "Some k"])
qed

lemma path_of_chain:
  assumes "wf_tree t" and "chain t k ids"
  shows "path_of t k = Some (Inr (py_join (u ''->'') (chain_names t ids)))"
  using path_loop_chain [OF assms, of "[]"] by (simp add: path_of_def)

text \<open>With distinct child names exactly one child answers to a name.\<close>

lemma children_named_eq:
  assumes "\<And>i. i \<in> set cids \<Longrightarrow> \<exists>d. dget (categories t) i = Some d"
  shows "children_named t name cids =
    Inr (filter (\<lambda>d. cat_name d = name) (map (\<lambda>i. the (dget (categories t) i)) cids))"
  using assms
proof (induction cids)
  case (Cons i cids)
  then obtain d where "dget (categories t) i = Some d" by auto
  then show ?case using Cons by simp
qed simp

lemma filter_unique_name:
  "distinct (map f xs) \<Longrightarrow> x \<in> set xs \<Longrightarrow> filter (\<lambda>y. f y = f x) xs = [x]"
proof (induction xs)
  case (Cons y ys)
  show ?case
  proof (cases "x = y")
    case True
    then show ?thesis using Cons.prems by (auto simp: filter_empty_conv image_iff)
  next
    case False
    then show ?thesis using Cons by force
  qed
qed simp

lemma resolve_step_child:
  assumes "wf_tree t" and "dget (categories t) p = Some c" and "k \<in> set (child_ids c)"
    and "dget (categories t) k = Some d"
  shows "resolve_step t c (cat_name d) = Inr d"
proof -
  let ?ds = "map (\<lambda>i. the (dget (categories t) i)) (child_ids c)"
  have "distinct (map cat_name ?ds)"
    using wf_treeD(5) [OF assms(1,2)] by (simp add: comp_def)
  moreover have "d \<in> set ?ds" using assms(3,4) by force
  ultimately have "filter (\<lambda>y. cat_name y = cat_name d) ?ds = [d]" by (rule filter_unique_name)
  moreover have "children_named t (cat_name d) (child_ids c) =
      Inr (filter (\<lambda>y. cat_name y = cat_name d) ?ds)"
    using wf_treeD(6) [OF assms(1,2)] by (intro children_named_eq) blast
  ultimately show ?thesis by (simp add: resolve_step_def)
qed

lemma resolve_chain:
  assumes "wf_tree t" and "dget (categories t) (root_id t) = Some r"
  shows "chain t k ids \<Longrightarrow>
    foldE (resolve_step t) r (tl (chain_names t ids)) = Inr (the (dget (categories t) k))"
proof (induction rule: chain.induct)
  case (root c)
  then show ?case using assms(2) by (simp add: chain_names_def)
next
  case (child p ids c k d)
  have "ids \<noteq> []" using child.hyps(1) by (rule chain_ne)
  then have tl: "tl (chain_names t (ids @ [k])) = tl (chain_names t ids) @ [cat_name d]"
    using child.hyps(4) by (cases ids) (auto simp: chain_names_def)
  have "resolve_step t c (cat_name d) = Inr d"
    using resolve_step_child [OF assms(1)] child.hyps by blast
  then show ?case unfolding tl using child by (simp add: foldE_append)
qed

lemma chain_hd:
  "chain t k ids \<Longrightarrow> hd ids = root_id t"
  by (induction rule: chain.induct) (auto simp: hd_append dest: chain_ne)

text \<open>A name a path can carry: not empty and without the separator inside.\<close>

definition clean_name :: "pystr \<Rightarrow> bool" where
  "clean_name n \<longleftrightarrow> n \<noteq> [] \<and> \<not> sublist (u ''->'') n"

lemma path_parts_join:
  assumes "ws \<noteq> []" and "\<And>w. w \<in> set ws \<Longrightarrow> clean_name w"
  shows "path_parts (py_join (u ''->'') ws) = ws"
proof -
  have "py_split (u ''->'') (py_join (u ''->'') ws) = ws"
    using py_split_join [of 45 62 ws] assms by (simp add: clean_name_def)
  then show ?thesis using assms(2) by (simp add: path_parts_def clean_name_def)
qed

end
