(* ===== verification/Scene_Loader.thy ===== *)
theory Scene_Loader
  imports Domain
begin

text \<open>
  The scene loader of \<open>core/scene_loader.py\<close>: parsing of raw entries, wiring of child pointers,
  the reachability check, and the mode, naming and enum rules. Its main result is that every
  tree the loader returns is well formed and obeys the mode rules.

  The raw side starts after YAML and pydantic have given each value its declared type: a field
  that may be absent from the mapping is an option, a field with a default is the default.
\<close>

section \<open>Raw scenes\<close>

record raw_intent =
  ri_id :: "intent_id option"
  ri_question :: "pystr list"
  ri_answer :: "pystr option"
  ri_slots :: "slot list"
  ri_is_special :: bool
  ri_follow_up :: "category_path option"
  ri_switching :: "category_path option"

record raw_on_complete =
  oc_type :: "pystr option"
  oc_rules :: "on_complete_rule list option"

record raw_entry =
  e_id :: "category_id option"
  e_name :: "pystr option"
  e_parent_id :: "category_id option"
  e_mode :: "pystr option"
  e_extends_enum_category :: "category_id option"
  e_intents :: "raw_intent list option"
  e_on_complete :: "raw_on_complete option"

record raw_scene =
  rs_root_id :: category_id
  rs_categories :: "raw_entry list"

section \<open>Parsing\<close>

definition parse_on_complete :: "raw_on_complete option \<Rightarrow> on_complete option result" where
  "parse_on_complete oc =
     (case oc of
        None \<Rightarrow> Inr None
      | Some r \<Rightarrow>
          if oc_type r = Some (u ''handoff'') then Inr (Some OnCompleteHandoff)
          else if oc_type r = Some (u ''rules'') then
            (case oc_rules r of
               None \<Rightarrow> Inl (ValidationError ''rules: field required'')
             | Some rules \<Rightarrow>
                 bindE (at_most_one_default rules) (\<lambda>rs. Inr (Some (OnCompleteRules rs))))
          else Inl (SceneValidationError ''unsupported on_complete.type'' []))"

definition intent_validate :: "category_id \<Rightarrow> raw_intent \<Rightarrow> intent result" where
  "intent_validate cid r =
     (case ri_id r of
        None \<Rightarrow> Inl (ValidationError ''id: field required'')
      | Some iid \<Rightarrow> Inr
          \<lparr>intent_id = iid, intent_category_id = cid, question = ri_question r,
           answer = ri_answer r, intent_slots = ri_slots r, is_special = ri_is_special r,
           follow_up = ri_follow_up r, switching = ri_switching r\<rparr>)"

definition require_key :: "'a option \<Rightarrow> 'a result" where
  "require_key x = (case x of None \<Rightarrow> Inl (KeyError ''missing key'') | Some v \<Rightarrow> Inr v)"

definition parse_category :: "raw_entry \<Rightarrow> category result" where
  "parse_category entry =
     bindE (parse_on_complete (e_on_complete entry)) (\<lambda>oc.
     let intents_raw = (case e_intents entry of None \<Rightarrow> [] | Some rs \<Rightarrow> rs) in
     bindE (mapE (\<lambda>item. bindE (require_key (e_id entry)) (\<lambda>cid. intent_validate cid item))
              intents_raw) (\<lambda>ints.
     bindE (require_key (e_id entry)) (\<lambda>cid.
     bindE (require_key (e_name entry)) (\<lambda>name.
     bindE (mode_of_value (case e_mode entry of None \<Rightarrow> u ''STANDARD'' | Some m \<Rightarrow> m)) (\<lambda>m.
       Inr \<lparr>cat_id = cid, cat_name = name, parent_id = e_parent_id entry, cat_mode = m,
            extends_enum_category = e_extends_enum_category entry, intents = ints,
            child_ids = [], on_complete = oc\<rparr>)))))"

definition add_category ::
  "(category_id, category) dict \<Rightarrow> raw_entry \<Rightarrow> (category_id, category) dict result" where
  "add_category by_id entry =
     bindE (parse_category entry) (\<lambda>c.
       if cat_id c \<in> set (dkeys by_id)
       then Inl (SceneValidationError ''duplicate category id'' (cat_id c))
       else Inr (dput (cat_id c) c by_id))"

section \<open>Wiring and reachability\<close>

definition wire_child ::
  "category_id \<Rightarrow> (category_id, category) dict \<Rightarrow> category \<Rightarrow> (category_id, category) dict result"
where
  "wire_child rid by_id c =
     (if cat_id c = rid then
        (if parent_id c \<noteq> None
         then Inl (SceneValidationError ''root category must have parent_id=null'' (cat_id c))
         else Inr by_id)
      else (case parent_id c of
        None \<Rightarrow> Inl (SceneValidationError ''non-root category is missing parent_id'' (cat_id c))
      | Some p \<Rightarrow>
          (case dget by_id p of
             None \<Rightarrow> Inl (SceneValidationError ''category points at unknown parent'' (cat_id c))
           | Some parent \<Rightarrow>
               Inr (dput p (parent\<lparr>child_ids := child_ids parent @ [cat_id c]\<rparr>) by_id))))"

text \<open>
  The depth-first search of \<open>_assert_acyclic\<close>. The end of the list is the top of the stack.
  Every iteration raises or adds a new key to \<open>seen\<close>, so the loop ends.
\<close>

function acyclic_loop ::
  "(category_id, category) dict \<Rightarrow> category_id set \<Rightarrow> category_id list \<Rightarrow> category_id set result"
where
  "acyclic_loop by_id seen stack =
     (if stack = [] then Inr seen
      else let cur = last stack in
        if cur \<in> seen then Inl (SceneValidationError ''cycle detected'' cur)
        else (case dget by_id cur of
                None \<Rightarrow> Inl (KeyError ''by_id'')
              | Some c \<Rightarrow> acyclic_loop by_id (insert cur seen) (butlast stack @ child_ids c)))"
  by pat_completeness auto
termination
proof (relation "measure (\<lambda>(by_id, seen, stack). card (set (dkeys by_id) - seen))", goal_cases)
  case 1
  show ?case by simp
next
  case (2 by_id seen stack cur c)
  then have "cur \<in> set (dkeys by_id)" and "cur \<notin> seen" by (auto dest: dget_Some_key)
  then have "set (dkeys by_id) - insert cur seen \<subset> set (dkeys by_id) - seen" by blast
  then have "card (set (dkeys by_id) - insert cur seen) < card (set (dkeys by_id) - seen)"
    by (intro psubset_card_mono) simp_all
  then show ?case by (simp only: in_measure case_prod_conv)
qed

declare acyclic_loop.simps [simp del]

definition assert_acyclic ::
  "(category_id, category) dict \<Rightarrow> category_id \<Rightarrow> unit result" where
  "assert_acyclic by_id rid =
     bindE (acyclic_loop by_id {} [rid]) (\<lambda>seen.
       if filter (\<lambda>k. k \<notin> seen) (dkeys by_id) \<noteq> []
       then Inl (SceneValidationError ''categories unreachable from root''
                   (hd (sort (filter (\<lambda>k. k \<notin> seen) (dkeys by_id)))))
       else Inr ())"

definition wire_children ::
  "(category_id, category) dict \<Rightarrow> category_id \<Rightarrow> (category_id, category) dict result" where
  "wire_children by_id rid =
     bindE (foldE (wire_child rid) by_id (dvalues by_id)) (\<lambda>by_id'.
     bindE (assert_acyclic by_id' rid) (\<lambda>_. Inr by_id'))"

section \<open>Validation\<close>

definition check_structural :: "category \<Rightarrow> unit result" where
  "check_structural c =
     (let p = props c; ordinary = ordinary_intents c; special = special_intents c in
      if ordinary \<noteq> [] \<and> \<not> may_hold_ordinary p
      then Inl (SceneValidationError ''may not hold ordinary intents'' (cat_id c))
      else if special \<noteq> [] \<and> \<not> may_hold_special p
      then Inl (SceneValidationError ''may not hold special intents'' (cat_id c))
      else if requires_special p \<and> special = []
      then Inl (SceneValidationError ''requires at least one special intent'' (cat_id c))
      else if forbids_children p \<and> child_ids c \<noteq> []
      then Inl (SceneValidationError ''may not have child categories'' (cat_id c))
      else if single_child_chain p \<and> 1 < length (child_ids c)
      then Inl (SceneValidationError ''must be a single-child chain'' (cat_id c))
      else Inr ())"

fun assert_unique ::
  "(category_id, category) dict \<Rightarrow> pystr set \<Rightarrow> category_id list \<Rightarrow> unit result" where
  "assert_unique by_id seen [] = Inr ()"
| "assert_unique by_id seen (cid # cids) =
     (case dget by_id cid of
        None \<Rightarrow> Inl (KeyError ''by_id'')
      | Some c \<Rightarrow>
          if cat_name c \<in> seen
          then Inl (SceneValidationError ''duplicate name'' (cat_name c))
          else assert_unique by_id (insert (cat_name c) seen) cids)"

definition check_extends :: "(category_id, category) dict \<Rightarrow> category \<Rightarrow> unit result" where
  "check_extends by_id c =
     (case extends_enum_category c of
        None \<Rightarrow> Inr ()
      | Some target_id \<Rightarrow>
          (case dget by_id target_id of
             None \<Rightarrow> Inl (SceneValidationError ''extends unknown category'' (cat_id c))
           | Some target \<Rightarrow>
               if cat_mode target \<noteq> ENUM
               then Inl (SceneValidationError ''extends_enum_category target must be ENUM'' target_id)
               else if cat_mode c = ENUM
               then Inl (SceneValidationError
                           ''ENUM category may not itself declare extends_enum_category'' (cat_id c))
               else Inr ()))"

definition build_tree :: "raw_scene \<Rightarrow> category_tree result" where
  "build_tree raw =
     bindE (foldE add_category [] (rs_categories raw)) (\<lambda>by_id.
     if rs_root_id raw \<notin> set (dkeys by_id)
     then Inl (SceneValidationError ''root_id not in categories'' (rs_root_id raw))
     else
     bindE (wire_children by_id (rs_root_id raw)) (\<lambda>by_id.
     bindE (forE check_structural (dvalues by_id)) (\<lambda>_.
     bindE (forE (\<lambda>c. assert_unique by_id {} (child_ids c)) (dvalues by_id)) (\<lambda>_.
     bindE (forE (check_extends by_id) (dvalues by_id)) (\<lambda>_.
       Inr \<lparr>root_id = rs_root_id raw, categories = by_id\<rparr>)))))"

text \<open>
  \<open>load_scene_from_dict\<close>: a mapping without \<open>root_id\<close> fails pydantic's validation, which is
  re-raised as \<open>SceneValidationError\<close>. \<open>load_scene\<close> reads the document through
  \<open>yaml.safe_load\<close>, which is the parameter \<open>read\<close>; \<open>None\<close> is a document that is not a mapping.
\<close>

type_synonym scene_data = "category_id option \<times> raw_entry list"

definition load_scene_from_dict :: "scene_data \<Rightarrow> category_tree result" where
  "load_scene_from_dict data =
     (case fst data of
        None \<Rightarrow> Inl (SceneValidationError ''invalid scene shape'' [])
      | Some r \<Rightarrow> build_tree \<lparr>rs_root_id = r, rs_categories = snd data\<rparr>)"

definition load_scene :: "('path \<Rightarrow> scene_data option) \<Rightarrow> 'path \<Rightarrow> category_tree result" where
  "load_scene read path =
     (case read path of
        None \<Rightarrow> Inl (SceneValidationError ''scene file must be a YAML mapping'' [])
      | Some data \<Rightarrow> load_scene_from_dict data)"

section \<open>Parsed categories\<close>

text \<open>What holds of the dictionary after the parsing loop.\<close>

definition parsed_dict :: "(category_id, category) dict \<Rightarrow> bool" where
  "parsed_dict d \<longleftrightarrow> wf_dict d \<and> (\<forall>(k, c) \<in> set d. cat_id c = k \<and> child_ids c = [])"

lemma parse_category_child_ids: "parse_category e = Inr c \<Longrightarrow> child_ids c = []"
  by (auto simp: parse_category_def result_simps Let_def)

lemma add_category_parsed:
  assumes "add_category d e = Inr d'" and "parsed_dict d"
  shows "parsed_dict d'"
proof -
  obtain c where c: "parse_category e = Inr c" "cat_id c \<notin> set (dkeys d)"
    "d' = dput (cat_id c) c d"
    using assms(1) by (auto simp: add_category_def result_simps split: if_splits)
  then have "d' = d @ [(cat_id c, c)]" by (simp add: dput_new)
  then show ?thesis using assms(2) c parse_category_child_ids [OF c(1)]
    by (auto simp: parsed_dict_def wf_dict_def)
qed

lemma foldE_parsed: "foldE add_category d es = Inr d' \<Longrightarrow> parsed_dict d \<Longrightarrow> parsed_dict d'"
  by (induction es arbitrary: d) (auto simp: result_simps dest: add_category_parsed)

section \<open>Wired categories\<close>

text \<open>
  The wiring loop as one map: each category receives, in file order, the identifiers of the
  processed non-root categories that name it as their parent.
\<close>

definition children_in :: "category_id \<Rightarrow> category list \<Rightarrow> category_id \<Rightarrow> category_id list" where
  "children_in rid cs k = map cat_id (filter (\<lambda>d. cat_id d \<noteq> rid \<and> parent_id d = Some k) cs)"

definition wired ::
  "category_id \<Rightarrow> category list \<Rightarrow> (category_id, category) dict \<Rightarrow> (category_id, category) dict"
where
  "wired rid cs d = map (\<lambda>(k, c). (k, c\<lparr>child_ids := children_in rid cs k\<rparr>)) d"

lemma dkeys_wired [simp]: "dkeys (wired rid cs d) = dkeys d"
  by (simp add: wired_def comp_def case_prod_beta)

lemma wf_dict_wired [simp]: "wf_dict (wired rid cs d) = wf_dict d"
  by (simp add: wf_dict_def)

lemma dget_wired:
  "dget (wired rid cs d) k = map_option (\<lambda>c. c\<lparr>child_ids := children_in rid cs k\<rparr>) (dget d k)"
  by (induction d) (auto simp: wired_def)

lemma dput_present:
  "wf_dict d \<Longrightarrow> k \<in> set (dkeys d) \<Longrightarrow>
     dput k v d = map (\<lambda>(k', v'). (k', if k' = k then v else v')) d"
proof (induction d)
  case (Cons p d)
  have "fst p \<notin> set (dkeys d)" using Cons.prems by (simp add: wf_dict_def)
  then have "map (\<lambda>(k', v'). (k', if k' = fst p then v else v')) d = d"
    by (intro map_idI) (auto simp: image_iff split: if_splits)
  then show ?case using Cons by (cases p) (auto simp: wf_dict_def)
qed simp

lemma wire_child_wired:
  assumes "wf_dict d" and "wire_child rid (wired rid cs d) c = Inr d'"
  shows "d' = wired rid (cs @ [c]) d \<and>
    (if cat_id c = rid then parent_id c = None
     else \<exists>p. parent_id c = Some p \<and> p \<in> set (dkeys d))"
proof (cases "cat_id c = rid")
  case True
  then show ?thesis using assms(2)
    by (auto simp: wire_child_def wired_def children_in_def split: if_splits)
next
  case False
  then obtain p parent where p: "parent_id c = Some p" "dget (wired rid cs d) p = Some parent"
    "d' = dput p (parent\<lparr>child_ids := child_ids parent @ [cat_id c]\<rparr>) (wired rid cs d)"
    using assms(2) by (auto simp: wire_child_def split: option.splits)
  have key: "p \<in> set (dkeys d)" using dget_Some_key [OF p(2)] by simp
  obtain c0 where c0: "dget d p = Some c0" "parent = c0\<lparr>child_ids := children_in rid cs p\<rparr>"
    using p(2) by (auto simp: dget_wired)
  have mem: "\<And>k' c'. (k', c') \<in> set d \<Longrightarrow> k' = p \<Longrightarrow> c' = c0"
    using c0(1) assms(1) dget_mem by fastforce
  have "d' = map (\<lambda>(k', v'). (k', if k' = p
      then parent\<lparr>child_ids := child_ids parent @ [cat_id c]\<rparr> else v')) (wired rid cs d)"
    unfolding p(3) using assms(1) key by (intro dput_present) auto
  also have "\<dots> = wired rid (cs @ [c]) d"
    unfolding wired_def map_map
    using False p(1) c0(2) mem by (intro map_cong) (auto simp: children_in_def)
  finally have "d' = wired rid (cs @ [c]) d" .
  then show ?thesis using False p(1) key by simp
qed

lemma foldE_wired:
  assumes "wf_dict d"
  shows "foldE (wire_child rid) (wired rid cs d) rest = Inr d' \<Longrightarrow>
    d' = wired rid (cs @ rest) d \<and>
    (\<forall>c \<in> set rest. if cat_id c = rid then parent_id c = None
       else \<exists>p. parent_id c = Some p \<and> p \<in> set (dkeys d))"
proof (induction rest arbitrary: cs)
  case (Cons c rest)
  then obtain d1 where "wire_child rid (wired rid cs d) c = Inr d1"
    and rest: "foldE (wire_child rid) d1 rest = Inr d'"
    by (auto simp: bindE_Inr_iff)
  then have d1: "d1 = wired rid (cs @ [c]) d"
    "if cat_id c = rid then parent_id c = None
     else \<exists>p. parent_id c = Some p \<and> p \<in> set (dkeys d)"
    using wire_child_wired [OF assms] by blast+
  show ?case using Cons.IH [of "cs @ [c]"] rest d1 by auto
qed simp

lemma wired_Nil: "parsed_dict d \<Longrightarrow> wired rid [] d = d"
  unfolding wired_def children_in_def by (rule map_idI) (auto simp: parsed_dict_def)

section \<open>Reachability\<close>

lemma acyclic_loop_unfold:
  "stack \<noteq> [] \<Longrightarrow> last stack \<notin> seen \<Longrightarrow> dget d (last stack) = Some c \<Longrightarrow>
     acyclic_loop d seen stack =
       acyclic_loop d (insert (last stack) seen) (butlast stack @ child_ids c)"
  by (subst acyclic_loop.simps) (simp add: Let_def)

text \<open>Everything the search marks as seen hangs below the root.\<close>

lemma acyclic_loop_chain:
  "acyclic_loop d seen stack = Inr seen' \<Longrightarrow> d = categories t \<Longrightarrow>
     (\<And>k c i. dget d k = Some c \<Longrightarrow> i \<in> set (child_ids c) \<Longrightarrow> i \<in> set (dkeys d)) \<Longrightarrow>
     (\<And>k. k \<in> seen \<union> set stack \<Longrightarrow> \<exists>ids. chain t k ids) \<Longrightarrow>
     k \<in> seen' \<Longrightarrow> \<exists>ids. chain t k ids"
proof (induction d seen stack rule: acyclic_loop.induct)
  case (1 d seen stack)
  show ?case
  proof (cases "stack = []")
    case True
    then have "seen' = seen" using "1.prems"(1) by (simp add: acyclic_loop.simps)
    then show ?thesis using "1.prems"(4,5) by auto
  next
    case False
    define cur where "cur = last stack"
    have new: "cur \<notin> seen"
      using "1.prems"(1) False by (auto simp: acyclic_loop.simps [of d seen] cur_def Let_def split: if_splits)
    obtain c where c: "dget d cur = Some c"
      using "1.prems"(1) False new
      by (auto simp: acyclic_loop.simps [of d seen] cur_def Let_def split: option.splits)
    obtain ids where ids: "chain t cur ids" using "1.prems"(4) [of cur] False by (auto simp: cur_def)
    have kids: "\<exists>ids. chain t i ids" if i: "i \<in> set (child_ids c)" for i
    proof -
      obtain e where "dget d i = Some e"
        using "1.prems"(3) [OF c i] by (cases "dget d i") (auto simp: dget_None_key)
      then have "chain t i (ids @ [i])" using ids c i "1.prems"(2) by (auto intro: chain.child)
      then show ?thesis ..
    qed
    have run: "acyclic_loop d (insert cur seen) (butlast stack @ child_ids c) = Inr seen'"
      using "1.prems"(1) acyclic_loop_unfold [OF False] new c by (simp add: cur_def)
    show ?thesis
    proof (rule "1.IH" [OF False cur_def new c run "1.prems"(2)])
      fix k assume "k \<in> insert cur seen \<union> set (butlast stack @ child_ids c)"
      then show "\<exists>ids. chain t k ids"
        using "1.prems"(4) ids kids by (auto dest: in_set_butlastD)
    qed (use "1.prems"(3,5) in auto)
  qed
qed

text \<open>
  The search never finds a node twice: a child has one parent and is pushed once, and the root
  has none. Cycles of parent pointers are disjoint from the root's tree and are reported as
  unreachable categories, so the \<open>cycle detected\<close> branch is dead after wiring.
\<close>

lemma acyclic_loop_no_cycle:
  assumes par: "\<And>k c i. dget d k = Some c \<Longrightarrow> i \<in> set (child_ids c) \<Longrightarrow> par i = Some k"
    and dist: "\<And>k c. dget d k = Some c \<Longrightarrow> distinct (child_ids c)"
  shows "distinct stack \<Longrightarrow> set stack \<inter> seen = {} \<Longrightarrow>
    (\<And>k. k \<in> seen \<union> set stack \<Longrightarrow> par k = None \<or> (\<exists>p \<in> seen. par k = Some p)) \<Longrightarrow>
    acyclic_loop d seen stack \<noteq> Inl (SceneValidationError ''cycle detected'' x)"
  using par dist
proof (induction d seen stack rule: acyclic_loop.induct)
  case (1 d seen stack)
  show ?case
  proof (cases "stack = []")
    case True
    then show ?thesis by (simp add: acyclic_loop.simps)
  next
    case False
    define cur where "cur = last stack"
    have "cur \<in> set stack" using False by (simp add: cur_def)
    then have cur: "cur \<in> set stack" "cur \<notin> seen" using "1.prems"(2) by auto
    show ?thesis
    proof (cases "dget d cur")
      case None
      then show ?thesis using False cur
        by (simp add: acyclic_loop.simps [of d seen] cur_def Let_def)
    next
      case (Some c)
      have stack: "stack = butlast stack @ [cur]" using False by (simp add: cur_def)
      then have d1: "distinct (butlast stack)" "cur \<notin> set (butlast stack)"
        using "1.prems"(1) by (metis distinct_butlast, metis distinct_append disjoint_insert(2)
            list.set_intros(1) list.simps(15) disjoint_iff)
      have fresh: "i \<notin> seen \<union> set stack" if "i \<in> set (child_ids c)" for i
        using "1.prems"(3) [of i] "1.prems"(4) [OF Some that] cur(2) by auto
      have "acyclic_loop d (insert cur seen) (butlast stack @ child_ids c)
          \<noteq> Inl (SceneValidationError ''cycle detected'' x)"
      proof (rule "1.IH" [OF False cur_def cur(2) Some])
        show "distinct (butlast stack @ child_ids c)"
          using d1 "1.prems"(5) [OF Some] fresh by (auto dest: in_set_butlastD)
        show "set (butlast stack @ child_ids c) \<inter> insert cur seen = {}"
          using d1 cur fresh "1.prems"(2) by (auto dest: in_set_butlastD)
        show "par k = None \<or> (\<exists>p \<in> insert cur seen. par k = Some p)"
          if "k \<in> insert cur seen \<union> set (butlast stack @ child_ids c)" for k
          using that "1.prems"(3) [of k] "1.prems"(4) [OF Some, of k] cur(1)
          by (auto dest: in_set_butlastD)
      qed (use "1.prems"(4,5) in auto)
      then show ?thesis using acyclic_loop_unfold [OF False] cur Some by (simp add: cur_def)
    qed
  qed
qed

section \<open>What a loaded tree satisfies\<close>

text \<open>The mode table read as constraints on one category.\<close>

definition obeys_mode :: "category \<Rightarrow> bool" where
  "obeys_mode c \<longleftrightarrow>
     (ordinary_intents c \<noteq> [] \<longrightarrow> may_hold_ordinary (props c)) \<and>
     (special_intents c \<noteq> [] \<longrightarrow> may_hold_special (props c)) \<and>
     (requires_special (props c) \<longrightarrow> special_intents c \<noteq> []) \<and>
     (forbids_children (props c) \<longrightarrow> child_ids c = []) \<and>
     (single_child_chain (props c) \<longrightarrow> length (child_ids c) \<le> 1)"

definition obeys_enum :: "category_tree \<Rightarrow> category \<Rightarrow> bool" where
  "obeys_enum t c \<longleftrightarrow>
     (\<forall>e. extends_enum_category c = Some e \<longrightarrow>
        cat_mode c \<noteq> ENUM \<and> (\<exists>d. dget (categories t) e = Some d \<and> cat_mode d = ENUM))"

definition valid_scene :: "category_tree \<Rightarrow> bool" where
  "valid_scene t \<longleftrightarrow>
     wf_tree t \<and>
     (\<forall>k c. dget (categories t) k = Some c \<longrightarrow> obeys_mode c \<and> obeys_enum t c)"

lemma check_structural_iff: "check_structural c = Inr () \<longleftrightarrow> obeys_mode c"
  by (auto simp: check_structural_def obeys_mode_def Let_def)

lemma check_extends_iff:
  "check_extends (categories t) c = Inr () \<longleftrightarrow> obeys_enum t c"
  by (auto simp: check_extends_def obeys_enum_def split: option.splits)

lemma assert_unique_distinct:
  "assert_unique d seen cids = Inr () \<Longrightarrow>
     distinct (map (\<lambda>i. cat_name (the (dget d i))) cids) \<and>
     (\<forall>i \<in> set cids. cat_name (the (dget d i)) \<notin> seen)"
  by (induction d seen cids rule: assert_unique.induct) (auto split: option.splits if_splits)

lemma distinct_children_in: "distinct (map cat_id cs) \<Longrightarrow> distinct (children_in rid cs k)"
  unfolding children_in_def by (rule distinct_map_filter)

lemma parsed_ids: "parsed_dict d \<Longrightarrow> map cat_id (dvalues d) = dkeys d"
  by (auto simp: parsed_dict_def)

text \<open>What the wiring stage hands to the validation stage.\<close>

lemma wire_children_wired:
  assumes "parsed_dict d" and "wire_children d rid = Inr d'"
  shows "d' = wired rid (dvalues d) d" and "assert_acyclic d' rid = Inr ()"
    and "\<And>c. c \<in> set (dvalues d) \<Longrightarrow>
      if cat_id c = rid then parent_id c = None else \<exists>p. parent_id c = Some p \<and> p \<in> set (dkeys d)"
proof -
  obtain d1 where d1: "foldE (wire_child rid) d (dvalues d) = Inr d1"
    and a: "assert_acyclic d1 rid = Inr ()" and "d' = d1"
    using assms(2) by (auto simp: wire_children_def bindE_Inr_iff)
  have "foldE (wire_child rid) (wired rid [] d) (dvalues d) = Inr d1"
    using d1 wired_Nil [OF assms(1)] by simp
  then have *: "d1 = wired rid ([] @ dvalues d) d \<and>
    (\<forall>c \<in> set (dvalues d). if cat_id c = rid then parent_id c = None
       else \<exists>p. parent_id c = Some p \<and> p \<in> set (dkeys d))"
    using assms(1) by (intro foldE_wired) (simp_all add: parsed_dict_def)
  show "d' = wired rid (dvalues d) d" using * \<open>d' = d1\<close> by simp
  show "assert_acyclic d' rid = Inr ()" using a \<open>d' = d1\<close> by simp
  show "\<And>c. c \<in> set (dvalues d) \<Longrightarrow>
      if cat_id c = rid then parent_id c = None else \<exists>p. parent_id c = Some p \<and> p \<in> set (dkeys d)"
    using * by blast
qed

lemma wired_child:
  assumes "parsed_dict d" and "dget (wired rid (dvalues d) d) k = Some c"
    and "i \<in> set (child_ids c)"
  shows "i \<noteq> rid \<and> (\<exists>e. dget (wired rid (dvalues d) d) i = Some e \<and> parent_id e = Some k)"
proof -
  obtain e where e: "e \<in> set (dvalues d)" "cat_id e = i" "i \<noteq> rid" "parent_id e = Some k"
    using assms(2,3) by (force simp: dget_wired children_in_def)
  then have "(i, e) \<in> set d" using assms(1) by (auto simp: parsed_dict_def)
  then have "dget d i = Some e" using assms(1) by (simp add: parsed_dict_def dget_mem)
  then show ?thesis using e by (simp add: dget_wired)
qed

lemma assert_acyclic_reach:
  assumes "assert_acyclic (categories t) (root_id t) = Inr ()"
    and "dget (categories t) (root_id t) = Some r"
    and "\<And>k c i. dget (categories t) k = Some c \<Longrightarrow> i \<in> set (child_ids c) \<Longrightarrow>
      i \<in> set (dkeys (categories t))"
    and "dget (categories t) k = Some c"
  shows "\<exists>ids. chain t k ids"
proof -
  obtain seen where seen: "acyclic_loop (categories t) {} [root_id t] = Inr seen"
    and all: "filter (\<lambda>k. k \<notin> seen) (dkeys (categories t)) = []"
    using assms(1) by (auto simp: assert_acyclic_def bindE_Inr_iff split: if_splits)
  have "k \<in> seen" using all dget_Some_key [OF assms(4)] by (auto simp: filter_empty_conv)
  then show ?thesis
    using acyclic_loop_chain [OF seen refl] assms(2,3) chain.root [OF assms(2)] by auto
qed

lemma wired_wf_tree:
  assumes d: "parsed_dict d" and rid: "rid \<in> set (dkeys d)"
    and w: "wire_children d rid = Inr d'"
    and names: "\<And>c. c \<in> set (dvalues d') \<Longrightarrow> assert_unique d' {} (child_ids c) = Inr ()"
    and t: "t = \<lparr>root_id = rid, categories = d'\<rparr>"
  shows "wf_tree t"
proof -
  note d' = wire_children_wired(1) [OF d w]
  have wf: "wf_dict d'" using d by (simp add: d' parsed_dict_def)
  obtain r0 where r0: "dget d rid = Some r0" using rid by (cases "dget d rid") (auto simp: dget_None_key)
  then have mem: "(rid, r0) \<in> set d" by (rule map_of_SomeD)
  then have "cat_id r0 = rid" and "r0 \<in> set (dvalues d)" using d by (force simp: parsed_dict_def)+
  then have "parent_id r0 = None" using wire_children_wired(3) [OF d w, of r0] by simp
  then have root: "\<exists>r. dget d' rid = Some r \<and> parent_id r = None" using r0 by (simp add: d' dget_wired)
  have kids: "\<exists>e. dget d' i = Some e \<and> parent_id e = Some k"
    if "dget d' k = Some c" "i \<in> set (child_ids c)" for k c i
    using wired_child [OF d] that by (auto simp: d')
  have reach: "\<exists>ids. chain t k ids" if "dget d' k = Some c" for k c
  proof -
    have keys: "i \<in> set (dkeys d')" if "dget d' k = Some c" "i \<in> set (child_ids c)" for k c i
      using kids [OF that] dget_Some_key by metis
    obtain r where "dget (categories t) (root_id t) = Some r" using root by (auto simp: t)
    then show ?thesis
      using assert_acyclic_reach [of t r k c] wire_children_wired(2) [OF d w] keys that
      by (simp add: t)
  qed
  have "cat_id c = k \<and> distinct (child_ids c)" if "dget d' k = Some c" for k c
  proof -
    obtain c0 where "dget d k = Some c0" "c = c0\<lparr>child_ids := children_in rid (dvalues d) k\<rparr>"
      using \<open>dget d' k = Some c\<close> by (auto simp: d' dget_wired)
    moreover have "distinct (map cat_id (dvalues d))"
      unfolding parsed_ids [OF d] using d by (simp add: parsed_dict_def wf_dict_def)
    ultimately show ?thesis using d distinct_children_in
      by (auto simp: parsed_dict_def dest!: map_of_SomeD)
  qed
  moreover have "distinct (map (\<lambda>i. cat_name (the (dget d' i))) (child_ids c))"
    if "dget d' k = Some c" for k c
    using that names [of c] assert_unique_distinct [of d' "{}" "child_ids c"]
    by (force dest: map_of_SomeD)
  ultimately show ?thesis
    unfolding wf_tree_def using wf root kids reach by (simp add: t)
qed

lemma build_tree_stages:
  assumes "build_tree raw = Inr t"
  shows "\<exists>d d'. parsed_dict d \<and> rs_root_id raw \<in> set (dkeys d) \<and>
    wire_children d (rs_root_id raw) = Inr d' \<and>
    (\<forall>c \<in> set (dvalues d'). check_structural c = Inr ()) \<and>
    (\<forall>c \<in> set (dvalues d'). assert_unique d' {} (child_ids c) = Inr ()) \<and>
    (\<forall>c \<in> set (dvalues d'). check_extends d' c = Inr ()) \<and>
    t = \<lparr>root_id = rs_root_id raw, categories = d'\<rparr>"
proof -
  obtain d where d: "foldE add_category [] (rs_categories raw) = Inr d"
    using assms by (auto simp: build_tree_def bindE_Inr_iff)
  have "parsed_dict d" by (rule foldE_parsed [OF d]) (simp add: parsed_dict_def)
  then show ?thesis using assms d
    by (auto simp: build_tree_def bindE_Inr_iff forE_Inr_iff simp del: set_map split: if_splits)
qed

lemma build_tree_valid:
  assumes "build_tree raw = Inr t"
  shows "valid_scene t"
proof -
  obtain d d' where s: "parsed_dict d" "rs_root_id raw \<in> set (dkeys d)"
    "wire_children d (rs_root_id raw) = Inr d'"
    "\<forall>c \<in> set (dvalues d'). check_structural c = Inr ()"
    "\<forall>c \<in> set (dvalues d'). assert_unique d' {} (child_ids c) = Inr ()"
    "\<forall>c \<in> set (dvalues d'). check_extends d' c = Inr ()"
    "t = \<lparr>root_id = rs_root_id raw, categories = d'\<rparr>"
    using build_tree_stages [OF assms] by blast
  have "obeys_mode c \<and> obeys_enum t c" if "dget (categories t) k = Some c" for k c
  proof -
    have "c \<in> set (dvalues d')" using that map_of_SomeD [of d' k c] by (force simp: s(7))
    then have "check_structural c = Inr ()" and "check_extends (categories t) c = Inr ()"
      using s(4,6,7) by auto
    then show ?thesis by (simp add: check_structural_iff check_extends_iff)
  qed
  moreover have "wf_tree t" using s(5) by (intro wired_wf_tree [OF s(1-3) _ s(7)]) blast
  ultimately show ?thesis by (simp add: valid_scene_def)
qed

lemma load_scene_from_dict_valid: "load_scene_from_dict data = Inr t \<Longrightarrow> valid_scene t"
  by (auto simp: load_scene_from_dict_def build_tree_valid split: option.splits)

lemma resolve_path_of:
  assumes "wf_tree t" and "dget (categories t) k = Some c"
    and names: "\<And>i d. dget (categories t) i = Some d \<Longrightarrow> clean_name (cat_name d)"
  shows "\<exists>p. path_of t k = Some (Inr p) \<and> resolve_path t p = Inr c"
proof -
  obtain ids where ids: "chain t k ids" using wf_treeD(7) [OF assms(1,2)] by blast
  obtain r where r: "dget (categories t) (root_id t) = Some r" using wf_treeD(2) [OF assms(1)] by blast
  let ?ns = "chain_names t ids"
  have "clean_name n" if n: "n \<in> set ?ns" for n
  proof -
    obtain i where i: "i \<in> set ids" "n = cat_name (the (dget (categories t) i))"
      using n by (auto simp: chain_names_def)
    then obtain d where "dget (categories t) i = Some d"
      using chain_mem [OF ids] by (cases "dget (categories t) i") (auto simp: dget_None_key)
    then show ?thesis using names i by simp
  qed
  moreover have ne: "?ns \<noteq> []" using chain_ne [OF ids] by (simp add: chain_names_def)
  ultimately have parts: "path_parts (py_join (u ''->'') ?ns) = ?ns" by (rule path_parts_join [rotated])
  have hd: "hd ?ns = cat_name r"
    using chain_hd [OF ids] chain_ne [OF ids] r by (simp add: chain_names_def hd_map)
  have "resolve_path t (py_join (u ''->'') ?ns) = Inr c"
    using parts ne hd r resolve_chain [OF assms(1) r ids] assms(2)
    by (cases ?ns) (auto simp: resolve_path_def)
  then show ?thesis using path_of_chain [OF assms(1) ids] by blast
qed

section \<open>No cycle is ever reported\<close>

lemma parse_category_tag:
  "parse_category e = Inl (SceneValidationError m x) \<Longrightarrow> m = ''unsupported on_complete.type''"
proof -
  have mapE_tag: "mapE f rs \<noteq> Inl (SceneValidationError m x)"
    if "\<And>r. f r \<noteq> Inl (SceneValidationError m x)" for f :: "raw_intent \<Rightarrow> intent result" and rs
    using that by (induction rs) (auto simp: bindE_Inl_iff)
  assume "parse_category e = Inl (SceneValidationError m x)"
  then show ?thesis
    by (auto simp: parse_category_def bindE_Inl_iff Let_def parse_on_complete_def
        at_most_one_default_def require_key_def intent_validate_def mode_of_value_def mapE_tag
        split: option.splits if_splits)
qed

lemma add_category_tag:
  "foldE add_category d es = Inl (SceneValidationError m x) \<Longrightarrow>
     m = ''unsupported on_complete.type'' \<or> m = ''duplicate category id''"
  by (induction es arbitrary: d)
    (auto simp: bindE_Inl_iff add_category_def dest!: parse_category_tag split: if_splits)

lemma wire_child_tag: "foldE (wire_child rid) d cs = Inl (SceneValidationError m x) \<Longrightarrow> m \<noteq> ''cycle detected''"
  by (induction cs arbitrary: d)
    (auto simp: bindE_Inl_iff wire_child_def split: if_splits option.splits)

lemma assert_unique_tag:
  "assert_unique d seen cids \<noteq> Inl (SceneValidationError ''cycle detected'' x)"
  by (induction d seen cids rule: assert_unique.induct) (auto split: option.splits)

lemma check_tags:
  "check_structural c \<noteq> Inl (SceneValidationError ''cycle detected'' x)"
  "check_extends d c \<noteq> Inl (SceneValidationError ''cycle detected'' x)"
  by (auto simp: check_structural_def check_extends_def Let_def split: option.splits)

lemma assert_acyclic_no_cycle:
  assumes d: "parsed_dict d" and rid: "rid \<in> set (dkeys d)"
    and w: "foldE (wire_child rid) d (dvalues d) = Inr d'"
  shows "assert_acyclic d' rid \<noteq> Inl (SceneValidationError ''cycle detected'' x)"
proof -
  have "foldE (wire_child rid) (wired rid [] d) (dvalues d) = Inr d'"
    using w wired_Nil [OF d] by simp
  then have d': "d' = wired rid (dvalues d) d" and
    rp: "\<And>c. c \<in> set (dvalues d) \<Longrightarrow> cat_id c = rid \<Longrightarrow> parent_id c = None"
    using foldE_wired [of d rid "[]" "dvalues d" d'] d by (auto simp: parsed_dict_def)
  define par where "par i = (case dget d' i of None \<Rightarrow> None | Some e \<Rightarrow> parent_id e)" for i
  obtain r where r: "dget d rid = Some r" using rid by (cases "dget d rid") (auto simp: dget_None_key)
  then have "(rid, r) \<in> set d" by (rule map_of_SomeD)
  then have "parent_id r = None" using d rp [of r] by (force simp: parsed_dict_def)
  then have root: "par rid = None" using r by (simp add: par_def d' dget_wired)
  have "distinct (map cat_id (dvalues d))"
    unfolding parsed_ids [OF d] using d by (simp add: parsed_dict_def wf_dict_def)
  then have dist: "distinct (child_ids c)" if "dget d' k = Some c" for k c
    using that distinct_children_in by (auto simp: d' dget_wired)
  have "par i = Some k" if "dget d' k = Some c" "i \<in> set (child_ids c)" for k c i
    using wired_child [OF d] that by (fastforce simp: d' par_def)
  then have "acyclic_loop d' {} [rid] \<noteq> Inl (SceneValidationError ''cycle detected'' x)"
    using dist root by (intro acyclic_loop_no_cycle [where par = par]) auto
  then show ?thesis by (auto simp: assert_acyclic_def bindE_Inl_iff)
qed

section \<open>Properties\<close>

text \<open>
  C1. The loader's contract ("runtime must never see an inconsistent tree"): whatever document
  is read, a tree that \<open>load_scene\<close> returns has identifiers as keys, a parentless root, agreeing
  parent and child pointers, distinct child names, every category reachable from the root, and
  every category obeys the bits of its mode and the enum rules.
\<close>

theorem load_scene_valid:
  assumes "load_scene read path = Inr t"
  shows "valid_scene t"
proof -
  obtain data where "load_scene_from_dict data = Inr t"
    using assms by (auto simp: load_scene_def split: option.splits)
  then show ?thesis by (rule load_scene_from_dict_valid)
qed

text \<open>
  C34. Path round trip: on a loaded tree whose names are non-empty and do not contain the path
  separator, \<open>path_of\<close> returns for every category, and \<open>resolve_path\<close> leads from that path back
  to the same category.
\<close>

theorem path_roundtrip:
  assumes "load_scene_from_dict data = Inr t"
    and "\<And>i d. dget (categories t) i = Some d \<Longrightarrow> clean_name (cat_name d)"
    and "dget (categories t) k = Some c"
  shows "\<exists>p. path_of t k = Some (Inr p) \<and> resolve_path t p = Inr c"
  using load_scene_from_dict_valid [OF assms(1)] assms(2,3)
  by (intro resolve_path_of) (auto simp: valid_scene_def)

text \<open>
  The \<open>cycle detected\<close> error cannot occur: child pointers are derived from single parent
  pointers and the root has no parent, so a cycle of parents is always reported as unreachable
  categories instead.
\<close>

theorem build_tree_never_cycle:
  "build_tree raw \<noteq> Inl (SceneValidationError ''cycle detected'' x)"
proof
  assume b: "build_tree raw = Inl (SceneValidationError ''cycle detected'' x)"
  then obtain d where d: "foldE add_category [] (rs_categories raw) = Inr d"
    and rid: "rs_root_id raw \<in> set (dkeys d)"
    by (auto simp: build_tree_def bindE_Inl_iff dest!: add_category_tag split: if_splits)
  have pd: "parsed_dict d" by (rule foldE_parsed [OF d]) (simp add: parsed_dict_def)
  have "wire_children d (rs_root_id raw) = Inl (SceneValidationError ''cycle detected'' x)"
    using b d rid assert_unique_tag check_tags
    by (auto simp: build_tree_def bindE_Inl_iff simp del: set_map dest!: forE_Inl split: if_splits)
  then show False using assert_acyclic_no_cycle [OF pd rid]
    by (auto simp: wire_children_def bindE_Inl_iff dest!: wire_child_tag)
qed

end
