(* ===== verification/Example_Scenes.thy ===== *)
theory Example_Scenes
  imports Scene_Loader
begin

text \<open>
  Concrete scenes used by the witnesses: a small bank scene in the manner of
  \<open>configs/scenes\<close> that exercises ordinary and special intents and an enum pool, and a scene in
  which a category below an ENUM node extends that node, and a menu. The loader accepts all.
\<close>

definition raw_cat ::
  "string \<Rightarrow> string \<Rightarrow> string option \<Rightarrow> string \<Rightarrow> string option \<Rightarrow> raw_intent list \<Rightarrow> raw_entry"
where
  "raw_cat i n p m e rs =
     \<lparr>e_id = Some (u i), e_name = Some (u n), e_parent_id = map_option (map of_char) p,
      e_mode = Some (u m), e_extends_enum_category = map_option (map of_char) e,
      e_intents = Some rs, e_on_complete = None\<rparr>"

definition raw_int :: "string \<Rightarrow> string list \<Rightarrow> bool \<Rightarrow> string option \<Rightarrow> raw_intent" where
  "raw_int i qs sp fu =
     \<lparr>ri_id = Some (u i), ri_question = map (map of_char) qs, ri_answer = None, ri_slots = [],
      ri_is_special = sp, ri_follow_up = map_option (map of_char) fu, ri_switching = None\<rparr>"

definition mk_cat ::
  "string \<Rightarrow> string \<Rightarrow> string option \<Rightarrow> mode \<Rightarrow> string option \<Rightarrow> intent list \<Rightarrow> string list \<Rightarrow> category"
where
  "mk_cat i n p m e ints kids =
     \<lparr>cat_id = u i, cat_name = u n, parent_id = map_option (map of_char) p, cat_mode = m,
      extends_enum_category = map_option (map of_char) e, intents = ints,
      child_ids = map (map of_char) kids, on_complete = None\<rparr>"

definition mk_int :: "string \<Rightarrow> string \<Rightarrow> string list \<Rightarrow> bool \<Rightarrow> string option \<Rightarrow> intent" where
  "mk_int i c qs sp fu =
     \<lparr>intent_id = u i, intent_category_id = u c, question = map (map of_char) qs, answer = None,
      intent_slots = [], is_special = sp, follow_up = map_option (map of_char) fu,
      switching = None\<rparr>"

definition bank_raw :: raw_scene where
  "bank_raw = \<lparr>rs_root_id = u ''root'', rs_categories =
     [raw_cat ''root'' ''ROOT'' None ''STANDARD'' None [raw_int ''hi'' [''hello''] False None],
      raw_cat ''card'' ''Card'' (Some ''root'') ''DRILLDOWN'' None
        [raw_int ''lost'' [''lost card''] False None,
         raw_int ''hook'' [''card''] True (Some ''ROOT->Card'')],
      raw_cat ''loc'' ''Loc'' (Some ''root'') ''STANDARD'' (Some ''city'') [],
      raw_cat ''city'' ''City'' (Some ''root'') ''ENUM'' None [raw_int ''bj'' [''beijing''] False None]]\<rparr>"

definition bank_tree :: category_tree where
  "bank_tree = \<lparr>root_id = u ''root'', categories =
     [(u ''root'', mk_cat ''root'' ''ROOT'' None STANDARD None
         [mk_int ''hi'' ''root'' [''hello''] False None] [''card'', ''loc'', ''city'']),
      (u ''card'', mk_cat ''card'' ''Card'' (Some ''root'') DRILLDOWN None
         [mk_int ''lost'' ''card'' [''lost card''] False None,
          mk_int ''hook'' ''card'' [''card''] True (Some ''ROOT->Card'')] []),
      (u ''loc'', mk_cat ''loc'' ''Loc'' (Some ''root'') STANDARD (Some ''city'') [] []),
      (u ''city'', mk_cat ''city'' ''City'' (Some ''root'') ENUM None
         [mk_int ''bj'' ''city'' [''beijing''] False None] [])]\<rparr>"

lemma bank_loads: "build_tree bank_raw = Inr bank_tree"
  by code_simp

lemma bank_loads_from_dict:
  "load_scene_from_dict (Some (u ''root''), rs_categories bank_raw) = Inr bank_tree"
  using bank_loads by (simp add: load_scene_from_dict_def bank_raw_def)

text \<open>A STANDARD category below an ENUM node that extends the node it lies under.\<close>

definition enum_loop_raw :: raw_scene where
  "enum_loop_raw = \<lparr>rs_root_id = u ''r'', rs_categories =
     [raw_cat ''r'' ''R'' None ''STANDARD'' None [],
      raw_cat ''e'' ''E'' (Some ''r'') ''ENUM'' None [],
      raw_cat ''c'' ''C'' (Some ''e'') ''STANDARD'' (Some ''e'') []]\<rparr>"

definition enum_loop_e :: category where
  "enum_loop_e = mk_cat ''e'' ''E'' (Some ''r'') ENUM None [] [''c'']"

definition enum_loop_c :: category where
  "enum_loop_c = mk_cat ''c'' ''C'' (Some ''e'') STANDARD (Some ''e'') [] []"

definition enum_loop_tree :: category_tree where
  "enum_loop_tree = \<lparr>root_id = u ''r'', categories =
     [(u ''r'', mk_cat ''r'' ''R'' None STANDARD None [] [''e'']),
      (u ''e'', enum_loop_e), (u ''c'', enum_loop_c)]\<rparr>"

lemma enum_loop_loads: "build_tree enum_loop_raw = Inr enum_loop_tree"
  by code_simp

text \<open>A BRANCHING menu with one branch; the intent below the branch must stay out of the pool.\<close>

definition menu_raw :: raw_scene where
  "menu_raw = \<lparr>rs_root_id = u ''m'', rs_categories =
     [raw_cat ''m'' ''M'' None ''BRANCHING'' None [raw_int ''ask'' [''which one''] True None],
      raw_cat ''b'' ''B'' (Some ''m'') ''DRILLDOWN'' None [raw_int ''pick'' [''first''] True None],
      raw_cat ''d'' ''D'' (Some ''b'') ''STANDARD'' None [raw_int ''deep'' [''deep''] False None]]\<rparr>"

definition menu_root :: category where
  "menu_root = mk_cat ''m'' ''M'' None BRANCHING None
     [mk_int ''ask'' ''m'' [''which one''] True None] [''b'']"

definition menu_tree :: category_tree where
  "menu_tree = \<lparr>root_id = u ''m'', categories =
     [(u ''m'', menu_root),
      (u ''b'', mk_cat ''b'' ''B'' (Some ''m'') DRILLDOWN None
         [mk_int ''pick'' ''b'' [''first''] True None] [''d'']),
      (u ''d'', mk_cat ''d'' ''D'' (Some ''b'') STANDARD None
         [mk_int ''deep'' ''d'' [''deep''] False None] [])]\<rparr>"

lemma menu_loads: "build_tree menu_raw = Inr menu_tree"
  by code_simp

text \<open>A one-category scene whose only intent has a follow-up path without a single name in it.\<close>

definition arrow_raw :: raw_scene where
  "arrow_raw = \<lparr>rs_root_id = u ''r'', rs_categories =
     [raw_cat ''r'' ''R'' None ''STANDARD'' None [raw_int ''go'' [''go on''] False (Some ''->'')]]\<rparr>"

definition arrow_intent :: intent where
  "arrow_intent = mk_int ''go'' ''r'' [''go on''] False (Some ''->'')"

definition arrow_tree :: category_tree where
  "arrow_tree = \<lparr>root_id = u ''r'', categories =
     [(u ''r'', mk_cat ''r'' ''R'' None STANDARD None [arrow_intent] [])]\<rparr>"

lemma arrow_loads: "load_scene_from_dict (Some (u ''r''), rs_categories arrow_raw) = Inr arrow_tree"
  by code_simp

section \<open>The loader on the bank scene\<close>

text \<open>A file system with one scene file.\<close>

definition bank_file :: "nat \<Rightarrow> scene_data option" where
  "bank_file path = (if path = 0 then Some (Some (u ''root''), rs_categories bank_raw) else None)"

lemma bank_loads_from_file: "load_scene bank_file 0 = Inr bank_tree"
  using bank_loads_from_dict by (simp add: load_scene_def bank_file_def)

theorem load_scene_valid_witness:
  "load_scene bank_file 0 = Inr bank_tree \<and> valid_scene bank_tree"
  using load_scene_valid [OF bank_loads_from_file] bank_loads_from_file by simp

lemma bank_names: "dget (categories bank_tree) i = Some d \<Longrightarrow> clean_name (cat_name d)"
  by (auto simp: bank_tree_def mk_cat_def clean_name_def sublist_code split: if_splits)

definition bank_city :: category where
  "bank_city = mk_cat ''city'' ''City'' (Some ''root'') ENUM None
     [mk_int ''bj'' ''city'' [''beijing''] False None] []"

lemma bank_city_get: "dget (categories bank_tree) (u ''city'') = Some bank_city"
  by code_simp

theorem path_roundtrip_witness:
  "\<exists>p. path_of bank_tree (u ''city'') = Some (Inr p) \<and> resolve_path bank_tree p = Inr bank_city"
  using path_roundtrip [OF bank_loads_from_dict bank_names bank_city_get] .

end
