(* ===== verification/Scope.thy ===== *)
theory Scope
  imports Scene_Loader Example_Scenes
begin

text \<open>
  Candidate pools, \<open>core/scope.py\<close>. The two mutually recursive collectors carry the number of
  interpreter frames left to them: Python bounds the depth of recursion, and a call that finds no
  frame left raises \<open>RecursionError\<close>. The theory shows what the pool contains (a declarative
  exposure relation), that a loaded scene whose enum subtrees declare no further enum pointer
  always gets its pool, and that the loader accepts scenes for which no number of frames is
  enough.
\<close>

section \<open>Collectors\<close>

fun initial_depth :: "search_depth \<Rightarrow> int option" where
  "initial_depth SD_IMMEDIATE = Some 1"
| "initial_depth SD_ALL = None"
| "initial_depth SD_NONE = Some 0"

text \<open>\<open>remaining_depth is None or remaining_depth > 0\<close>\<close>

definition budget_left :: "int option \<Rightarrow> bool" where
  "budget_left d = (case d of None \<Rightarrow> True | Some x \<Rightarrow> 0 < x)"

definition next_budget :: "int option \<Rightarrow> int option" where
  "next_budget d = map_option (\<lambda>x. x - 1) d"

definition own_view :: "category \<Rightarrow> intent list" where
  "own_view c =
     (if expose_ordinary (props c) then ordinary_intents c else []) @
     (if expose_special (props c) then special_intents c else [])"

fun collect_via_ancestor_view ::
    "nat \<Rightarrow> category_tree \<Rightarrow> category \<Rightarrow> int option \<Rightarrow> intent list result"
  and collect_enum_subtree :: "nat \<Rightarrow> category_tree \<Rightarrow> category \<Rightarrow> intent list result" where
  "collect_via_ancestor_view 0 t c d = Inl RecursionError"
| "collect_via_ancestor_view (Suc n) t c d =
     (if \<not> budget_left d then Inr []
      else
        bindE (if allow_penetration (props c) \<and> budget_left (next_budget d)
               then concat_mapE (\<lambda>k. bindE (tree_get t k) (\<lambda>child.
                      collect_via_ancestor_view n t child (next_budget d))) (child_ids c)
               else Inr []) (\<lambda>below.
        bindE (case extends_enum_category c of
                 None \<Rightarrow> Inr []
               | Some e \<Rightarrow>
                   if expose_ordinary (props c) \<or> expose_special (props c)
                   then bindE (tree_get t e) (\<lambda>enum_root. collect_enum_subtree n t enum_root)
                   else Inr []) (\<lambda>enum.
          Inr (own_view c @ below @ enum))))"
| "collect_enum_subtree 0 t r = Inl RecursionError"
| "collect_enum_subtree (Suc n) t r =
     (if cat_mode r \<noteq> ENUM
      then Inl (ValueError ''extends_enum_category must point at an ENUM node'')
      else collect_via_ancestor_view n t r None)"

definition scope :: "nat \<Rightarrow> category_tree \<Rightarrow> category_id \<Rightarrow> intent list result" where
  "scope frames t scene_id =
     bindE (tree_get t scene_id) (\<lambda>scene.
     if cat_mode scene = ENUM
     then Inl (ValueError ''is ENUM and cannot be used as a scene directly'')
     else
     bindE (if searches_down (props scene)
            then concat_mapE (\<lambda>k. bindE (tree_get t k) (\<lambda>child.
                   collect_via_ancestor_view frames t child (initial_depth (sdepth (props scene)))))
                   (child_ids scene)
            else Inr []) (\<lambda>below.
     bindE (case extends_enum_category scene of
              None \<Rightarrow> Inr []
            | Some e \<Rightarrow> bindE (tree_get t e) (\<lambda>enum_root. collect_enum_subtree frames t enum_root))
       (\<lambda>enum. Inr (ordinary_intents scene @ below @ enum))))"

declare collect_via_ancestor_view.simps(2) [simp del]

section \<open>What a category exposes\<close>

text \<open>
  The declarative reading of the mode bits: \<open>exposes t c d i\<close> says that an ancestor searching
  with depth budget \<open>d\<close> sees intent \<open>i\<close> at category \<open>c\<close>.
\<close>

inductive exposes :: "category_tree \<Rightarrow> category \<Rightarrow> int option \<Rightarrow> intent \<Rightarrow> bool" for t where
  own: "budget_left d \<Longrightarrow> i \<in> set (own_view c) \<Longrightarrow> exposes t c d i"
| below: "budget_left d \<Longrightarrow> allow_penetration (props c) \<Longrightarrow> budget_left (next_budget d) \<Longrightarrow>
    k \<in> set (child_ids c) \<Longrightarrow> dget (categories t) k = Some child \<Longrightarrow>
    exposes t child (next_budget d) i \<Longrightarrow> exposes t c d i"
| enum: "budget_left d \<Longrightarrow> extends_enum_category c = Some e \<Longrightarrow>
    expose_ordinary (props c) \<or> expose_special (props c) \<Longrightarrow>
    dget (categories t) e = Some r \<Longrightarrow> cat_mode r = ENUM \<Longrightarrow> exposes t r None i \<Longrightarrow>
    exposes t c d i"

inductive_simps exposes_iff: "exposes t c d i"

definition in_scope :: "category_tree \<Rightarrow> category \<Rightarrow> intent \<Rightarrow> bool" where
  "in_scope t scene i \<longleftrightarrow>
     i \<in> set (ordinary_intents scene) \<or>
     (searches_down (props scene) \<and>
       (\<exists>k \<in> set (child_ids scene). \<exists>child. dget (categories t) k = Some child \<and>
          exposes t child (initial_depth (sdepth (props scene))) i)) \<or>
     (\<exists>e r. extends_enum_category scene = Some e \<and> dget (categories t) e = Some r \<and>
        cat_mode r = ENUM \<and> exposes t r None i)"

lemma collect_enum_Inr_iff [result_simps]:
  "collect_enum_subtree n t r = Inr is \<longleftrightarrow>
     (\<exists>m. n = Suc m \<and> cat_mode r = ENUM \<and> collect_via_ancestor_view m t r None = Inr is)"
  by (cases n) auto

lemma concat_mapE_get:
  assumes "concat_mapE (\<lambda>k. bindE (tree_get t k) f) ks = Inr zs"
  shows "z \<in> set zs \<longleftrightarrow>
    (\<exists>k \<in> set ks. \<exists>c ys. dget (categories t) k = Some c \<and> f c = Inr ys \<and> z \<in> set ys)"
  using concat_mapE_ex_set [OF assms] by (fastforce simp: result_simps)

lemma collect_exposes:
  "collect_via_ancestor_view n t c d = Inr is \<Longrightarrow> i \<in> set is \<longleftrightarrow> exposes t c d i"
proof (induction n arbitrary: c d "is" rule: less_induct)
  case (less n)
  obtain m where n: "n = Suc m" using less.prems by (cases n) auto
  note IH = less.IH [unfolded n]
  show ?case
  proof (cases "budget_left d")
    case False
    then have "\<not> exposes t c d i" by (auto elim: exposes.cases)
    then show ?thesis using False less.prems
      by (simp add: n collect_via_ancestor_view.simps(2))
  next
    case True
    obtain below enum where
      b: "(if allow_penetration (props c) \<and> budget_left (next_budget d)
           then concat_mapE (\<lambda>k. bindE (tree_get t k) (\<lambda>child.
                  collect_via_ancestor_view m t child (next_budget d))) (child_ids c)
           else Inr []) = Inr below"
      and e: "(case extends_enum_category c of None \<Rightarrow> Inr []
           | Some e \<Rightarrow> if expose_ordinary (props c) \<or> expose_special (props c)
               then bindE (tree_get t e) (\<lambda>r. collect_enum_subtree m t r) else Inr []) = Inr enum"
      and is_eq: "is = own_view c @ below @ enum"
      using less.prems True
      by (auto simp: n collect_via_ancestor_view.simps(2) bindE_Inr_iff)
    have below: "i \<in> set below \<longleftrightarrow>
      allow_penetration (props c) \<and> budget_left (next_budget d) \<and>
      (\<exists>k \<in> set (child_ids c). \<exists>ch. dget (categories t) k = Some ch \<and>
         exposes t ch (next_budget d) i)"
    proof (cases "allow_penetration (props c) \<and> budget_left (next_budget d)")
      case pen: True
      have run: "concat_mapE (\<lambda>k. bindE (tree_get t k) (\<lambda>child.
          collect_via_ancestor_view m t child (next_budget d))) (child_ids c) = Inr below"
        using b pen by simp
      have "\<exists>ys. collect_via_ancestor_view m t ch (next_budget d) = Inr ys"
        if "k \<in> set (child_ids c)" "dget (categories t) k = Some ch" for k ch
        using concat_mapE_each [OF run that(1)] that(2) by (auto simp: result_simps)
      then show ?thesis using concat_mapE_get [OF run, of i] pen IH [of m] by fastforce
    qed (use b in auto)
    have enum: "i \<in> set enum \<longleftrightarrow> (\<exists>e r. extends_enum_category c = Some e \<and>
      (expose_ordinary (props c) \<or> expose_special (props c)) \<and>
      dget (categories t) e = Some r \<and> cat_mode r = ENUM \<and> exposes t r None i)"
      using e IH [of "m - 1"] by (auto simp: result_simps split: option.splits if_splits)
    show ?thesis unfolding is_eq exposes_iff [of t c d i] using True below enum by auto
  qed
qed

lemma scope_Inr:
  assumes "scope frames t k = Inr pool"
  shows "\<exists>scene. dget (categories t) k = Some scene \<and> cat_mode scene \<noteq> ENUM \<and>
    (\<forall>i. i \<in> set pool \<longleftrightarrow> in_scope t scene i)"
proof -
  obtain scene below enum where scene: "dget (categories t) k = Some scene" "cat_mode scene \<noteq> ENUM"
    and b: "(if searches_down (props scene)
       then concat_mapE (\<lambda>k. bindE (tree_get t k) (\<lambda>child.
              collect_via_ancestor_view frames t child (initial_depth (sdepth (props scene)))))
              (child_ids scene)
       else Inr []) = Inr below"
    and e: "(case extends_enum_category scene of None \<Rightarrow> Inr []
       | Some e \<Rightarrow> bindE (tree_get t e) (\<lambda>r. collect_enum_subtree frames t r)) = Inr enum"
    and pool: "pool = ordinary_intents scene @ below @ enum"
    using assms by (auto simp: scope_def bindE_Inr_iff tree_get_Inr_iff split: if_splits)
  let ?d = "initial_depth (sdepth (props scene))"
  have "i \<in> set below \<longleftrightarrow> searches_down (props scene) \<and>
    (\<exists>k \<in> set (child_ids scene). \<exists>ch. dget (categories t) k = Some ch \<and> exposes t ch ?d i)" for i
  proof (cases "searches_down (props scene)")
    case True
    then have run: "concat_mapE (\<lambda>k. bindE (tree_get t k) (\<lambda>child.
        collect_via_ancestor_view frames t child ?d)) (child_ids scene) = Inr below"
      using b by simp
    have "\<exists>ys. collect_via_ancestor_view frames t ch ?d = Inr ys"
      if "k \<in> set (child_ids scene)" "dget (categories t) k = Some ch" for k ch
      using concat_mapE_each [OF run that(1)] that(2) by (auto simp: result_simps)
    then show ?thesis using concat_mapE_get [OF run, of i] True collect_exposes by fastforce
  qed (use b in auto)
  moreover have "i \<in> set enum \<longleftrightarrow> (\<exists>e r. extends_enum_category scene = Some e \<and>
    dget (categories t) e = Some r \<and> cat_mode r = ENUM \<and> exposes t r None i)" for i
    using e collect_exposes [of "frames - 1" t] by (auto simp: result_simps split: option.splits)
  ultimately show ?thesis using scene unfolding pool in_scope_def by auto
qed

section \<open>The rules of the modes\<close>

text \<open>
  The same pool, said by mode: which intents a category shows to an ancestor, which categories an
  ancestor looks through, and how deep a scene looks. ENUM, SEQUENTIAL and MEMORY scenes do not
  look down at all.
\<close>

definition shows_to_ancestor :: "category \<Rightarrow> intent \<Rightarrow> bool" where
  "shows_to_ancestor c i \<longleftrightarrow>
     i \<in> set (intents c) \<and>
     (if is_special i then cat_mode c \<in> {SEQUENTIAL, BRANCHING, DRILLDOWN}
      else cat_mode c \<in> {STANDARD, ENUM, DRILLDOWN})"

inductive visible_at :: "category_tree \<Rightarrow> category \<Rightarrow> intent \<Rightarrow> bool" for t where
  shown: "shows_to_ancestor c i \<Longrightarrow> visible_at t c i"
| through: "cat_mode c \<in> {STANDARD, ENUM, DRILLDOWN} \<Longrightarrow> k \<in> set (child_ids c) \<Longrightarrow>
    dget (categories t) k = Some child \<Longrightarrow> visible_at t child i \<Longrightarrow> visible_at t c i"
| extended: "cat_mode c \<noteq> MEMORY \<Longrightarrow> extends_enum_category c = Some e \<Longrightarrow>
    dget (categories t) e = Some r \<Longrightarrow> cat_mode r = ENUM \<Longrightarrow> visible_at t r i \<Longrightarrow> visible_at t c i"

definition enum_pool :: "category_tree \<Rightarrow> category \<Rightarrow> intent \<Rightarrow> bool" where
  "enum_pool t c i \<longleftrightarrow>
     (\<exists>e r. extends_enum_category c = Some e \<and> dget (categories t) e = Some r \<and> cat_mode r = ENUM \<and> visible_at t r i)"

definition visible_from :: "category_tree \<Rightarrow> category \<Rightarrow> intent \<Rightarrow> bool" where
  "visible_from t scene i \<longleftrightarrow>
     i \<in> set (intents scene) \<and> \<not> is_special i \<or>
     enum_pool t scene i \<or>
     (\<exists>k \<in> set (child_ids scene). \<exists>child. dget (categories t) k = Some child \<and>
        (cat_mode scene \<in> {STANDARD, DRILLDOWN} \<and> visible_at t child i \<or>
         cat_mode scene = BRANCHING \<and>
           (shows_to_ancestor child i \<or> cat_mode child \<noteq> MEMORY \<and> enum_pool t child i)))"

lemma own_view_iff: "i \<in> set (own_view c) \<longleftrightarrow> shows_to_ancestor c i"
  by (cases "cat_mode c") (auto simp: own_view_def shows_to_ancestor_def ordinary_intents_def special_intents_def)

lemma transparent_iff: "allow_penetration (props c) \<longleftrightarrow> cat_mode c \<in> {STANDARD, ENUM, DRILLDOWN}"
  by (cases "cat_mode c") auto

lemma enum_open_iff: "expose_ordinary (props c) \<or> expose_special (props c) \<longleftrightarrow> cat_mode c \<noteq> MEMORY"
  by (cases "cat_mode c") auto

lemma exposes_unlimited: "exposes t c None i \<longleftrightarrow> visible_at t c i"
proof
  have "d = None \<Longrightarrow> exposes t c d i \<Longrightarrow> visible_at t c i" for d
  proof (rotate_tac 1, induction rule: exposes.induct)
    case (own d i c)
    then show ?case by (auto simp: own_view_iff intro: visible_at.shown)
  next
    case (below d c k child i)
    then show ?case unfolding transparent_iff by (auto simp: next_budget_def intro: visible_at.through)
  next
    case (enum d c e r i)
    then show ?case unfolding enum_open_iff by (auto intro: visible_at.extended)
  qed
  then show "exposes t c None i \<Longrightarrow> visible_at t c i" by blast
  show "visible_at t c i \<Longrightarrow> exposes t c None i"
  proof (induction rule: visible_at.induct)
    case (shown c i)
    then show ?case by (auto simp: own_view_iff budget_left_def intro: exposes.own)
  next
    case (through c k child i)
    then show ?case by (intro exposes.below [of None c k t child i]) (auto simp: transparent_iff budget_left_def next_budget_def)
  next
    case (extended c e r i)
    then show ?case by (intro exposes.enum [of None c e t r i]) (auto simp: enum_open_iff budget_left_def)
  qed
qed

lemma exposes_immediate:
  "exposes t c (Some 1) i \<longleftrightarrow> shows_to_ancestor c i \<or> cat_mode c \<noteq> MEMORY \<and> enum_pool t c i"
  unfolding exposes_iff [of t c "Some 1"] enum_pool_def own_view_iff exposes_unlimited enum_open_iff
  by (auto simp: budget_left_def next_budget_def)

lemma in_scope_iff: "in_scope t scene i \<longleftrightarrow> visible_from t scene i"
proof (cases "cat_mode scene")
qed (auto simp: in_scope_def visible_from_def ordinary_intents_def exposes_unlimited exposes_immediate enum_pool_def)

section \<open>Enough frames\<close>

text \<open>
  The recursion follows child pointers, which lead away from the root, and enum pointers, which
  may lead anywhere. It is bounded when no category inside an ENUM subtree carries a further
  enum pointer.
\<close>

definition enum_closed :: "category_tree \<Rightarrow> bool" where
  "enum_closed t \<longleftrightarrow>
     (\<forall>k ids c. chain t k ids \<longrightarrow> dget (categories t) k = Some c \<longrightarrow>
        (\<exists>e \<in> set ids. \<exists>d. dget (categories t) e = Some d \<and> cat_mode d = ENUM) \<longrightarrow>
        extends_enum_category c = None)"

lemma child_chain:
  assumes "valid_scene t" and "chain t k ids" and "dget (categories t) k = Some c"
    and "i \<in> set (child_ids c)"
  shows "\<exists>d. dget (categories t) i = Some d \<and> chain t i (ids @ [i]) \<and>
    length ids < length (categories t)"
proof -
  have wf: "wf_tree t" using assms(1) by (simp add: valid_scene_def)
  obtain d where d: "dget (categories t) i = Some d" using wf_treeD(6) [OF wf assms(3,4)] by blast
  then have "chain t i (ids @ [i])" using assms(2-4) by (auto intro: chain.child)
  then show ?thesis using chain_length [OF wf] d by fastforce
qed

lemma collect_total_step:
  assumes "0 < frames"
    and "\<And>k. k \<in> set (child_ids c) \<Longrightarrow> \<exists>ch ys. dget (categories t) k = Some ch \<and>
      collect_via_ancestor_view (frames - 1) t ch (next_budget d) = Inr ys"
    and "\<And>e. extends_enum_category c = Some e \<Longrightarrow> \<exists>r ys. dget (categories t) e = Some r \<and>
      collect_enum_subtree (frames - 1) t r = Inr ys"
  shows "\<exists>ys. collect_via_ancestor_view frames t c d = Inr ys"
proof -
  obtain n where n: "frames = Suc n" using assms(1) by (cases frames) auto
  have "\<exists>ys. concat_mapE (\<lambda>k. bindE (tree_get t k) (\<lambda>child.
      collect_via_ancestor_view n t child (next_budget d))) (child_ids c) = Inr ys"
    using assms(2) n by (intro concat_mapE_total) (fastforce simp: result_simps)
  moreover have "\<exists>ys. (case extends_enum_category c of None \<Rightarrow> Inr []
      | Some e \<Rightarrow> if expose_ordinary (props c) \<or> expose_special (props c)
          then bindE (tree_get t e) (\<lambda>r. collect_enum_subtree n t r) else Inr []) = Inr ys"
    using assms(3) n by (fastforce simp: result_simps split: option.splits)
  ultimately show ?thesis by (auto simp: n collect_via_ancestor_view.simps(2) bindE_Inr_iff)
qed

lemma collect_enum_total:
  assumes "valid_scene t" and "enum_closed t"
  shows "chain t k ids \<Longrightarrow> dget (categories t) k = Some c \<Longrightarrow>
    \<exists>e \<in> set ids. \<exists>d. dget (categories t) e = Some d \<and> cat_mode d = ENUM \<Longrightarrow>
    length (categories t) < frames + length ids \<Longrightarrow>
    \<exists>ys. collect_via_ancestor_view frames t c d = Inr ys"
proof (induction frames arbitrary: k ids c d)
  case 0
  then show ?case using chain_length [of t k ids] assms(1) by (simp add: valid_scene_def)
next
  case (Suc n)
  show ?case
  proof (rule collect_total_step)
    fix i assume i: "i \<in> set (child_ids c)"
    then obtain ch where ch: "dget (categories t) i = Some ch" "chain t i (ids @ [i])"
      using child_chain [OF assms(1) Suc.prems(1,2)] by blast
    have "\<exists>ys. collect_via_ancestor_view n t ch (next_budget d) = Inr ys"
      using Suc.prems(3,4) by (intro Suc.IH [OF ch(2,1)]) auto
    then show "\<exists>ch ys. dget (categories t) i = Some ch \<and>
        collect_via_ancestor_view (Suc n - 1) t ch (next_budget d) = Inr ys"
      using ch(1) by auto
  next
    fix e assume "extends_enum_category c = Some e"
    moreover have "extends_enum_category c = None"
      using assms(2) Suc.prems(1-3) unfolding enum_closed_def by blast
    ultimately show "\<exists>r ys. dget (categories t) e = Some r \<and>
        collect_enum_subtree (Suc n - 1) t r = Inr ys"
      by simp
  qed simp
qed

lemma enum_pool_total:
  assumes "valid_scene t" and "enum_closed t" and "dget (categories t) k = Some c"
    and "extends_enum_category c = Some e" and "length (categories t) < frames"
  shows "\<exists>r ys. dget (categories t) e = Some r \<and> collect_enum_subtree frames t r = Inr ys"
proof -
  obtain r where r: "dget (categories t) e = Some r" "cat_mode r = ENUM"
    using assms(1,3,4) unfolding valid_scene_def obeys_enum_def by blast
  have wf: "wf_tree t" using assms(1) by (simp add: valid_scene_def)
  obtain ids where ids: "chain t e ids" using wf_treeD(7) [OF wf r(1)] by blast
  have "e \<in> set ids" using chain_last [OF ids] chain_ne [OF ids] last_in_set by blast
  moreover have "length (categories t) < (frames - 1) + length ids"
    using assms(5) chain_ne [OF ids] by (cases ids) auto
  ultimately have "\<exists>ys. collect_via_ancestor_view (frames - 1) t r None = Inr ys"
    using r by (intro collect_enum_total [OF assms(1,2) ids r(1)]) auto
  then show ?thesis using r assms(5) by (cases frames) auto
qed

lemma collect_total:
  assumes "valid_scene t" and "enum_closed t"
  shows "chain t k ids \<Longrightarrow> dget (categories t) k = Some c \<Longrightarrow>
    2 * length (categories t) + 1 < frames + length ids \<Longrightarrow>
    \<exists>ys. collect_via_ancestor_view frames t c d = Inr ys"
proof (induction frames arbitrary: k ids c d)
  case 0
  then show ?case using chain_length [of t k ids] assms(1) by (simp add: valid_scene_def)
next
  case (Suc n)
  have len: "length ids \<le> length (categories t)"
    using chain_length [OF _ Suc.prems(1)] assms(1) by (simp add: valid_scene_def)
  show ?case
  proof (rule collect_total_step)
    fix i assume i: "i \<in> set (child_ids c)"
    then obtain ch where ch: "dget (categories t) i = Some ch" "chain t i (ids @ [i])"
      using child_chain [OF assms(1) Suc.prems(1,2)] by blast
    have "\<exists>ys. collect_via_ancestor_view n t ch (next_budget d) = Inr ys"
      using Suc.prems(3) by (intro Suc.IH [OF ch(2,1)]) auto
    then show "\<exists>ch ys. dget (categories t) i = Some ch \<and>
        collect_via_ancestor_view (Suc n - 1) t ch (next_budget d) = Inr ys"
      using ch(1) by auto
  next
    fix e assume "extends_enum_category c = Some e"
    then show "\<exists>r ys. dget (categories t) e = Some r \<and>
        collect_enum_subtree (Suc n - 1) t r = Inr ys"
      using enum_pool_total [OF assms Suc.prems(2)] Suc.prems(3) len by simp
  qed simp
qed

lemma scope_total:
  assumes "valid_scene t" and "enum_closed t" and "dget (categories t) k = Some scene"
    and "cat_mode scene \<noteq> ENUM" and "2 * length (categories t) < frames"
  shows "\<exists>pool. scope frames t k = Inr pool"
proof -
  have wf: "wf_tree t" using assms(1) by (simp add: valid_scene_def)
  obtain ids where ids: "chain t k ids" using wf_treeD(7) [OF wf assms(3)] by blast
  have ne: "0 < length ids" using chain_ne [OF ids] by simp
  have "\<exists>ch ys. dget (categories t) i = Some ch \<and>
      collect_via_ancestor_view frames t ch d = Inr ys" if i: "i \<in> set (child_ids scene)" for i d
  proof -
    obtain ch where ch: "dget (categories t) i = Some ch" "chain t i (ids @ [i])"
      using child_chain [OF assms(1) ids assms(3) i] by blast
    then show ?thesis using collect_total [OF assms(1,2) ch(2,1)] ne assms(5) by auto
  qed
  then have "\<exists>ys. concat_mapE (\<lambda>k. bindE (tree_get t k) (\<lambda>child.
      collect_via_ancestor_view frames t child (initial_depth (sdepth (props scene)))))
      (child_ids scene) = Inr ys"
    by (intro concat_mapE_total) (fastforce simp: result_simps)
  moreover have "\<exists>ys. (case extends_enum_category scene of None \<Rightarrow> Inr []
      | Some e \<Rightarrow> bindE (tree_get t e) (\<lambda>r. collect_enum_subtree frames t r)) = Inr ys"
    using enum_pool_total [OF assms(1-3), where frames = frames] assms(5)
    by (fastforce simp: result_simps split: option.splits)
  ultimately show ?thesis using assms(3,4) by (auto simp: scope_def bindE_Inr_iff)
qed

lemma enum_loop_diverges: "collect_via_ancestor_view n enum_loop_tree enum_loop_e None = Inl RecursionError"
proof (induction n rule: less_induct)
  case (less n)
  have e: "tree_get enum_loop_tree (u ''e'') = Inr enum_loop_e"
    and c: "tree_get enum_loop_tree (u ''c'') = Inr enum_loop_c"
    by (simp_all add: tree_get_def enum_loop_tree_def)
  show ?case
  proof (cases n)
    case (Suc m)
    have "collect_via_ancestor_view m enum_loop_tree enum_loop_c None = Inl RecursionError"
    proof (cases m)
      case (Suc l)
      have "collect_enum_subtree l enum_loop_tree enum_loop_e = Inl RecursionError"
        using less [of "l - 1"] \<open>n = Suc m\<close> Suc by (cases l) (auto simp: enum_loop_e_def mk_cat_def)
      then show ?thesis using Suc e
        by (simp add: collect_via_ancestor_view.simps(2) budget_left_def next_budget_def
            enum_loop_c_def mk_cat_def)
    qed simp
    then show ?thesis using Suc c
      by (simp add: collect_via_ancestor_view.simps(2) budget_left_def next_budget_def
          enum_loop_e_def mk_cat_def)
  qed simp
qed

section \<open>Properties\<close>

text \<open>
  C3. What the candidate pool is: whenever \<open>scope\<close> returns, the requested category exists and is
  not an ENUM node, and an intent is in the pool exactly when the rules of the six modes, stated
  without the collectors' depth budget and property table, make it visible from there: the
  scene's own ordinary intents; from a STANDARD or DRILLDOWN scene whatever its children show at
  any depth, from a BRANCHING scene what its immediate children show; and the pool of the ENUM
  category the scene extends.
\<close>

theorem scope_correct:
  assumes "scope frames t k = Inr pool"
  shows "\<exists>scene. dget (categories t) k = Some scene \<and> cat_mode scene \<noteq> ENUM \<and>
    (\<forall>i. i \<in> set pool \<longleftrightarrow> visible_from t scene i)"
  using scope_Inr [OF assms] by (simp add: in_scope_iff)

theorem scope_correct_witness:
  "\<exists>pool. scope 9 bank_tree (u ''root'') = Inr pool \<and> pool \<noteq> [] \<and>
     (\<forall>i \<in> set pool. visible_from bank_tree (the (dget (categories bank_tree) (u ''root''))) i)"
proof -
  let ?pool = "[mk_int ''hi'' ''root'' [''hello''] False None,
    mk_int ''lost'' ''card'' [''lost card''] False None,
    mk_int ''hook'' ''card'' [''card''] True (Some ''ROOT->Card''),
    mk_int ''bj'' ''city'' [''beijing''] False None, mk_int ''bj'' ''city'' [''beijing''] False None]"
  have run: "scope 9 bank_tree (u ''root'') = Inr ?pool" by code_simp
  show ?thesis using run scope_correct [OF run] by auto
qed

text \<open>
  C32. Termination: on a loaded scene in which no category inside an ENUM subtree carries an
  \<open>extends_enum_category\<close> pointer, the recursion of \<open>scope\<close> never needs more than twice as many
  frames as there are categories, and every non-ENUM category gets a pool.
\<close>

theorem scope_terminates:
  assumes "load_scene read path = Inr t" and "enum_closed t"
    and "dget (categories t) k = Some scene" and "cat_mode scene \<noteq> ENUM"
    and "2 * length (categories t) < frames"
  shows "\<exists>pool. scope frames t k = Inr pool"
proof -
  obtain data where "load_scene_from_dict data = Inr t"
    using assms(1) by (auto simp: load_scene_def split: option.splits)
  then have "valid_scene t" by (rule load_scene_from_dict_valid)
  then show ?thesis using assms(2-5) by (rule scope_total)
qed

lemma bank_enum_closed: "enum_closed bank_tree"
proof -
  have wf: "wf_tree bank_tree"
    using load_scene_from_dict_valid [OF bank_loads_from_dict] by (simp add: valid_scene_def)
  have root: "chain bank_tree (u ''root'') [u ''root'']"
    using chain.root [of bank_tree] by (simp add: bank_tree_def)
  have loc: "chain bank_tree (u ''loc'') [u ''root'', u ''loc'']"
    using chain.child [OF root, of _ "u ''loc''"] by (simp add: bank_tree_def mk_cat_def)
  have "ids = [u ''root'', u ''loc'']" if "chain bank_tree (u ''loc'') ids" for ids
    using chain_unique [OF wf that loc] .
  then show ?thesis
    by (fastforce simp: enum_closed_def bank_tree_def mk_cat_def split: if_splits)
qed

theorem scope_terminates_witness:
  "\<exists>pool. scope 9 bank_tree (u ''loc'') = Inr pool"
proof (rule scope_terminates [OF bank_loads_from_file bank_enum_closed])
  show "dget (categories bank_tree) (u ''loc'') =
      Some (mk_cat ''loc'' ''Loc'' (Some ''root'') STANDARD (Some ''city'') [] [])"
    by (simp add: bank_tree_def)
qed (simp_all add: mk_cat_def bank_tree_def)

text \<open>
  C39. The loader accepts a scene on which \<open>scope\<close> recurses without bound: a STANDARD category
  below an ENUM node may extend that same node, and then every search from the root raises
  \<open>RecursionError\<close>, whatever the recursion limit is.
\<close>

theorem scope_diverges_on_loaded_scene:
  "\<exists>data t. load_scene_from_dict data = Inr t \<and>
     (\<forall>frames. scope frames t (root_id t) = Inl RecursionError)"
proof (intro exI conjI allI)
  show "load_scene_from_dict (Some (u ''r''), rs_categories enum_loop_raw) = Inr enum_loop_tree"
    using enum_loop_loads by (simp add: load_scene_from_dict_def enum_loop_raw_def)
  fix frames
  show "scope frames enum_loop_tree (root_id enum_loop_tree) = Inl RecursionError"
    using enum_loop_diverges [of frames]
    by (simp add: scope_def tree_get_def enum_loop_tree_def mk_cat_def)
qed

text \<open>
  A BRANCHING scene searches its immediate children only: besides its own enum pool,
  everything in its pool is exposed by a direct child itself, or belongs to the enum pool a
  direct child extends; nothing comes from a grandchild.
\<close>

theorem branching_sees_children_only:
  assumes "scope frames t k = Inr pool" and "i \<in> set pool"
    and "dget (categories t) k = Some scene" and "cat_mode scene = BRANCHING"
    and "extends_enum_category scene = None" and "obeys_mode scene"
  shows "\<exists>c \<in> set (child_ids scene). \<exists>child. dget (categories t) c = Some child \<and>
    (i \<in> set (own_view child) \<or>
     (\<exists>e r. extends_enum_category child = Some e \<and> dget (categories t) e = Some r \<and>
        exposes t r None i))"
proof -
  have "in_scope t scene i" using scope_Inr [OF assms(1)] assms(2,3) by auto
  moreover have "ordinary_intents scene = []" using assms(4,6) by (simp add: obeys_mode_def)
  ultimately obtain c child where c: "c \<in> set (child_ids scene)"
    "dget (categories t) c = Some child" "exposes t child (Some 1) i"
    using assms(4,5) by (auto simp: in_scope_def)
  from c(3) have "i \<in> set (own_view child) \<or>
    (\<exists>e r. extends_enum_category child = Some e \<and> dget (categories t) e = Some r \<and>
       exposes t r None i)"
    by cases (auto simp: budget_left_def next_budget_def)
  then show ?thesis using c by blast
qed

theorem branching_sees_children_only_witness:
  "\<exists>c \<in> set (child_ids menu_root). \<exists>child. dget (categories menu_tree) c = Some child \<and>
    (mk_int ''pick'' ''b'' [''first''] True None \<in> set (own_view child) \<or>
     (\<exists>e r. extends_enum_category child = Some e \<and> dget (categories menu_tree) e = Some r \<and>
        exposes menu_tree r None (mk_int ''pick'' ''b'' [''first''] True None)))"
proof (rule branching_sees_children_only)
  show "scope 9 menu_tree (u ''m'') = Inr [mk_int ''pick'' ''b'' [''first''] True None]"
    by code_simp
  show "dget (categories menu_tree) (u ''m'') = Some menu_root"
    by (simp add: menu_tree_def)
qed (simp_all add: menu_root_def mk_cat_def mk_int_def obeys_mode_def ordinary_intents_def
    special_intents_def)

end
