(* ===== verification/Matcher.thy ===== *)
theory Matcher
  imports Example_Scenes
begin

text \<open>
  Intent matching, \<open>core/matcher.py\<close>: the \<open>IntentMatcher\<close> protocol as a locale, and the
  character n-gram matcher \<open>StubMatcher\<close> as its implementation. Sets of n-grams are HOL sets,
  confidences are rounded floats, and the candidate constructor is the validating pydantic one.
\<close>

section \<open>Candidates\<close>

record match_candidate =
  cand_id :: intent_id
  confidence :: pyfloat

definition MatchCandidate :: "intent_id \<Rightarrow> pyfloat \<Rightarrow> match_candidate result" where
  "MatchCandidate i c =
     (if 0 \<le> c \<and> c \<le> 1 then Inr \<lparr>cand_id = i, confidence = c\<rparr>
      else Inl (ValidationError ''confidence''))"

text \<open>The sort key \<open>(-confidence, intent_id)\<close>.\<close>

definition rank_key :: "match_candidate \<Rightarrow> pyfloat \<times> intent_id" where
  "rank_key c = (- confidence c, cand_id c)"

section \<open>The stub matcher\<close>

definition char_ngrams :: "pystr \<Rightarrow> nat \<Rightarrow> pystr set" where
  "char_ngrams text n =
     (let text = strip text
      in if text = [] then {}
         else if length text < n then {text}
         else set (map (\<lambda>i. take n (drop i text)) [0..<length text - n + 1]))"

definition jaccard :: "pystr set \<Rightarrow> pystr set \<Rightarrow> pyfloat" where
  "jaccard a b =
     (if a = {} \<or> b = {} then 0
      else fdiv (of_nat (card (a \<inter> b))) (of_nat (card (a \<union> b))))"

fun best_over :: "nat \<Rightarrow> pystr set \<Rightarrow> pystr list \<Rightarrow> pyfloat \<Rightarrow> pyfloat" where
  "best_over n t_grams [] best = best"
| "best_over n t_grams (q # qs) best =
     (let q_grams = char_ngrams q n; score = jaccard t_grams q_grams
      in best_over n t_grams qs (max best score))"

fun stub_scored :: "nat \<Rightarrow> pystr set \<Rightarrow> intent list \<Rightarrow> match_candidate list result" where
  "stub_scored n t_grams [] = Inr []"
| "stub_scored n t_grams (i # is) =
     (let best = best_over n t_grams (question i) 0
      in if 0 < best
         then bindE (MatchCandidate (intent_id i) best) (\<lambda>c.
              bindE (stub_scored n t_grams is) (\<lambda>cs. Inr (c # cs)))
         else stub_scored n t_grams is)"

definition stub_score ::
  "nat \<Rightarrow> pystr \<Rightarrow> intent list \<Rightarrow> int \<Rightarrow> match_candidate list result" where
  "stub_score ngram transcript candidates n_best =
     (let t_grams = char_ngrams transcript ngram
      in bindE (stub_scored ngram t_grams candidates) (\<lambda>scored.
           Inr (py_prefix n_best (sort_key rank_key scored))))"

section \<open>The matcher contract\<close>

text \<open>
  What the orchestrator relies on: an answer is a list of candidates from the pool, with
  confidences in the unit interval, ranked by descending confidence, and no longer than asked.
\<close>

definition ranked_list :: "intent list \<Rightarrow> int \<Rightarrow> match_candidate list \<Rightarrow> bool" where
  "ranked_list pool n cs \<longleftrightarrow>
     (\<forall>c \<in> set cs. cand_id c \<in> intent_id ` set pool \<and> 0 \<le> confidence c \<and> confidence c \<le> 1
        \<and> is_double (confidence c)) \<and>
     sorted (map rank_key cs) \<and>
     (0 \<le> n \<longrightarrow> int (length cs) \<le> n)"

locale intent_matcher =
  fixes score :: "pystr \<Rightarrow> intent list \<Rightarrow> int \<Rightarrow> match_candidate list result"
  assumes score_ranked: "score t pool n = Inr cs \<Longrightarrow> ranked_list pool n cs"
begin

lemma score_mem: "score t pool n = Inr cs \<Longrightarrow> c \<in> set cs \<Longrightarrow> \<exists>i \<in> set pool. intent_id i = cand_id c"
  using score_ranked by (fastforce simp: ranked_list_def)

lemma score_empty_pool: "score t [] n = Inr cs \<Longrightarrow> cs = []"
  using score_ranked [of t "[]" n cs] by (cases cs) (auto simp: ranked_list_def)

end

section \<open>The Jaccard similarity\<close>

lemma finite_char_ngrams [simp]: "finite (char_ngrams t n)"
  by (simp add: char_ngrams_def Let_def)

lemma card_char_ngrams_le: "card (char_ngrams t n) \<le> length (strip t) + 1"
proof -
  have "card (set (map (\<lambda>i. take n (drop i (strip t))) [0..<length (strip t) - n + 1]))
      \<le> length (strip t) - n + 1"
    by (rule order.trans [OF card_length]) simp
  also have "\<dots> \<le> length (strip t) + 1" by simp
  finally show ?thesis by (simp add: char_ngrams_def Let_def del: upt_Suc)
qed

lemma jaccard_double [simp]: "is_double (jaccard a b)"
  by (simp add: jaccard_def)

lemma jaccard_ratio:
  assumes "finite a" and "finite b"
  shows "of_nat (card (a \<inter> b)) / of_nat (card (a \<union> b)) \<le> (1 :: rat)"
    and "0 \<le> (of_nat (card (a \<inter> b)) / of_nat (card (a \<union> b)) :: rat)"
proof -
  have "card (a \<inter> b) \<le> card (a \<union> b)" using assms by (intro card_mono) auto
  then show "of_nat (card (a \<inter> b)) / of_nat (card (a \<union> b)) \<le> (1 :: rat)"
    by (cases "card (a \<union> b) = 0") (auto simp: divide_le_eq_1)
qed simp

lemma jaccard_unit:
  assumes "finite a" and "finite b"
  shows "0 \<le> jaccard a b" and "jaccard a b \<le> 1"
  using fl_unit [OF jaccard_ratio(2,1) [OF assms]] by (auto simp: jaccard_def fdiv_def)

text \<open>
  Below \<open>2 ^ 53\<close> n-grams the rounding of the quotient hides nothing: the similarity is positive
  exactly when a gram is shared, and 1 exactly when the two sets are equal.
\<close>

lemma fdiv_pos:
  assumes "0 < k" and "k \<le> m" and "m \<le> 2 ^ 53"
  shows "0 < fdiv (of_nat k) (of_nat m)"
proof -
  have "(of_nat m :: rat) \<le> of_nat (2 ^ 53)" using assms(3) by (simp only: of_nat_le_iff)
  moreover have "(1 :: rat) \<le> of_nat k" using assms(1) by simp
  moreover have "(0 :: rat) < of_nat m" using assms by simp
  ultimately have "of_int 1 / 2 ^ 53 \<le> (of_nat k / of_nat m :: rat)"
    using assms(1) by (intro frac_le) auto
  then have "of_int 1 / 2 ^ 53 \<le> fl (of_nat k / of_nat m)"
    using is_double_grid [of 1 53] by (intro fl_ge_double) auto
  then show ?thesis unfolding fdiv_def by (rule less_le_trans [rotated]) simp
qed

lemma fdiv_less_1:
  assumes "k < m" and "m \<le> 2 ^ 53"
  shows "fdiv (of_nat k) (of_nat m) < 1"
proof -
  have m: "(of_nat m :: rat) \<le> of_nat (2 ^ 53)" using assms(2) by (simp only: of_nat_le_iff)
  have k: "(of_nat k :: rat) \<le> of_nat m - 1" using assms(1) by (simp flip: of_nat_Suc add: le_diff_eq)
  have pos: "(0 :: rat) < of_nat m" using assms(1) by simp
  have "of_nat k / of_nat m \<le> (of_nat m - 1) / (of_nat m :: rat)"
    using k pos by (simp add: divide_right_mono)
  also have "\<dots> = 1 - 1 / of_nat m" using pos by (simp add: field_simps)
  also have "\<dots> \<le> 1 - 1 / 2 ^ 53" using m pos by (simp add: field_simps)
  also have "\<dots> = of_int (2 ^ 53 - 1) / 2 ^ 53" by simp
  finally have "fl (of_nat k / of_nat m) \<le> of_int (2 ^ 53 - 1) / 2 ^ 53"
    using is_double_grid [of "2 ^ 53 - 1" 53] by (intro fl_le_double) auto
  then show ?thesis unfolding fdiv_def by (rule le_less_trans) simp
qed

lemma jaccard_pos_iff:
  assumes "finite a" and "finite b" and "card (a \<union> b) \<le> 2 ^ 53"
  shows "0 < jaccard a b \<longleftrightarrow> a \<inter> b \<noteq> {}"
proof (cases "a \<inter> b = {}")
  case False
  then have "0 < card (a \<inter> b)" using assms(1) by (simp add: card_gt_0_iff)
  moreover have "card (a \<inter> b) \<le> card (a \<union> b)" using assms by (intro card_mono) auto
  ultimately have "0 < fdiv (of_nat (card (a \<inter> b))) (of_nat (card (a \<union> b)))"
    using assms(3) by (rule fdiv_pos)
  then show ?thesis using False by (auto simp: jaccard_def)
qed (simp add: jaccard_def fdiv_def)

lemma jaccard_1_iff:
  assumes "finite a" and "finite b" and "card (a \<union> b) \<le> 2 ^ 53"
  shows "jaccard a b = 1 \<longleftrightarrow> a = b \<and> a \<noteq> {}"
proof (cases "a = b")
  case True
  then show ?thesis using assms by (auto simp: jaccard_def fdiv_def)
next
  case False
  then have "a \<inter> b \<subset> a \<union> b" by blast
  then have "card (a \<inter> b) < card (a \<union> b)" using assms by (intro psubset_card_mono) auto
  then have "fdiv (of_nat (card (a \<inter> b))) (of_nat (card (a \<union> b))) < 1"
    using assms(3) by (rule fdiv_less_1)
  then show ?thesis using False by (auto simp: jaccard_def)
qed

section \<open>The stub implements the contract\<close>

lemma best_over_Max: "best_over n g qs b = Max (insert b ((\<lambda>q. jaccard g (char_ngrams q n)) ` set qs))"
proof (induction qs arbitrary: b)
  case (Cons q qs)
  then show ?case by (cases "qs = []") (simp_all add: Let_def max.assoc)
qed simp

definition stub_confidence :: "nat \<Rightarrow> pystr \<Rightarrow> intent \<Rightarrow> pyfloat" where
  "stub_confidence n t i = best_over n (char_ngrams t n) (question i) 0"

definition jaccards :: "nat \<Rightarrow> pystr \<Rightarrow> intent \<Rightarrow> pyfloat set" where
  "jaccards n t i = (\<lambda>q. jaccard (char_ngrams t n) (char_ngrams q n)) ` set (question i)"

lemma stub_confidence_Max: "stub_confidence n t i = Max (insert 0 (jaccards n t i))"
  by (simp add: stub_confidence_def best_over_Max jaccards_def)

lemma stub_confidence_in: "stub_confidence n t i \<in> insert 0 (jaccards n t i)"
  unfolding stub_confidence_Max by (intro Max_in) (auto simp: jaccards_def)

lemma stub_confidence_ge: "c \<in> jaccards n t i \<Longrightarrow> c \<le> stub_confidence n t i"
  unfolding stub_confidence_Max by (intro Max_ge) (auto simp: jaccards_def)

lemma stub_confidence_unit:
  "0 \<le> stub_confidence n t i" "stub_confidence n t i \<le> 1" "is_double (stub_confidence n t i)"
  using stub_confidence_in [of n t i] jaccard_unit by (auto simp: jaccards_def)

definition stub_hits :: "nat \<Rightarrow> pystr \<Rightarrow> intent list \<Rightarrow> match_candidate list" where
  "stub_hits n t pool = map (\<lambda>i. \<lparr>cand_id = intent_id i, confidence = stub_confidence n t i\<rparr>)
     (filter (\<lambda>i. 0 < stub_confidence n t i) pool)"

lemma stub_scored_eq: "stub_scored n (char_ngrams t n) pool = Inr (stub_hits n t pool)"
  using stub_confidence_unit(1,2) [of n t]
  by (induction pool) (auto simp: Let_def stub_hits_def MatchCandidate_def stub_confidence_def)

lemma stub_score_eq:
  "stub_score n t pool k = Inr (py_prefix k (sort_key rank_key (stub_hits n t pool)))"
  by (simp add: stub_score_def Let_def stub_scored_eq)

lemma stub_hits_mem:
  "c \<in> set (stub_hits n t pool) \<longleftrightarrow>
     (\<exists>i \<in> set pool. c = \<lparr>cand_id = intent_id i, confidence = stub_confidence n t i\<rparr>
        \<and> 0 < stub_confidence n t i)"
  by (auto simp: stub_hits_def)

lemma stub_score_ranked:
  assumes "stub_score n t pool k = Inr cs"
  shows "ranked_list pool k cs"
proof -
  have cs: "cs = py_prefix k (sort_key rank_key (stub_hits n t pool))"
    using assms by (simp add: stub_score_eq)
  then have "set cs \<subseteq> set (stub_hits n t pool)" using set_py_prefix by fastforce
  moreover have "cand_id c \<in> intent_id ` set pool \<and> 0 \<le> confidence c \<and> confidence c \<le> 1
        \<and> is_double (confidence c)" if "c \<in> set (stub_hits n t pool)" for c
    using that stub_confidence_unit by (auto simp: stub_hits_mem)
  ultimately have "\<forall>c \<in> set cs. cand_id c \<in> intent_id ` set pool \<and> 0 \<le> confidence c \<and>
      confidence c \<le> 1 \<and> is_double (confidence c)"
    by blast
  then show ?thesis by (simp add: cs ranked_list_def sorted_py_prefix length_py_prefix)
qed

interpretation stub: intent_matcher "stub_score n" for n
  by unfold_locales (rule stub_score_ranked)

text \<open>Transcripts and questions short enough for the similarity to be exact.\<close>

definition short_texts :: "pystr \<Rightarrow> intent list \<Rightarrow> bool" where
  "short_texts t pool \<longleftrightarrow>
     length t < 2 ^ 52 \<and> (\<forall>i \<in> set pool. \<forall>q \<in> set (question i). length q < 2 ^ 52)"

lemma length_strip_by: "length (strip_by p s) \<le> length s"
  unfolding strip_by_def by (metis length_dropWhile_le length_rev le_trans)

lemma card_grams_union:
  assumes "length t < 2 ^ 52" and "length q < 2 ^ 52"
  shows "card (char_ngrams t n \<union> char_ngrams q n) \<le> 2 ^ 53"
proof -
  have "card (char_ngrams t n \<union> char_ngrams q n) \<le> card (char_ngrams t n) + card (char_ngrams q n)"
    by (rule card_Un_le)
  also have "\<dots> \<le> (length t + 1) + (length q + 1)"
    using card_char_ngrams_le [of t n] card_char_ngrams_le [of q n]
      length_strip_by [of is_space t] length_strip_by [of is_space q] by linarith
  also have "\<dots> \<le> 2 ^ 53" using assms by simp
  finally show ?thesis .
qed

lemma stub_confidence_pos_iff:
  assumes "short_texts t pool" and "i \<in> set pool"
  shows "0 < stub_confidence n t i \<longleftrightarrow>
    (\<exists>q \<in> set (question i). char_ngrams t n \<inter> char_ngrams q n \<noteq> {})" (is "_ \<longleftrightarrow> (\<exists>q \<in> _. ?shared q)")
proof -
  have *: "0 < jaccard (char_ngrams t n) (char_ngrams q n) \<longleftrightarrow> ?shared q"
    if "q \<in> set (question i)" for q
    using that assms by (intro jaccard_pos_iff card_grams_union) (auto simp: short_texts_def)
  show ?thesis
  proof
    assume "0 < stub_confidence n t i"
    then have "stub_confidence n t i \<in> jaccards n t i" using stub_confidence_in [of n t i] by auto
    then obtain q where "q \<in> set (question i)" "0 < jaccard (char_ngrams t n) (char_ngrams q n)"
      using \<open>0 < stub_confidence n t i\<close> unfolding jaccards_def by force
    then show "\<exists>q \<in> set (question i). ?shared q" using * by blast
  next
    assume "\<exists>q \<in> set (question i). ?shared q"
    then obtain q where "q \<in> set (question i)" "0 < jaccard (char_ngrams t n) (char_ngrams q n)"
      using * by auto
    then show "0 < stub_confidence n t i"
      using stub_confidence_ge [of _ n t i] by (force simp: jaccards_def)
  qed
qed

lemma stub_confidence_1:
  assumes "short_texts t pool" and "i \<in> set pool" and "stub_confidence n t i = 1"
  shows "\<exists>q \<in> set (question i). char_ngrams q n = char_ngrams t n"
proof -
  have "1 \<in> jaccards n t i" using stub_confidence_in [of n t i] assms(3) by auto
  then obtain q where q: "q \<in> set (question i)" "jaccard (char_ngrams t n) (char_ngrams q n) = 1"
    by (auto simp: jaccards_def)
  moreover have "card (char_ngrams t n \<union> char_ngrams q n) \<le> 2 ^ 53"
    using q assms by (intro card_grams_union) (auto simp: short_texts_def)
  ultimately show ?thesis using jaccard_1_iff [of "char_ngrams t n" "char_ngrams q n"] by auto
qed

lemma char_ngrams_empty_iff: "char_ngrams t n = {} \<longleftrightarrow> strip t = []"
  by (auto simp: char_ngrams_def Let_def)

lemma stub_confidence_own_question:
  assumes "t \<in> set (question i)" and "strip t \<noteq> []"
  shows "stub_confidence n t i = 1"
proof -
  have "jaccard (char_ngrams t n) (char_ngrams t n) = 1"
    using assms(2) char_ngrams_empty_iff [of t n] by (simp add: jaccard_def fdiv_def)
  then have "1 \<in> jaccards n t i" using assms(1) by (force simp: jaccards_def)
  then show ?thesis using stub_confidence_ge [of 1 n t i] stub_confidence_unit(2) [of n t i] by simp
qed

section \<open>Properties\<close>

text \<open>
  The stub matcher always answers, and when the answer is not cut off it names exactly the
  intents of the pool that have a training question sharing a character n-gram with the
  transcript, ranked by descending confidence with ties broken by the identifier.
\<close>

theorem stub_score_complete:
  assumes "short_texts t pool" and "int (length pool) \<le> n_best"
  shows "\<exists>cs. stub_score n t pool n_best = Inr cs \<and> sorted (map rank_key cs) \<and>
    cand_id ` set cs =
      {intent_id i | i. i \<in> set pool \<and> (\<exists>q \<in> set (question i). char_ngrams t n \<inter> char_ngrams q n \<noteq> {})}"
proof -
  let ?cs = "sort_key rank_key (stub_hits n t pool)"
  have "length (stub_hits n t pool) \<le> length pool" by (simp add: stub_hits_def)
  then have "stub_score n t pool n_best = Inr ?cs"
    using assms(2) by (simp add: stub_score_eq py_prefix_all)
  moreover have "cand_id ` set ?cs = {intent_id i | i. i \<in> set pool \<and> 0 < stub_confidence n t i}"
    by (force simp: stub_hits_mem)
  moreover have "i \<in> set pool \<and> 0 < stub_confidence n t i \<longleftrightarrow> i \<in> set pool \<and>
      (\<exists>q \<in> set (question i). char_ngrams t n \<inter> char_ngrams q n \<noteq> {})" for i
    using stub_confidence_pos_iff [OF assms(1), of i n] by blast
  ultimately show ?thesis by (intro exI [of _ ?cs]) simp
qed

definition stub_pool :: "intent list" where
  "stub_pool = [mk_int ''hi'' ''root'' [''hello''] False None,
     mk_int ''lost'' ''card'' [''lost card'', ''card''] False None]"

lemma stub_pool_short: "short_texts (u ''card'') stub_pool"
  by (simp add: short_texts_def stub_pool_def mk_int_def)

theorem stub_score_complete_witness:
  "\<exists>cs. stub_score 2 (u ''card'') stub_pool 5 = Inr cs \<and> sorted (map rank_key cs) \<and>
    cand_id ` set cs =
      {intent_id i | i. i \<in> set stub_pool \<and>
        (\<exists>q \<in> set (question i). char_ngrams (u ''card'') 2 \<inter> char_ngrams q 2 \<noteq> {})}"
  by (rule stub_score_complete [OF stub_pool_short]) (simp add: stub_pool_def)

text \<open>
  A transcript that is literally a training question of an intent in the pool is answered
  with confidence 1 at the top, and the top candidate is then an intent one of whose questions
  has the very same n-grams.
\<close>

theorem stub_exact_match:
  assumes "short_texts t pool" and "i \<in> set pool" and "t \<in> set (question i)"
    and "strip t \<noteq> []" and "1 \<le> n_best"
  shows "\<exists>c cs j. stub_score n t pool n_best = Inr (c # cs) \<and> confidence c = 1 \<and>
    j \<in> set pool \<and> intent_id j = cand_id c \<and> (\<exists>q \<in> set (question j). char_ngrams q n = char_ngrams t n)"
proof -
  let ?hits = "stub_hits n t pool"
  let ?me = "\<lparr>cand_id = intent_id i, confidence = 1\<rparr>"
  have me: "?me \<in> set ?hits"
    using assms(2) stub_confidence_own_question [OF assms(3,4)] by (auto simp: stub_hits_mem)
  then obtain c ds where sorted: "sort_key rank_key ?hits = c # ds"
    by (cases "sort_key rank_key ?hits") (metis set_sort list.set(1) empty_iff, blast)
  then have c: "c \<in> set ?hits" by (metis set_sort list.set_intros(1))
  have "sorted (map rank_key (c # ds))" by (metis sorted sorted_sort_key)
  moreover have "?me \<in> set (c # ds)" using me by (metis sorted set_sort)
  ultimately have "rank_key c \<le> rank_key ?me" by auto
  then have "1 \<le> confidence c" by (auto simp: rank_key_def less_eq_prod_def)
  moreover obtain j where j: "j \<in> set pool"
      "c = \<lparr>cand_id = intent_id j, confidence = stub_confidence n t j\<rparr>"
    using c by (auto simp: stub_hits_mem)
  ultimately have one: "stub_confidence n t j = 1"
    using stub_confidence_unit(2) [of n t j] by simp
  have "stub_score n t pool n_best = Inr (c # py_prefix (n_best - 1) ds)"
    using assms(5) by (simp add: stub_score_eq sorted py_prefix_def take_Cons' nat_diff_distrib)
  then show ?thesis
    using j one stub_confidence_1 [OF assms(1) j(1) one] by auto
qed

theorem stub_exact_match_witness:
  "\<exists>c cs j. stub_score 2 (u ''card'') stub_pool 5 = Inr (c # cs) \<and> confidence c = 1 \<and>
    j \<in> set stub_pool \<and> intent_id j = cand_id c \<and>
    (\<exists>q \<in> set (question j). char_ngrams q 2 = char_ngrams (u ''card'') 2)"
proof (rule stub_exact_match [OF stub_pool_short])
  show "mk_int ''lost'' ''card'' [''lost card'', ''card''] False None \<in> set stub_pool"
    by (simp add: stub_pool_def)
  show "strip (u ''card'') \<noteq> []" by code_simp
qed (simp_all add: mk_int_def)

end
