(* ===== verification/Fusion.thy ===== *)
theory Fusion
  imports Matcher
begin

text \<open>
  The fusion layer, \<open>core/fusion.py\<close>: validated weights and their normalisation in float
  arithmetic, the configuration file, and \<open>fuse\<close>, which combines the matcher's ranking (Path A)
  with the single hypothesis of the end-to-end recogniser (Path B). The hypothesis type is that
  of \<open>models/slu/base.py\<close>.
\<close>

section \<open>Weights and configuration\<close>

record fusion_weights =
  w_a :: pyfloat
  w_b :: pyfloat

text \<open>The validating constructor: field bounds first, then the model validator.\<close>

definition FusionWeights :: "pyfloat \<Rightarrow> pyfloat \<Rightarrow> fusion_weights result" where
  "FusionWeights a b =
     (if \<not> (0 \<le> a \<and> a \<le> 1) then Inl (ValidationError ''w_a'')
      else if \<not> (0 \<le> b \<and> b \<le> 1) then Inl (ValidationError ''w_b'')
      else if a = 0 \<and> b = 0
           then Inl (ValidationError ''FusionWeights: w_a and w_b cannot both be zero'')
      else Inr \<lparr>w_a = a, w_b = b\<rparr>)"

definition normalized :: "fusion_weights \<Rightarrow> pyfloat \<times> pyfloat" where
  "normalized w = (let total = fadd (w_a w) (w_b w) in (fdiv (w_a w) total, fdiv (w_b w) total))"

record fusion_config =
  default_weights :: fusion_weights
  scene_weights :: "(pystr, fusion_weights) dict"

definition for_scene :: "fusion_config \<Rightarrow> pystr option \<Rightarrow> fusion_weights" where
  "for_scene cfg scene_id =
     (case scene_id of
        None \<Rightarrow> default_weights cfg
      | Some sid \<Rightarrow> (case dget (scene_weights cfg) sid of None \<Rightarrow> default_weights cfg | Some w \<Rightarrow> w))"

definition DEFAULT_CONFIG :: fusion_config where
  "DEFAULT_CONFIG = \<lparr>default_weights = \<lparr>w_a = 1, w_b = 0\<rparr>, scene_weights = []\<rparr>"

text \<open>
  \<open>FusionWeights(**block)\<close>. Reading a number out of a YAML value is pydantic's lax float
  validation, the parameter \<open>as_float\<close>; unknown keys are ignored, missing ones rejected.
\<close>

definition is_pstr :: "pyval \<Rightarrow> bool" where
  "is_pstr v = (case v of PStr _ \<Rightarrow> True | _ \<Rightarrow> False)"

definition weights_from_block :: "(pyval \<Rightarrow> pyfloat option) \<Rightarrow> pyval \<Rightarrow> fusion_weights result" where
  "weights_from_block as_float block =
     (case block of
        PDict d \<Rightarrow>
          if \<not> list_all (is_pstr \<circ> fst) d then Inl (TypeError ''keywords must be strings'')
          else (case (Option.bind (dget d (PStr (u ''w_a''))) as_float,
                      Option.bind (dget d (PStr (u ''w_b''))) as_float) of
                  (Some a, Some b) \<Rightarrow> FusionWeights a b
                | _ \<Rightarrow> Inl (ValidationError ''FusionWeights''))
      | _ \<Rightarrow> Inl (TypeError ''argument after ** must be a mapping''))"

definition scenes_from_block ::
  "(pyval \<Rightarrow> pyfloat option) \<Rightarrow> pyval \<Rightarrow> (pyval \<times> fusion_weights) list result" where
  "scenes_from_block as_float block =
     (case block of
        PDict d \<Rightarrow> mapE (\<lambda>(name, weights).
          bindE (weights_from_block as_float weights) (\<lambda>w. Inr (name, w))) d
      | _ \<Rightarrow> Inl (OtherError ''AttributeError''))"

definition string_key :: "pyval \<times> 'a \<Rightarrow> (pystr \<times> 'a) result" where
  "string_key p = (case fst p of PStr s \<Rightarrow> Inr (s, snd p) | _ \<Rightarrow> Inl (ValidationError ''scenes''))"

text \<open>
  The YAML reader is a parameter: \<open>read_yaml p\<close> is \<open>None\<close> when the file does not exist and
  otherwise the parsed document.
\<close>

definition load_fusion_config ::
  "(pyval \<Rightarrow> pyfloat option) \<Rightarrow> ('path \<Rightarrow> pyval option) \<Rightarrow> 'path option \<Rightarrow> fusion_config result"
where
  "load_fusion_config as_float read_yaml path =
     (case path of
        None \<Rightarrow> Inr DEFAULT_CONFIG
      | Some p \<Rightarrow>
          (case read_yaml p of
             None \<Rightarrow> Inr DEFAULT_CONFIG
           | Some doc \<Rightarrow>
               (let raw = (if truthy doc then doc else PDict [])
                in case raw of
                     PDict d \<Rightarrow>
                       (let dflt = (case dget d (PStr (u ''default'')) of Some v \<Rightarrow> v | None \<Rightarrow> PNone);
                            default_block = (if truthy dflt then dflt
                              else PDict [(PStr (u ''w_a''), PFloat 1), (PStr (u ''w_b''), PFloat 0)]);
                            scn = (case dget d (PStr (u ''scenes'')) of Some v \<Rightarrow> v | None \<Rightarrow> PNone);
                            scenes_block = (if truthy scn then scn else PDict [])
                        in bindE (weights_from_block as_float default_block) (\<lambda>dw.
                           bindE (scenes_from_block as_float scenes_block) (\<lambda>sws.
                           bindE (mapE string_key sws) (\<lambda>sw.
                             Inr \<lparr>default_weights = dw, scene_weights = sw\<rparr>))))
                   | _ \<Rightarrow> Inl (ValueError ''fusion.yaml must be a mapping at top level''))))"

section \<open>Fusing the two paths\<close>

record final_intent =
  fi_intent_id :: "intent_id option"
  fi_confidence :: pyfloat
  fi_duration_ms :: int

fun apply_path_a ::
  "pyfloat \<Rightarrow> match_candidate list \<Rightarrow> (intent_id, pyfloat) dict \<Rightarrow> (intent_id, pyfloat) dict" where
  "apply_path_a wa [] scores = scores"
| "apply_path_a wa (cand # cands) scores =
     apply_path_a wa cands
       (if cand_id cand \<in> set (dkeys scores)
        then dput (cand_id cand) (fmul wa (confidence cand)) scores else scores)"

definition b_hypothesis :: "final_intent option \<Rightarrow> intent list \<Rightarrow> (intent_id \<times> pyfloat) option" where
  "b_hypothesis slu_b candidates =
     (case slu_b of
        None \<Rightarrow> None
      | Some fi \<Rightarrow>
          (case fi_intent_id fi of
             None \<Rightarrow> None
           | Some iid \<Rightarrow>
               if list_ex (\<lambda>c. intent_id c = iid) candidates then Some (iid, fi_confidence fi) else None))"

text \<open>The score table; the dictionary comprehension runs over the set of identifiers.\<close>

definition fused_table ::
  "match_candidate list \<Rightarrow> intent_id \<Rightarrow> pyfloat \<Rightarrow> intent list \<Rightarrow> fusion_weights \<Rightarrow> (intent_id, pyfloat) dict"
where
  "fused_table ranked_a b_id b_conf candidates weights =
     (let (wa, wb) = normalized weights;
          scores0 = map (\<lambda>iid. (iid, 0)) (remdups (map intent_id candidates));
          scores1 = apply_path_a wa ranked_a scores0;
          old = (case dget scores1 b_id of Some s \<Rightarrow> s | None \<Rightarrow> 0)
      in dput b_id (fadd old (fmul wb b_conf)) scores1)"

definition fuse ::
  "match_candidate list \<Rightarrow> final_intent option \<Rightarrow> intent list \<Rightarrow> fusion_weights \<Rightarrow> int \<Rightarrow>
     match_candidate list result"
where
  "fuse ranked_a slu_b candidates weights n_best =
     (case b_hypothesis slu_b candidates of
        None \<Rightarrow> Inr (py_prefix n_best ranked_a)
      | Some (b_id, b_conf) \<Rightarrow>
          (let ranked = sort_key (\<lambda>kv. (- snd kv, fst kv))
                 (fused_table ranked_a b_id b_conf candidates weights)
           in bindE (mapE (\<lambda>(iid, score). MatchCandidate iid score) (filter (\<lambda>kv. 0 < snd kv) ranked))
                (\<lambda>fused. Inr (py_prefix n_best fused))))"

section \<open>What the score table holds\<close>

definition path_a_conf :: "match_candidate list \<Rightarrow> intent_id \<Rightarrow> pyfloat" where
  "path_a_conf ra i =
     (case dget (rev (map (\<lambda>c. (cand_id c, confidence c)) ra)) i of Some c \<Rightarrow> c | None \<Rightarrow> 0)"

definition fused_score ::
  "match_candidate list \<Rightarrow> intent_id \<Rightarrow> pyfloat \<Rightarrow> fusion_weights \<Rightarrow> intent_id \<Rightarrow> pyfloat" where
  "fused_score ra b_id b_conf w i =
     (let (wa, wb) = normalized w; a = fmul wa (path_a_conf ra i)
      in if i = b_id then fadd a (fmul wb b_conf) else a)"

definition fused_candidate ::
  "match_candidate list \<Rightarrow> intent_id \<Rightarrow> pyfloat \<Rightarrow> fusion_weights \<Rightarrow> intent_id \<Rightarrow> match_candidate" where
  "fused_candidate ra b_id b_conf w i = \<lparr>cand_id = i, confidence = fused_score ra b_id b_conf w i\<rparr>"

lemma dkeys_apply_path_a [simp]: "dkeys (apply_path_a wa cs s) = dkeys s"
proof (induction cs arbitrary: s)
  case (Cons c cs)
  show ?case unfolding apply_path_a.simps Cons.IH by (simp add: dkeys_dput)
qed simp

lemma dget_apply_path_a:
  "i \<in> set (dkeys s) \<Longrightarrow> dget (apply_path_a wa cs s) i =
     (case dget (rev (map (\<lambda>c. (cand_id c, confidence c)) cs)) i of
        Some c \<Rightarrow> Some (fmul wa c) | None \<Rightarrow> dget s i)"
  by (induction cs arbitrary: s)
    (auto simp: dict_simps map_of_append map_add_def simp del: set_map split: option.splits)

lemma fmul_0 [simp]: "fmul w 0 = 0"
  by (simp add: fmul_def)

lemma dget_scores1:
  assumes "i \<in> set ids"
  shows "dget (apply_path_a wa ra (map (\<lambda>i. (i, 0)) (remdups ids))) i =
    Some (fmul wa (path_a_conf ra i))"
proof -
  have "dget (map (\<lambda>i. (i, 0 :: pyfloat)) (remdups ids)) i = Some 0"
    using assms by (simp add: map_of_map_restrict)
  then show ?thesis using assms
    by (subst dget_apply_path_a) (auto simp: path_a_conf_def comp_def split: option.splits)
qed

lemma fused_table_eq:
  assumes "b_id \<in> intent_id ` set pool"
  shows "fused_table ra b_id b_conf pool w =
    map (\<lambda>i. (i, fused_score ra b_id b_conf w i)) (remdups (map intent_id pool))" (is "?l = ?r")
proof -
  let ?ids = "map intent_id pool"
  have keys: "dkeys ?l = remdups ?ids"
    using assms by (auto simp: fused_table_def Let_def dkeys_dput comp_def split: prod.split)
  have "dget ?l i = Some (fused_score ra b_id b_conf w i)" if "i \<in> set ?ids" for i
    using that assms dget_scores1 [of _ ?ids]
    by (auto simp: fused_table_def Let_def fused_score_def dict_simps split: prod.split)
  note get = this
  have mem: "dget ?l (fst p) = Some (snd p)" "fst p \<in> set ?ids" if "p \<in> set ?l" for p
  proof -
    have "wf_dict ?l" by (simp add: wf_dict_def keys)
    then show "dget ?l (fst p) = Some (snd p)" using that by (simp add: dget_mem)
    have "fst p \<in> set (dkeys ?l)" using that by simp
    then show "fst p \<in> set ?ids" unfolding keys by simp
  qed
  have val: "snd p = fused_score ra b_id b_conf w (fst p)" if "p \<in> set ?l" for p
    using get [OF mem(2) [OF that]] mem(1) [OF that] by simp
  have "?l = map (\<lambda>i. (i, fused_score ra b_id b_conf w i)) (dkeys ?l)"
    using val by (intro nth_equalityI) (auto simp: prod_eq_iff)
  then show ?thesis unfolding keys .
qed

lemma b_hypothesis_Some:
  "b_hypothesis slu_b pool = Some (b_id, b_conf) \<longleftrightarrow>
     (\<exists>fi. slu_b = Some fi \<and> fi_intent_id fi = Some b_id \<and> fi_confidence fi = b_conf \<and>
        b_id \<in> intent_id ` set pool)"
  by (auto simp: b_hypothesis_def list_ex_iff split: option.splits)

lemma mapE_MatchCandidate:
  "mapE (\<lambda>(i, s). MatchCandidate i s) kvs =
     (if \<forall>kv \<in> set kvs. 0 \<le> snd kv \<and> snd kv \<le> 1
      then Inr (map (\<lambda>kv. \<lparr>cand_id = fst kv, confidence = snd kv\<rparr>) kvs)
      else Inl (ValidationError ''confidence''))"
  by (induction kvs) (auto simp: MatchCandidate_def)

lemma sort_key_map_comp: "sort_key f (map g xs) = map g (sort_key (f \<circ> g) xs)"
proof -
  have "map g (insort_key (f \<circ> g) x xs) = insort_key f (g x) (map g xs)" for x xs
    by (induction xs) auto
  then show ?thesis by (induction xs) (auto simp: sort_key_def)
qed

text \<open>
  With an active Path B hypothesis, fusion either ranks the positive scores of the pool's
  identifiers, or some score exceeds 1 and the candidate constructor rejects it.
\<close>

definition positive_ids ::
  "match_candidate list \<Rightarrow> intent_id \<Rightarrow> pyfloat \<Rightarrow> intent list \<Rightarrow> fusion_weights \<Rightarrow> intent_id list" where
  "positive_ids ra b_id b_conf pool w =
     filter (\<lambda>i. 0 < fused_score ra b_id b_conf w i) (remdups (map intent_id pool))"

lemma fuse_active:
  assumes "b_hypothesis slu_b pool = Some (b_id, b_conf)"
  shows "fuse ra slu_b pool w n =
    (if \<forall>i \<in> intent_id ` set pool. fused_score ra b_id b_conf w i \<le> 1
     then Inr (py_prefix n (sort_key rank_key
            (map (fused_candidate ra b_id b_conf w) (positive_ids ra b_id b_conf pool w))))
     else Inl (ValidationError ''confidence''))"
proof -
  let ?s = "fused_score ra b_id b_conf w"
  let ?kvs = "filter (\<lambda>kv. 0 < snd kv)
    (sort_key (\<lambda>kv. (- snd kv, fst kv)) (fused_table ra b_id b_conf pool w))"
  have tab: "fused_table ra b_id b_conf pool w = map (\<lambda>i. (i, ?s i)) (remdups (map intent_id pool))"
    using assms by (intro fused_table_eq) (auto simp: b_hypothesis_Some)
  have set: "set ?kvs = (\<lambda>i. (i, ?s i)) ` {i \<in> intent_id ` set pool. 0 < ?s i}"
    by (auto simp: tab)
  have small: "0 < ?s i \<or> ?s i \<le> 1" for i by linarith
  have ok: "(\<forall>kv \<in> set ?kvs. 0 \<le> snd kv \<and> snd kv \<le> 1) \<longleftrightarrow>
      (\<forall>i \<in> intent_id ` set pool. ?s i \<le> 1)"
    unfolding set using small by auto
  have kvs: "?kvs = map (\<lambda>i. (i, ?s i))
      (sort_key (\<lambda>i. (- ?s i, i)) (positive_ids ra b_id b_conf pool w))"
    by (simp add: tab sort_key_map_comp comp_def filter_map positive_ids_def filter_sort)
  have "map (\<lambda>kv. \<lparr>cand_id = fst kv, confidence = snd kv\<rparr>) ?kvs = sort_key rank_key
      (map (fused_candidate ra b_id b_conf w) (positive_ids ra b_id b_conf pool w))"
    unfolding kvs by (simp add: sort_key_map_comp comp_def fused_candidate_def rank_key_def)
  then show ?thesis using assms ok
    by (simp add: fuse_def Let_def mapE_MatchCandidate)
qed

lemma fuse_inactive: "b_hypothesis slu_b pool = None \<Longrightarrow> fuse ra slu_b pool w n = Inr (py_prefix n ra)"
  by (simp add: fuse_def)

section \<open>When the scores stay in the unit interval\<close>

lemma fdiv_nonneg: "0 \<le> a \<Longrightarrow> 0 \<le> b \<Longrightarrow> 0 \<le> fdiv a b"
  by (simp add: fdiv_def fl_ge_double)

lemma fadd_nonneg: "0 \<le> a \<Longrightarrow> 0 \<le> b \<Longrightarrow> 0 \<le> fadd a b"
  by (simp add: fadd_def fl_ge_double)

lemma normalized_nonneg:
  assumes "FusionWeights a b = Inr w" and "normalized w = (wa, wb)"
  shows "0 \<le> wa" "0 \<le> wb" "is_double wa" "is_double wb"
  using assms
  by (auto simp: FusionWeights_def normalized_def Let_def fdiv_nonneg fadd_nonneg split: if_splits)

definition unit_confidences :: "match_candidate list \<Rightarrow> bool" where
  "unit_confidences ra \<longleftrightarrow> (\<forall>c \<in> set ra. 0 \<le> confidence c \<and> confidence c \<le> 1)"

lemma path_a_conf_unit:
  assumes "unit_confidences ra"
  shows "0 \<le> path_a_conf ra i" and "path_a_conf ra i \<le> 1"
  using assms by (auto simp: path_a_conf_def unit_confidences_def split: option.splits
      dest!: map_of_SomeD)

lemma fused_score_le_1:
  assumes w: "FusionWeights a b = Inr w" "normalized w = (wa, wb)" and sum: "wa + wb \<le> 1"
    and conf: "unit_confidences ra" "0 \<le> b_conf" "b_conf \<le> 1"
  shows "fused_score ra b_id b_conf w i \<le> 1"
proof -
  note nn = normalized_nonneg [OF w]
  have A: "fmul wa (path_a_conf ra i) \<le> wa"
    using fmul_unit(2) [OF path_a_conf_unit [OF conf(1)]] nn by auto
  have B: "fmul wb b_conf \<le> wb" using fmul_unit(2) [OF conf(2,3)] nn by auto
  have "fadd (fmul wa (path_a_conf ra i)) (fmul wb b_conf) \<le> 1"
    unfolding fadd_def using A B sum by (intro fl_le_double) auto
  then show ?thesis using A nn sum w(2) by (auto simp: fused_score_def Let_def)
qed

lemma fuse_total:
  assumes "FusionWeights a b = Inr w" and "normalized w = (wa, wb)" and "wa + wb \<le> 1"
    and "unit_confidences ra" and "0 \<le> fi_confidence fi" and "fi_confidence fi \<le> 1"
  shows "\<exists>cs. fuse ra (Some fi) pool w n = Inr cs"
proof (cases "b_hypothesis (Some fi) pool")
  case None
  then show ?thesis by (simp add: fuse_inactive)
next
  case (Some p)
  obtain b_id b_conf where p: "p = (b_id, b_conf)" by (cases p)
  have "b_conf = fi_confidence fi" using Some p by (auto simp: b_hypothesis_Some)
  then show ?thesis using Some p fused_score_le_1 [OF assms(1-4)] assms(5,6)
    by (simp add: fuse_active)
qed

lemma fuse_mem:
  assumes "b_hypothesis slu_b pool = Some (b_id, b_conf)" and "fuse ra slu_b pool w n = Inr cs"
  shows "cs = py_prefix n (sort_key rank_key
      (map (fused_candidate ra b_id b_conf w) (positive_ids ra b_id b_conf pool w)))"
    and "i \<in> intent_id ` set pool \<Longrightarrow> fused_score ra b_id b_conf w i \<le> 1"
  using assms by (auto simp: fuse_active split: if_splits)

lemma fused_score_double [simp]: "is_double (fused_score ra b_id b_conf w i)"
  by (simp add: fused_score_def Let_def split: prod.split)

lemma distinct_fused_ids:
  "distinct (map cand_id (sort_key rank_key
     (map (fused_candidate ra b_id b_conf w) (positive_ids ra b_id b_conf pool w))))"
proof -
  have "distinct (map cand_id (map (fused_candidate ra b_id b_conf w) (positive_ids ra b_id b_conf pool w)))"
    by (simp add: positive_ids_def fused_candidate_def comp_def)
  then show ?thesis by (metis distinct_map distinct_sort set_sort)
qed

lemma fuse_active_ranked:
  assumes b: "b_hypothesis slu_b pool = Some (b_id, b_conf)" and "fuse ra slu_b pool w n = Inr cs"
  shows "ranked_list pool n cs" and "distinct (map cand_id cs)"
proof -
  let ?all = "map (fused_candidate ra b_id b_conf w) (positive_ids ra b_id b_conf pool w)"
  note cs = fuse_mem [OF assms]
  have "set cs \<subseteq> set ?all" using set_py_prefix [of n "sort_key rank_key ?all"] by (simp add: cs(1))
  moreover have "cand_id c \<in> intent_id ` set pool \<and> 0 \<le> confidence c \<and> confidence c \<le> 1
        \<and> is_double (confidence c)" if "c \<in> set ?all" for c
    using that cs(2) by (auto simp: positive_ids_def fused_candidate_def)
  ultimately have "\<forall>c \<in> set cs. cand_id c \<in> intent_id ` set pool \<and> 0 \<le> confidence c \<and>
      confidence c \<le> 1 \<and> is_double (confidence c)"
    by blast
  then show "ranked_list pool n cs"
    by (simp add: cs(1) ranked_list_def sorted_py_prefix length_py_prefix)
  show "distinct (map cand_id cs)" by (simp add: cs(1) distinct_py_prefix distinct_fused_ids)
qed

lemma ranked_list_prefix:
  assumes "ranked_list pool m cs"
  shows "ranked_list pool n (py_prefix n cs)"
  using assms set_py_prefix [of n cs]
  by (auto simp: ranked_list_def sorted_py_prefix length_py_prefix)

text \<open>
  Fusing a matcher's answer keeps the matcher's contract, whatever the matcher and whatever
  Path B says.
\<close>

context intent_matcher
begin

lemma fuse_keeps_contract:
  assumes "score t pool n = Inr ra" and "fuse ra slu_b pool w n = Inr cs"
  shows "ranked_list pool n cs"
proof (cases "b_hypothesis slu_b pool")
  case None
  then show ?thesis using assms(2) ranked_list_prefix [OF score_ranked [OF assms(1)]]
    by (auto simp: fuse_inactive)
next
  case (Some p)
  then show ?thesis using fuse_active_ranked(1) [of slu_b pool "fst p" "snd p"] assms(2) by simp
qed

lemma score_unit: "score t pool n = Inr ra \<Longrightarrow> unit_confidences ra"
  using score_ranked by (fastforce simp: ranked_list_def unit_confidences_def)

end

lemma normalized_equal:
  assumes "0 < a" and "a \<le> 1" and "is_double a"
  shows "normalized \<lparr>w_a = a, w_b = a\<rparr> = (1 / 2, 1 / 2)"
proof -
  have "fl (a + a) = 2 * a"
    using is_double_twice [of a] assms by (simp add: is_double_def)
  moreover have "fl (1 / 2) = 1 / 2"
    using is_double_grid [of 1 1] by (simp add: is_double_def)
  ultimately show ?thesis using assms(1) by (simp add: normalized_def float_ops)
qed

lemma normalized_single:
  assumes "0 < a" and "is_double a"
  shows "normalized \<lparr>w_a = a, w_b = 0\<rparr> = (1, 0)" and "normalized \<lparr>w_a = 0, w_b = a\<rparr> = (0, 1)"
  using assms by (simp_all add: normalized_def float_ops is_double_def)

section \<open>Properties\<close>

text \<open>
  C30. What fusion computes: when it returns a list for a Path B hypothesis in scope, that list is
  the first \<open>n_best\<close> entries (Python's slice, so all of them when there are fewer) of a full ranking.
  The full ranking holds exactly the pool's intents with a positive weighted sum of their two
  confidences (computed in float arithmetic with the normalised weights), each once, by
  descending score with ties broken by the identifier.
\<close>

theorem fuse_correct:
  assumes "fuse ra (Some fi) pool w n = Inr cs" and "fi_intent_id fi = Some b_id"
    and "b_id \<in> intent_id ` set pool"
  shows "\<exists>full. cs = py_prefix n full \<and> sorted (map rank_key full) \<and> distinct (map cand_id full) \<and>
    set full = {\<lparr>cand_id = i, confidence = fused_score ra b_id (fi_confidence fi) w i\<rparr> | i.
      i \<in> intent_id ` set pool \<and> 0 < fused_score ra b_id (fi_confidence fi) w i}"
proof -
  let ?c = "fi_confidence fi"
  let ?all = "map (fused_candidate ra b_id ?c w) (positive_ids ra b_id ?c pool w)"
  have b: "b_hypothesis (Some fi) pool = Some (b_id, ?c)"
    using assms(2,3) by (simp add: b_hypothesis_Some)
  have "distinct (map cand_id (sort_key rank_key ?all))" by (rule distinct_fused_ids)
  moreover have "set (sort_key rank_key ?all) = {\<lparr>cand_id = i, confidence = fused_score ra b_id ?c w i\<rparr> | i.
      i \<in> intent_id ` set pool \<and> 0 < fused_score ra b_id ?c w i}"
    by (auto simp: positive_ids_def fused_candidate_def)
  ultimately show ?thesis
    using fuse_mem(1) [OF b assms(1)] by (intro exI [of _ "sort_key rank_key ?all"]) simp
qed

text \<open>Equal weights, and a hypothesis for the first intent of the example pool.\<close>

definition half_weights :: fusion_weights where
  "half_weights = \<lparr>w_a = 1, w_b = 1\<rparr>"

definition hi_hypothesis :: final_intent where
  "hi_hypothesis = \<lparr>fi_intent_id = Some (u ''hi''), fi_confidence = 1, fi_duration_ms = 0\<rparr>"

lemma half_weights_valid: "FusionWeights 1 1 = Inr half_weights"
  by (simp add: FusionWeights_def half_weights_def)

lemma half_weights_fuse:
  "unit_confidences ra \<Longrightarrow> \<exists>cs. fuse ra (Some hi_hypothesis) pool half_weights n = Inr cs"
  using fuse_total [OF half_weights_valid, of "1 / 2" "1 / 2"] normalized_equal [of 1]
  by (simp add: half_weights_def hi_hypothesis_def)

theorem fuse_correct_witness:
  "\<exists>cs full. fuse [\<lparr>cand_id = u ''lost'', confidence = 1\<rparr>] (Some hi_hypothesis) stub_pool half_weights 1 = Inr cs \<and>
     cs = py_prefix 1 full \<and> sorted (map rank_key full) \<and> distinct (map cand_id full) \<and>
     set full = {\<lparr>cand_id = i, confidence = fused_score [\<lparr>cand_id = u ''lost'', confidence = 1\<rparr>]
         (u ''hi'') (fi_confidence hi_hypothesis) half_weights i\<rparr> | i.
       i \<in> intent_id ` set stub_pool \<and> 0 < fused_score [\<lparr>cand_id = u ''lost'', confidence = 1\<rparr>]
         (u ''hi'') (fi_confidence hi_hypothesis) half_weights i}"
proof -
  let ?ra = "[\<lparr>cand_id = u ''lost'', confidence = 1\<rparr>]"
  obtain cs where run: "fuse ?ra (Some hi_hypothesis) stub_pool half_weights 1 = Inr cs"
    using half_weights_fuse [of ?ra] by (auto simp: unit_confidences_def)
  have id: "fi_intent_id hi_hypothesis = Some (u ''hi'')" by (simp add: hi_hypothesis_def)
  have mem: "u ''hi'' \<in> intent_id ` set stub_pool" by (simp add: stub_pool_def mk_int_def)
  obtain full where full: "cs = py_prefix 1 full \<and> sorted (map rank_key full) \<and> distinct (map cand_id full) \<and>
     set full = {\<lparr>cand_id = i, confidence = fused_score ?ra (u ''hi'') (fi_confidence hi_hypothesis) half_weights i\<rparr> | i.
       i \<in> intent_id ` set stub_pool \<and> 0 < fused_score ?ra (u ''hi'') (fi_confidence hi_hypothesis) half_weights i}"
    using fuse_correct [OF run id mem] by (rule exE)
  show ?thesis by (rule exI [of _ cs], rule exI [of _ full], rule conjI [OF run full])
qed

text \<open>
  Fusing the answer of any of the stub matchers keeps the matcher contract, whatever Path B
  hypothesises: identifiers from the pool, confidences in the unit interval, descending order
  and at most \<open>n_best\<close> entries.
\<close>

theorem fuse_stub_ranked:
  assumes "stub_score ngram t pool n = Inr ra" and "fuse ra slu_b pool w n = Inr cs"
  shows "ranked_list pool n cs"
  using assms by (rule stub.fuse_keeps_contract)

theorem fuse_stub_ranked_witness:
  "\<exists>ra cs. stub_score 2 (u ''card'') stub_pool 5 = Inr ra \<and>
     fuse ra (Some hi_hypothesis) stub_pool half_weights 5 = Inr cs \<and> ranked_list stub_pool 5 cs"
proof -
  obtain ra where ra: "stub_score 2 (u ''card'') stub_pool 5 = Inr ra" by (simp add: stub_score_eq)
  then have "unit_confidences ra" by (rule stub.score_unit)
  then obtain cs where "fuse ra (Some hi_hypothesis) stub_pool half_weights 5 = Inr cs"
    using half_weights_fuse by blast
  then show ?thesis using ra fuse_stub_ranked [OF ra] by blast
qed

text \<open>
  Fusion of valid inputs succeeds when one path has no weight or both weigh the same: for
  validated weights of that kind, a matcher ranking with confidences in the unit interval and a
  valid Path B hypothesis, a list is returned.
\<close>

theorem fuse_total_balanced:
  assumes "FusionWeights a b = Inr w" and "is_double a" and "is_double b"
    and "a = b \<or> a = 0 \<or> b = 0" and "unit_confidences ra"
    and "0 \<le> fi_confidence fi" and "fi_confidence fi \<le> 1"
  shows "\<exists>cs. fuse ra (Some fi) pool w n = Inr cs"
proof -
  have w: "w = \<lparr>w_a = a, w_b = b\<rparr>" "0 \<le> a" "a \<le> 1" "0 \<le> b" "b \<le> 1" "\<not> (a = 0 \<and> b = 0)"
    using assms(1) by (auto simp: FusionWeights_def split: if_splits)
  obtain wa wb where n: "normalized w = (wa, wb)" by (cases "normalized w")
  have "wa + wb \<le> 1"
    using n w assms(2-4) normalized_equal [of a] normalized_single [of a] normalized_single [of b]
    by (auto simp: less_le)
  then show ?thesis using assms(5-7) by (rule fuse_total [OF assms(1) n])
qed

theorem fuse_total_balanced_witness:
  "\<exists>cs. fuse [\<lparr>cand_id = u ''lost'', confidence = 1\<rparr>] (Some hi_hypothesis) stub_pool half_weights 5 = Inr cs"
  by (rule fuse_total_balanced [OF half_weights_valid])
    (simp_all add: unit_confidences_def hi_hypothesis_def)

text \<open>
  For other weights the normalised weights may sum to more than 1 after rounding: with the
  valid weights 0.03 and 0.29, both paths certain of the same intent of the pool, the fused
  score exceeds 1 and fusion raises a validation error instead of answering.
\<close>

theorem fuse_rejects_certain_intent:
  "\<exists>w i. FusionWeights (fl (3 / 100)) (fl (29 / 100)) = Inr w \<and>
     fuse [\<lparr>cand_id = intent_id i, confidence = 1\<rparr>]
       (Some \<lparr>fi_intent_id = Some (intent_id i), fi_confidence = 1, fi_duration_ms = 0\<rparr>) [i] w 5 =
       Inl (ValidationError ''confidence'')"
proof -
  let ?a = "8646911284551352 / 2 ^ 58 :: rat" and ?b = "5224175567749775 / 2 ^ 54 :: rat"
  let ?w = "\<lparr>w_a = ?a, w_b = ?b\<rparr>"
  let ?i = "mk_int ''hi'' ''root'' [''hello''] False None"
  have a: "fl (3 / 100) = ?a" using fl_eqI [of "3 / 100" 58 8646911284551352] by simp
  have b: "fl (29 / 100) = ?b" using fl_eqI [of "29 / 100" 54 5224175567749775] by simp
  have w: "FusionWeights (fl (3 / 100)) (fl (29 / 100)) = Inr ?w"
    unfolding a b by (simp add: FusionWeights_def)
  let ?t = "of_int 5764607523034234 / 2 ^ 54 :: rat"
  let ?x = "of_int 6755399441055745 / 2 ^ 56 :: rat" and ?y = "of_int 8162774324609025 / 2 ^ 53 :: rat"
  let ?s = "of_int 4503599627370497 / 2 ^ 52 :: rat"
  have t: "fl (?a + ?b) = ?t" by (rule fl_tieI) simp_all
  have x: "fl (?a / ?t) = ?x" by (rule fl_eqI) simp_all
  have y: "fl (?b / ?t) = ?y" by (rule fl_eqI) simp_all
  have n: "normalized ?w = (?x, ?y)"
    by (simp only: normalized_def float_ops Let_def fusion_weights.simps t x y)
  have d: "fmul ?x 1 = ?x" "fmul ?y 1 = ?y"
    using is_double_grid [of 6755399441055745 56] is_double_grid [of 8162774324609025 53]
    by (simp_all only: fmul_def is_double_def mult_1_right) simp_all
  have s: "fadd ?x ?y = ?s" unfolding fadd_def by (rule fl_eqI) simp_all
  have "fused_score [\<lparr>cand_id = intent_id ?i, confidence = 1\<rparr>] (intent_id ?i) 1 ?w (intent_id ?i) =
      ?s"
  proof -
    have "path_a_conf [\<lparr>cand_id = intent_id ?i, confidence = 1\<rparr>] (intent_id ?i) = 1"
      by (simp add: path_a_conf_def)
    then show ?thesis
      by (simp only: fused_score_def n Let_def prod.case d s if_True refl)
  qed
  moreover have "b_hypothesis (Some \<lparr>fi_intent_id = Some (intent_id ?i), fi_confidence = 1,
      fi_duration_ms = 0\<rparr>) [?i] = Some (intent_id ?i, 1)"
    by (simp add: b_hypothesis_def)
  ultimately have "fuse [\<lparr>cand_id = intent_id ?i, confidence = 1\<rparr>]
      (Some \<lparr>fi_intent_id = Some (intent_id ?i), fi_confidence = 1, fi_duration_ms = 0\<rparr>) [?i] ?w 5 =
      Inl (ValidationError ''confidence'')"
    by (simp add: fuse_active)
  then show ?thesis using w by blast
qed

end
