(* ===== verification/Storage.thy ===== *)
theory Storage
  imports Example_Scenes
begin

text \<open>
  The stores the orchestrator uses: the scene registry of \<open>storage/scene_registry.py\<close> and the
  session store of \<open>storage/session_store.py\<close>. The registry's directory listing and YAML reader
  are parameters. The identifier that \<open>uuid4\<close> draws for a new session is an argument of
  \<open>store_create\<close>. The store hands out deep copies, so a session is a value; the one alias, the
  object \<open>create\<close> both stores and returns, is overwritten by the \<open>put\<close> that ends a turn.
\<close>

section \<open>Scene registry\<close>

type_synonym scene_registry = "(pystr, category_tree) dict"

fun registry_load ::
  "('path \<Rightarrow> scene_data option) \<Rightarrow> (pystr \<times> 'path) list \<Rightarrow> scene_registry \<Rightarrow> scene_registry result"
where
  "registry_load read [] trees = Inr trees"
| "registry_load read ((scene_id, path) # files) trees =
     (if scene_id \<in> set (dkeys trees)
      then Inl (ValueError ''duplicate scene id derived from filename'')
      else bindE (load_scene read path) (\<lambda>tree. registry_load read files (dput scene_id tree trees)))"

text \<open>\<open>listing\<close> is the sorted \<open>*.yaml\<close> listing with stems, \<open>None\<close> when the directory is missing.\<close>

definition from_directory ::
  "('path \<Rightarrow> scene_data option) \<Rightarrow> (pystr \<times> 'path) list option \<Rightarrow> scene_registry result" where
  "from_directory read listing =
     (case listing of
        None \<Rightarrow> Inl FileNotFoundError
      | Some files \<Rightarrow> registry_load read files [])"

definition list_scenes :: "scene_registry \<Rightarrow> pystr list" where
  "list_scenes reg = sort (dkeys reg)"

definition registry_get :: "scene_registry \<Rightarrow> pystr \<Rightarrow> category_tree result" where
  "registry_get reg scene_id =
     (case dget reg scene_id of None \<Rightarrow> Inl (KeyError ''unknown scene'') | Some t \<Rightarrow> Inr t)"

fun scenes_with_root_name :: "scene_registry \<Rightarrow> pystr \<Rightarrow> pystr list result" where
  "scenes_with_root_name [] root_name = Inr []"
| "scenes_with_root_name ((sid, tree) # rest) root_name =
     bindE (tree_get tree (root_id tree)) (\<lambda>root.
     bindE (scenes_with_root_name rest root_name) (\<lambda>ms.
       Inr (if cat_name root = root_name then sid # ms else ms)))"

definition registry_resolve ::
  "scene_registry \<Rightarrow> pystr option \<Rightarrow> category_path option \<Rightarrow> (pystr \<times> category_id) result" where
  "registry_resolve reg scene_id category_path =
     (case category_path of
        Some path \<Rightarrow>
          (case path_parts path of
             [] \<Rightarrow> Inl (ValueError ''category_path is empty'')
           | root_name # _ \<Rightarrow>
               bindE (scenes_with_root_name reg root_name) (\<lambda>matches.
                 case matches of
                   [] \<Rightarrow> Inl (KeyError ''no scene has root named'')
                 | [sid] \<Rightarrow>
                     bindE (registry_get reg sid) (\<lambda>tree.
                     bindE (resolve_path tree path) (\<lambda>category. Inr (sid, cat_id category)))
                 | _ \<Rightarrow> Inl (KeyError ''scene root name is ambiguous'')))
      | None \<Rightarrow>
          (case scene_id of
             None \<Rightarrow> Inl (ValueError ''either scene_id or category_path must be provided'')
           | Some sid \<Rightarrow> bindE (registry_get reg sid) (\<lambda>tree. Inr (sid, root_id tree))))"

section \<open>Session store\<close>

type_synonym session_store = "(pystr, session) dict"

definition store_create ::
  "pystr \<Rightarrow> category_id \<Rightarrow> session_store \<Rightarrow> session \<times> session_store" where
  "store_create uuid category_id st =
     (let session = new_session uuid category_id in (session, dput (session_id session) session st))"

definition store_get :: "pystr \<Rightarrow> session_store \<Rightarrow> session result" where
  "store_get sid st = (case dget st sid of None \<Rightarrow> Inl (KeyError ''unknown session'') | Some s \<Rightarrow> Inr s)"

definition store_put :: "session \<Rightarrow> session_store \<Rightarrow> session_store" where
  "store_put s st = dput (session_id s) s st"

definition store_delete :: "pystr \<Rightarrow> session_store \<Rightarrow> session_store" where
  "store_delete sid st = dpop sid st"

section \<open>The session store contract\<close>

text \<open>
  The \<open>SessionStore\<close> protocol: what a lookup returns after each operation, that a failed lookup
  is a \<open>KeyError\<close>, and that under the store's invariant a session is filed under its own
  identifier.
\<close>

locale session_store_ops =
  fixes inv :: "'s \<Rightarrow> bool"
    and create :: "pystr \<Rightarrow> category_id \<Rightarrow> 's \<Rightarrow> session \<times> 's"
    and get :: "pystr \<Rightarrow> 's \<Rightarrow> session result"
    and put :: "session \<Rightarrow> 's \<Rightarrow> 's"
    and delete :: "pystr \<Rightarrow> 's \<Rightarrow> 's"
  assumes create_session: "fst (create uuid c s) = new_session uuid c"
    and create_get: "get sid (snd (create uuid c s)) =
      (if sid = uuid then Inr (new_session uuid c) else get sid s)"
    and put_get: "get sid (put x s) = (if sid = session_id x then Inr x else get sid s)"
    and delete_get: "sid \<noteq> sid' \<Longrightarrow> get sid (delete sid' s) = get sid s"
    and delete_gone: "\<exists>e. get sid (delete sid s) = Inl e"
    and get_error: "get sid s = Inl e \<Longrightarrow> is_key_error e"
    and get_id: "inv s \<Longrightarrow> get sid s = Inr x \<Longrightarrow> session_id x = sid"
    and inv_create: "inv s \<Longrightarrow> inv (snd (create uuid c s))"
    and inv_put: "inv s \<Longrightarrow> inv (put x s)"
    and inv_delete: "inv s \<Longrightarrow> inv (delete sid s)"
begin

lemma create_then_put:
  assumes "session_id x = uuid"
  shows "get sid (put x (snd (create uuid c s))) = (if sid = uuid then Inr x else get sid s)"
  using assms by (simp add: put_get create_get)

lemma get_cases: "(\<exists>x. get sid s = Inr x) \<or> (\<exists>m. get sid s = Inl (KeyError m))"
proof (cases "get sid s")
  case (Inl e)
  then show ?thesis using get_error [OF Inl] by (cases e) auto
qed simp

lemma delete_not_found: "\<exists>m. get sid (delete sid s) = Inl (KeyError m)"
  using delete_gone [of sid s] get_cases [of sid "delete sid s"] by auto

lemma delete_put_roundtrip:
  "get sid (put x (delete (session_id x) s)) = get sid (put x s)"
  by (simp add: put_get delete_get)

end

definition wf_store :: "session_store \<Rightarrow> bool" where
  "wf_store st \<longleftrightarrow> wf_dict st \<and> (\<forall>sid x. dget st sid = Some x \<longrightarrow> session_id x = sid)"

lemmas store_ops = store_create_def store_get_def store_put_def store_delete_def

interpretation mem: session_store_ops wf_store store_create store_get store_put store_delete
  by unfold_locales
    (auto simp: store_ops wf_store_def new_session_def dict_simps Let_def split: if_splits option.splits)

section \<open>What the registry holds\<close>

definition valid_registry :: "scene_registry \<Rightarrow> bool" where
  "valid_registry reg \<longleftrightarrow> wf_dict reg \<and> (\<forall>sid t. dget reg sid = Some t \<longrightarrow> valid_scene t)"

lemma load_scene_is_valid: "load_scene read path = Inr t \<Longrightarrow> valid_scene t"
  by (auto simp: load_scene_def split: option.splits intro: load_scene_from_dict_valid)

lemma registry_load_props:
  assumes "registry_load read files trees = Inr reg" and "valid_registry trees"
  shows "valid_registry reg \<and> dkeys reg = dkeys trees @ map fst files"
  using assms
proof (induction read files trees rule: registry_load.induct)
  case (2 read sid path files trees)
  then obtain t where t: "load_scene read path = Inr t" "sid \<notin> set (dkeys trees)"
    and rest: "registry_load read files (dput sid t trees) = Inr reg"
    by (auto simp: result_simps split: if_splits)
  have "valid_registry (dput sid t trees)"
    using 2(3) load_scene_is_valid [OF t(1)] by (auto simp: valid_registry_def dict_simps split: if_splits)
  then show ?case using 2(1) t rest by (auto simp: dkeys_dput)
qed simp

lemma scenes_with_root_name_eq:
  assumes "\<And>sid t. (sid, t) \<in> set reg \<Longrightarrow> \<exists>r. dget (categories t) (root_id t) = Some r"
  shows "scenes_with_root_name reg nm = Inr (map fst
    (filter (\<lambda>(sid, t). cat_name (the (dget (categories t) (root_id t))) = nm) reg))"
  using assms
proof (induction reg)
  case (Cons p reg)
  obtain sid t where p: "p = (sid, t)" by (cases p)
  then obtain r where "dget (categories t) (root_id t) = Some r" using Cons.prems by auto
  moreover have "scenes_with_root_name reg nm = Inr (map fst
    (filter (\<lambda>(sid, t). cat_name (the (dget (categories t) (root_id t))) = nm) reg))"
    using Cons.prems by (intro Cons.IH) auto
  ultimately show ?case by (simp add: p)
qed simp

lemma resolve_path_Inr:
  assumes "wf_tree t" and "resolve_path t p = Inr c"
  shows "dget (categories t) (cat_id c) = Some c"
proof -
  have "children_named t nm ids = Inr ds \<Longrightarrow> d \<in> set ds \<Longrightarrow>
      \<exists>k. dget (categories t) k = Some d" for ids ds nm d
    by (induction ids arbitrary: ds) (auto simp: result_simps split: if_splits)
  then have kids: "children_named t nm ids = Inr ds \<Longrightarrow> d \<in> set ds \<Longrightarrow>
      dget (categories t) (cat_id d) = Some d" for ids ds nm d
    using wf_treeD(3) [OF assms(1)] by metis
  have step: "dget (categories t) (cat_id d) = Some d"
    if "resolve_step t b nm = Inr d" for b nm d
    using that kids [of nm "child_ids b" "[d]" d] by (auto simp: resolve_step_def result_simps)
  have "foldE (resolve_step t) b ps = Inr c \<Longrightarrow> dget (categories t) (cat_id b) = Some b \<Longrightarrow>
      dget (categories t) (cat_id c) = Some c" for b ps
    by (induction ps arbitrary: b) (auto simp: result_simps dest: step)
  then show ?thesis using assms(2) wf_treeD(3) [OF assms(1)]
    by (auto simp: resolve_path_def result_simps split: list.splits if_splits)
qed

lemma registry_resolve_Inr:
  assumes "valid_registry reg" and "registry_resolve reg sid path = Inr (s, k)"
  shows "\<exists>t c. dget reg s = Some t \<and> dget (categories t) k = Some c \<and>
    (case path of None \<Rightarrow> sid = Some s \<and> k = root_id t
     | Some p \<Rightarrow> resolve_path t p = Inr c)"
proof (cases path)
  case None
  then obtain t where t: "dget reg s = Some t" "sid = Some s" "k = root_id t"
    using assms(2)
    by (auto simp: registry_resolve_def registry_get_def result_simps split: option.splits)
  then have "wf_tree t" using assms(1) by (auto simp: valid_registry_def valid_scene_def)
  then show ?thesis using t None wf_treeD(2) by auto
next
  case (Some p)
  then obtain t c where t: "dget reg s = Some t" "resolve_path t p = Inr c" "k = cat_id c"
    using assms(2)
    by (auto simp: registry_resolve_def registry_get_def bindE_Inr_iff single_match_iff
        split: option.splits list.split_asm(1))
  then have "wf_tree t" using assms(1) by (auto simp: valid_registry_def valid_scene_def)
  then show ?thesis using t Some resolve_path_Inr by auto
qed

lemma registry_load_files:
  assumes "registry_load read files trees = Inr reg" and "wf_dict trees"
  shows "(\<forall>(sid, path) \<in> set files. \<exists>t. load_scene read path = Inr t \<and> dget reg sid = Some t) \<and>
    (\<forall>sid t. dget trees sid = Some t \<longrightarrow> dget reg sid = Some t)"
  using assms
proof (induction read files trees rule: registry_load.induct)
  case (2 read sid path files trees)
  then obtain t where t: "load_scene read path = Inr t" "sid \<notin> set (dkeys trees)"
    and rest: "registry_load read files (dput sid t trees) = Inr reg"
    by (auto simp: result_simps split: if_splits)
  have keep: "dget trees s = Some v \<Longrightarrow> dget (dput sid t trees) s = Some v" for s v
    using t(2) by (auto simp: dict_simps dest: dget_Some_key)
  note IH = 2(1) [OF t(2,1) rest wf_dict_dput [OF 2(3)]]
  have new: "dget reg sid = Some t" using IH by (simp add: dict_simps)
  show ?case
  proof (intro conjI)
    show "\<forall>(s, p) \<in> set ((sid, path) # files). \<exists>t. load_scene read p = Inr t \<and> dget reg s = Some t"
      using IH new t(1) by simp
    show "\<forall>s v. dget trees s = Some v \<longrightarrow> dget reg s = Some v"
      using IH keep by blast
  qed
qed simp

definition root_name :: "category_tree \<Rightarrow> pystr" where
  "root_name t = cat_name (the (dget (categories t) (root_id t)))"

lemma valid_registry_root:
  "valid_registry reg \<Longrightarrow> (sid, t) \<in> set reg \<Longrightarrow> \<exists>r. dget (categories t) (root_id t) = Some r"
  using wf_treeD(2) [of t] dget_mem [of reg sid t] by (auto simp: valid_registry_def valid_scene_def)

lemma unique_root_match:
  assumes "valid_registry reg" and "dget reg sid = Some t"
    and "\<And>s v. dget reg s = Some v \<Longrightarrow> root_name v = root_name t \<Longrightarrow> s = sid"
  shows "scenes_with_root_name reg (root_name t) = Inr [sid]"
proof -
  let ?ms = "filter (\<lambda>(s, v). root_name v = root_name t) reg"
  have wf: "wf_dict reg" using assms(1) by (simp add: valid_registry_def)
  have mem: "s = sid \<and> v = t" if "(s, v) \<in> set reg" "root_name v = root_name t" for s v
    using assms(3) [of s v] dget_mem [OF wf that(1)] that(2) assms(2) by auto
  have "(sid, t) \<in> set reg" using assms(2) by (rule map_of_SomeD)
  then have "set ?ms = {(sid, t)}" by (auto dest: mem)
  moreover have "distinct ?ms" using wf by (simp add: wf_dict_def distinct_map)
  ultimately have "?ms = [(sid, t)]"
    by (intro distinct_set_single)
  then show ?thesis
    using scenes_with_root_name_eq [OF valid_registry_root [OF assms(1)]] by (simp add: root_name_def)
qed

section \<open>Properties\<close>

text \<open>
  C37. Boot fails fast: a registry that \<open>from_directory\<close> returns has exactly one scene per file,
  in the order of the listing, every file loaded, and every tree in it is a valid scene.
\<close>

theorem from_directory_valid:
  assumes "from_directory read (Some files) = Inr reg"
  shows "valid_registry reg \<and> dkeys reg = map fst files \<and>
    (\<forall>(sid, path) \<in> set files. \<exists>t. load_scene read path = Inr t \<and> dget reg sid = Some t)"
proof -
  have "registry_load read files [] = Inr reg" using assms by (simp add: from_directory_def)
  then show ?thesis
    using registry_load_props [of read files "[]" reg] registry_load_files [of read files "[]" reg]
    by (simp add: valid_registry_def)
qed

definition bank_registry :: scene_registry where
  "bank_registry = [(u ''bank'', bank_tree)]"

lemma bank_boot: "from_directory bank_file (Some [(u ''bank'', 0)]) = Inr bank_registry"
  using bank_loads_from_file by (simp add: from_directory_def bank_registry_def)

lemma bank_registry_valid: "valid_registry bank_registry"
  using load_scene_is_valid [OF bank_loads_from_file]
  by (simp add: bank_registry_def valid_registry_def wf_dict_def)

theorem from_directory_valid_witness:
  "valid_registry bank_registry \<and> dkeys bank_registry = [u ''bank'']"
  using from_directory_valid [OF bank_boot] by simp

text \<open>
  A caller that addresses a category by its path reaches it: in a registry of valid scenes,
  if no other scene has the same root name and the names in the tree are non-empty and free of
  the separator, resolving the path of a category gives its scene and that category.
\<close>

theorem registry_path_roundtrip:
  assumes "valid_registry reg" and "dget reg sid = Some t"
    and "\<And>s v. dget reg s = Some v \<Longrightarrow> root_name v = root_name t \<Longrightarrow> s = sid"
    and "\<And>i d. dget (categories t) i = Some d \<Longrightarrow> clean_name (cat_name d)"
    and "dget (categories t) k = Some c"
  shows "\<exists>p. path_of t k = Some (Inr p) \<and> registry_resolve reg scene_id (Some p) = Inr (sid, k)"
proof -
  have wf: "wf_tree t" using assms(1,2) by (auto simp: valid_registry_def valid_scene_def)
  obtain p where p: "path_of t k = Some (Inr p)" "resolve_path t p = Inr c"
    using resolve_path_of [OF wf assms(5)] assms(4) by blast
  have id: "cat_id c = k" using wf_treeD(3) [OF wf assms(5)] .
  obtain q qs where parts: "path_parts p = q # qs" and q: "q = root_name t"
    using p(2) by (auto simp: resolve_path_def root_name_def result_simps split: list.splits if_splits)
  have "scenes_with_root_name reg q = Inr [sid]"
    unfolding q by (rule unique_root_match [OF assms(1-3)])
  then have "registry_resolve reg scene_id (Some p) = Inr (sid, k)"
    using parts p(2) assms(2) id by (simp add: registry_resolve_def registry_get_def)
  then show ?thesis using p(1) by blast
qed

theorem registry_path_roundtrip_witness:
  "\<exists>p. path_of bank_tree (u ''city'') = Some (Inr p) \<and>
     registry_resolve bank_registry None (Some p) = Inr (u ''bank'', u ''city'')"
  by (rule registry_path_roundtrip [OF bank_registry_valid _ _ bank_names bank_city_get])
    (simp_all add: bank_registry_def split: if_splits)

end
