(* ===== verification/Orchestrator.thy ===== *)
theory Orchestrator
  imports Scope Fusion Storage
begin

text \<open>
  The recognition orchestrator, \<open>core/orchestrator.py\<close>. A turn reads and writes the session
  store, so \<open>recognize\<close> returns the result together with the store it leaves behind, also when
  it raises. The matcher is any function of the \<open>IntentMatcher\<close> shape, the end-to-end recogniser
  any function of the \<open>SLUBackend\<close> shape; \<open>frames\<close> is the interpreter's recursion limit. The two
  paths run concurrently but share no state; when both raise, the exception of Path A is taken.
\<close>

section \<open>Requests and responses\<close>

record recognition_request =
  rq_scene_id :: "pystr option"
  rq_category_path :: "category_path option"
  rq_text :: pystr
  rq_audio :: "bytes option"
  rq_session_id :: "pystr option"
  rq_n_best :: int

definition RecognitionRequest ::
  "pystr option \<Rightarrow> category_path option \<Rightarrow> pystr \<Rightarrow> bytes option \<Rightarrow> pystr option \<Rightarrow> int \<Rightarrow>
     recognition_request result" where
  "RecognitionRequest scene_id category_path text audio sid n_best =
     (if 1 \<le> n_best \<and> n_best \<le> 20
      then Inr \<lparr>rq_scene_id = scene_id, rq_category_path = category_path, rq_text = text,
        rq_audio = audio, rq_session_id = sid, rq_n_best = n_best\<rparr>
      else Inl (ValidationError ''n_best''))"

record top_hit =
  top_intent_id :: intent_id
  top_confidence :: pyfloat
  top_answer :: "pystr option"
  top_follow_up :: "category_path option"

record recognition_response =
  rs_session_id :: pystr
  rs_top :: "top_hit option"
  rs_n_best :: "match_candidate list"
  rs_follow_up :: "category_path option"
  rs_current_category_id :: category_id

type_synonym matcher = "pystr \<Rightarrow> intent list \<Rightarrow> int \<Rightarrow> match_candidate list result"
type_synonym slu_backend = "bytes \<Rightarrow> pystr option \<Rightarrow> final_intent result"

text \<open>
  \<open>o_b_first\<close> is not a field of the class: it is the outcome of the race between the two paths of a
  turn, which decides whose exception \<open>asyncio.gather\<close> raises when both fail. The theorems about
  turns hold for every such outcome.
\<close>

record orchestrator =
  o_registry :: scene_registry
  o_matcher :: matcher
  o_slu :: "slu_backend option"
  o_fusion_config :: fusion_config
  o_b_first :: "pystr \<Rightarrow> bytes \<Rightarrow> bool"

text \<open>\<open>StubSLU.recognize_audio\<close>, \<open>models/slu/stub.py\<close>.\<close>

definition stub_slu :: slu_backend where
  "stub_slu pcm16 scene_id =
     Inr \<lparr>fi_intent_id = None, fi_confidence = 0, fi_duration_ms = 0\<rparr>"

definition Orchestrator_init ::
  "scene_registry \<Rightarrow> matcher \<Rightarrow> slu_backend option \<Rightarrow> fusion_config option \<Rightarrow> orchestrator" where
  "Orchestrator_init registry m slu cfg =
     \<lparr>o_registry = registry, o_matcher = m, o_slu = slu,
      o_fusion_config = (case cfg of None \<Rightarrow> DEFAULT_CONFIG | Some c \<Rightarrow> c),
      o_b_first = (\<lambda>_ _. False)\<rparr>"

section \<open>The turn\<close>

definition run_dual_paths ::
  "orchestrator \<Rightarrow> pystr \<Rightarrow> bytes option \<Rightarrow> pystr \<Rightarrow> intent list \<Rightarrow> int \<Rightarrow>
     (match_candidate list \<times> final_intent option) result" where
  "run_dual_paths orc text audio scene_id candidates n_best =
     (case (o_slu orc, audio) of
        (Some recognize_audio, Some pcm) \<Rightarrow>
          (case (o_matcher orc text candidates n_best, recognize_audio pcm (Some scene_id)) of
             (Inr ranked, Inr fi) \<Rightarrow> Inr (ranked, Some fi)
           | (Inl e, Inr _) \<Rightarrow> Inl e
           | (Inr _, Inl e) \<Rightarrow> Inl e
           | (Inl e, Inl e') \<Rightarrow> Inl (if o_b_first orc text pcm then e' else e))
      | _ \<Rightarrow> bindE (o_matcher orc text candidates n_best) (\<lambda>ranked. Inr (ranked, None)))"

definition load_or_create_session ::
  "pystr \<Rightarrow> pystr option \<Rightarrow> category_id \<Rightarrow> session_store \<Rightarrow> session result \<times> session_store" where
  "load_or_create_session uuid sid category_id st =
     (case sid of
        None \<Rightarrow> (case store_create uuid category_id st of (s, st') \<Rightarrow> (Inr s, st'))
      | Some i \<Rightarrow>
          (case store_get i st of
             Inr s \<Rightarrow> (Inr s, st)
           | Inl e \<Rightarrow>
               if is_key_error e
               then (case store_create uuid category_id st of (s, st') \<Rightarrow> (Inr s, st'))
               else (Inl e, st)))"

text \<open>\<open>intent.switching or intent.follow_up\<close>: the empty string is false.\<close>

definition follow_up_of :: "intent \<Rightarrow> category_path option" where
  "follow_up_of i =
     (case switching i of
        Some p \<Rightarrow> if p \<noteq> [] then Some p else follow_up i
      | None \<Rightarrow> follow_up i)"

definition resolve_top ::
  "match_candidate list \<Rightarrow> intent list \<Rightarrow> (top_hit option \<times> category_path option) result" where
  "resolve_top ranked candidates =
     (case ranked of
        [] \<Rightarrow> Inr (None, None)
      | hit # _ \<Rightarrow>
          (case dget (rev (map (\<lambda>i. (intent_id i, i)) candidates)) (cand_id hit) of
             None \<Rightarrow> Inl (KeyError ''intent_by_id'')
           | Some i \<Rightarrow>
               Inr (Some \<lparr>top_intent_id = intent_id i, top_confidence = confidence hit,
                          top_answer = answer i, top_follow_up = follow_up_of i\<rparr>,
                    follow_up_of i)))"

text \<open>The \<open>follow_up\<close> jump; only \<open>KeyError\<close> is caught.\<close>

definition apply_follow_up ::
  "category_tree \<Rightarrow> category_path option \<Rightarrow> session \<Rightarrow> session result" where
  "apply_follow_up tree fu s =
     (case fu of
        None \<Rightarrow> Inr s
      | Some path \<Rightarrow>
          (case resolve_path tree path of
             Inl e \<Rightarrow> if is_key_error e then Inr s else Inl e
           | Inr target \<Rightarrow>
               Inr (s\<lparr>current_category_id := cat_id target,
                      switching_history := switching_history s @ [cat_id target]\<rparr>)))"

text \<open>From the candidate pool to the response, up to the final \<open>put\<close>.\<close>

definition answer_turn ::
  "nat \<Rightarrow> orchestrator \<Rightarrow> recognition_request \<Rightarrow> pystr \<Rightarrow> category_tree \<Rightarrow> session \<Rightarrow>
     (recognition_response \<times> session) result" where
  "answer_turn frames orc rq scene_id tree session =
     bindE (scope frames tree (current_category_id session)) (\<lambda>candidates.
     bindE (run_dual_paths orc (rq_text rq) (rq_audio rq) scene_id candidates (rq_n_best rq))
       (\<lambda>(ranked, slu_result).
     (let weights = for_scene (o_fusion_config orc) (Some scene_id)
      in bindE (fuse ranked slu_result candidates weights (rq_n_best rq)) (\<lambda>fused.
         bindE (resolve_top fused candidates) (\<lambda>(tophit, fu).
         bindE (apply_follow_up tree fu session) (\<lambda>session.
           (let session = session\<lparr>history := history session @ [rq_text rq]\<rparr>
            in Inr (\<lparr>rs_session_id = session_id session, rs_top = tophit, rs_n_best = fused,
                     rs_follow_up = fu, rs_current_category_id = current_category_id session\<rparr>,
                    session))))))))"

definition recognize ::
  "nat \<Rightarrow> orchestrator \<Rightarrow> pystr \<Rightarrow> recognition_request \<Rightarrow> session_store \<Rightarrow>
     recognition_response result \<times> session_store" where
  "recognize frames orc uuid rq st =
     (case registry_resolve (o_registry orc) (rq_scene_id rq) (rq_category_path rq) of
        Inl e \<Rightarrow> (Inl e, st)
      | Inr (scene_id, category_id) \<Rightarrow>
          (case registry_get (o_registry orc) scene_id of
             Inl e \<Rightarrow> (Inl e, st)
           | Inr tree \<Rightarrow>
               (case load_or_create_session uuid (rq_session_id rq) category_id st of
                  (Inl e, st') \<Rightarrow> (Inl e, st')
                | (Inr session, st') \<Rightarrow>
                    (let session =
                       (if rq_session_id rq = None \<or> rq_category_path rq \<noteq> None \<or> rq_scene_id rq \<noteq> None
                        then session\<lparr>current_category_id := category_id\<rparr> else session)
                     in case answer_turn frames orc rq scene_id tree session of
                          Inl e \<Rightarrow> (Inl e, st')
                        | Inr (resp, session) \<Rightarrow> (Inr resp, store_put session st')))))"

section \<open>The session a turn works on\<close>

text \<open>
  Resolving the request fails unless a scene or a path is given, so on every turn that gets past
  it the caller's pointer replaces the stored one.
\<close>

definition start_session ::
  "pystr \<Rightarrow> recognition_request \<Rightarrow> category_id \<Rightarrow> session_store \<Rightarrow> session" where
  "start_session uuid rq k st =
     (case Option.bind (rq_session_id rq) (dget st) of
        Some x \<Rightarrow> x\<lparr>current_category_id := k\<rparr>
      | None \<Rightarrow> new_session uuid k)"

definition start_store ::
  "pystr \<Rightarrow> recognition_request \<Rightarrow> category_id \<Rightarrow> session_store \<Rightarrow> session_store" where
  "start_store uuid rq k st =
     (case Option.bind (rq_session_id rq) (dget st) of
        Some x \<Rightarrow> st
      | None \<Rightarrow> dput uuid (new_session uuid k) st)"

lemma registry_resolve_needs_pointer:
  "registry_resolve reg sid path = Inr p \<Longrightarrow> path \<noteq> None \<or> sid \<noteq> None"
  by (cases path; cases sid) (auto simp: registry_resolve_def)

lemma registry_get_eq: "registry_get reg s = Inr t \<longleftrightarrow> dget reg s = Some t"
  by (simp add: registry_get_def split: option.splits)

lemma new_session_pointer [simp]:
  "new_session i k\<lparr>current_category_id := k\<rparr> = new_session i k"
  "session_id (new_session i k) = i" "history (new_session i k) = []"
  "current_category_id (new_session i k) = k"
  by (simp_all add: new_session_def)

lemma load_or_create_eq:
  "load_or_create_session uuid (rq_session_id rq) k st =
     (Inr (case Option.bind (rq_session_id rq) (dget st) of Some x \<Rightarrow> x | None \<Rightarrow> new_session uuid k),
      start_store uuid rq k st)"
  by (simp add: load_or_create_session_def start_store_def store_ops Let_def split: option.splits)

lemma recognize_unfold:
  assumes "registry_resolve (o_registry orc) (rq_scene_id rq) (rq_category_path rq) = Inr (s, k)"
    and "dget (o_registry orc) s = Some t"
  shows "recognize frames orc uuid rq st =
    (case answer_turn frames orc rq s t (start_session uuid rq k st) of
       Inl e \<Rightarrow> (Inl e, start_store uuid rq k st)
     | Inr (resp, x) \<Rightarrow> (Inr resp, store_put x (start_store uuid rq k st)))"
proof -
  have "rq_session_id rq = None \<or> rq_category_path rq \<noteq> None \<or> rq_scene_id rq \<noteq> None"
    using registry_resolve_needs_pointer [OF assms(1)] by blast
  moreover have "registry_get (o_registry orc) s = Inr t" using assms(2) by (simp add: registry_get_eq)
  moreover have "(case Option.bind (rq_session_id rq) (dget st) of
      Some x \<Rightarrow> x | None \<Rightarrow> new_session uuid k)\<lparr>current_category_id := k\<rparr> = start_session uuid rq k st"
    by (simp add: start_session_def split: option.splits)
  ultimately show ?thesis
    by (simp only: recognize_def assms(1) sum.case prod.case load_or_create_eq Let_def if_True)
qed

text \<open>Where a follow-up leads, when it resolves in the scene, and the session that has gone there.\<close>

definition follow_up_target :: "category_tree \<Rightarrow> category_path option \<Rightarrow> category_id option" where
  "follow_up_target t fu =
     (case fu of None \<Rightarrow> None | Some p \<Rightarrow> (case resolve_path t p of Inl _ \<Rightarrow> None | Inr c \<Rightarrow> Some (cat_id c)))"

definition jump :: "category_tree \<Rightarrow> category_path option \<Rightarrow> session \<Rightarrow> session" where
  "jump t fu x =
     (case follow_up_target t fu of
        None \<Rightarrow> x
      | Some c \<Rightarrow> x\<lparr>current_category_id := c, switching_history := switching_history x @ [c]\<rparr>)"

lemma answer_turn_Inr:
  assumes "answer_turn frames orc rq s t x = Inr (resp, y)"
  obtains pool ranked slu where
    "scope frames t (current_category_id x) = Inr pool"
    "o_matcher orc (rq_text rq) pool (rq_n_best rq) = Inr ranked"
    "fuse ranked slu pool (for_scene (o_fusion_config orc) (Some s)) (rq_n_best rq) =
       Inr (rs_n_best resp)"
    "resolve_top (rs_n_best resp) pool = Inr (rs_top resp, rs_follow_up resp)"
    "session_id y = session_id x" "rs_session_id resp = session_id x"
    "rs_current_category_id resp = current_category_id y"
    "history y = history x @ [rq_text rq]"
    "current_category_id y = current_category_id x \<or>
       (\<exists>p c. rs_follow_up resp = Some p \<and> resolve_path t p = Inr c \<and> current_category_id y = cat_id c)"
    "y = (jump t (rs_follow_up resp) x)\<lparr>history := history x @ [rq_text rq]\<rparr>"
proof -
  from assms obtain pool ranked slu fused hit fu z where
    pool: "scope frames t (current_category_id x) = Inr pool" and
    dual: "run_dual_paths orc (rq_text rq) (rq_audio rq) s pool (rq_n_best rq) = Inr (ranked, slu)" and
    fused: "fuse ranked slu pool (for_scene (o_fusion_config orc) (Some s)) (rq_n_best rq) = Inr fused" and
    hit: "resolve_top fused pool = Inr (hit, fu)" and
    z: "apply_follow_up t fu x = Inr z" and
    y: "y = z\<lparr>history := history z @ [rq_text rq]\<rparr>" and
    resp: "resp = \<lparr>rs_session_id = session_id z, rs_top = hit, rs_n_best = fused,
       rs_follow_up = fu, rs_current_category_id = current_category_id z\<rparr>"
    by (auto simp: answer_turn_def bindE_Inr_iff Let_def)
  have "o_matcher orc (rq_text rq) pool (rq_n_best rq) = Inr ranked"
    using dual by (auto simp: run_dual_paths_def bindE_Inr_iff split: option.splits sum.splits)
  moreover have "session_id z = session_id x \<and> history z = history x \<and>
      (current_category_id z = current_category_id x \<or>
       (\<exists>p c. fu = Some p \<and> resolve_path t p = Inr c \<and> current_category_id z = cat_id c)) \<and> z = jump t fu x"
    using z by (auto simp: apply_follow_up_def jump_def follow_up_target_def split: option.splits sum.splits if_splits)
  ultimately show thesis using pool fused hit that [of pool ranked slu] by (auto simp: y resp)
qed

lemma recognize_Inr:
  assumes "recognize frames orc uuid rq st = (Inr resp, st')"
  obtains s k t y where
    "registry_resolve (o_registry orc) (rq_scene_id rq) (rq_category_path rq) = Inr (s, k)"
    "dget (o_registry orc) s = Some t"
    "answer_turn frames orc rq s t (start_session uuid rq k st) = Inr (resp, y)"
    "st' = store_put y (start_store uuid rq k st)"
proof -
  obtain s k t where *: "registry_resolve (o_registry orc) (rq_scene_id rq) (rq_category_path rq) = Inr (s, k)"
    "dget (o_registry orc) s = Some t"
    using assms by (auto simp: recognize_def registry_get_eq split: sum.splits prod.splits)
  show thesis using assms that [OF *]
    by (auto simp: recognize_unfold [OF *] split: sum.splits prod.splits)
qed

lemma start_session_pointer [simp]: "current_category_id (start_session uuid rq k st) = k"
  by (simp add: start_session_def split: option.splits)

lemma start_store_get:
  "store_get i (start_store uuid rq k st) =
     (if Option.bind (rq_session_id rq) (dget st) = None \<and> i = uuid
      then Inr (new_session uuid k) else store_get i st)"
  by (auto simp: start_store_def store_ops dict_simps split: option.splits)

lemma wf_start_store: "wf_store st \<Longrightarrow> wf_store (start_store uuid rq k st)"
  using mem.inv_create [of st uuid k]
  by (auto simp: start_store_def store_create_def Let_def split: option.splits)

section \<open>The top hit\<close>

lemma resolve_top_Inr:
  assumes "resolve_top cs pool = Inr (hit, fu)"
  shows "case hit of
      None \<Rightarrow> cs = [] \<and> fu = None
    | Some h \<Rightarrow> cs \<noteq> [] \<and> fu = top_follow_up h \<and> top_confidence h = confidence (hd cs) \<and>
        (\<exists>i \<in> set pool. intent_id i = cand_id (hd cs) \<and> top_intent_id h = intent_id i \<and>
           top_answer h = answer i \<and> top_follow_up h = follow_up_of i)"
  using assms
  by (auto 0 4 simp: resolve_top_def split: list.splits option.splits dest!: map_of_SomeD)

lemma resolve_top_total:
  assumes "ranked_list pool n cs"
  shows "\<exists>r. resolve_top cs pool = Inr r"
proof (cases cs)
  case (Cons c ds)
  then have "cand_id c \<in> set (dkeys (rev (map (\<lambda>i. (intent_id i, i)) pool)))"
    using assms by (force simp: ranked_list_def)
  then obtain i where "dget (rev (map (\<lambda>i. (intent_id i, i)) pool)) (cand_id c) = Some i"
    by (metis dget_None_key not_None_eq)
  then show ?thesis using Cons by (simp add: resolve_top_def)
qed (simp add: resolve_top_def)

section \<open>Path B abstaining\<close>

definition path_b_silent :: "orchestrator \<Rightarrow> recognition_request \<Rightarrow> bool" where
  "path_b_silent orc rq \<longleftrightarrow> rq_audio rq = None \<or> o_slu orc = None \<or> o_slu orc = Some stub_slu"

lemma answer_turn_silent:
  assumes "path_b_silent orc rq"
  shows "answer_turn frames orc rq s t x =
    answer_turn frames (orc\<lparr>o_slu := None, o_fusion_config := cfg\<rparr>) rq s t x"
proof -
  have "bindE (run_dual_paths orc tx (rq_audio rq) s pool n)
          (\<lambda>(ranked, slu). bindE (fuse ranked slu pool w n) f) =
        bindE (run_dual_paths (orc\<lparr>o_slu := None, o_fusion_config := cfg\<rparr>) tx (rq_audio rq) s pool n)
          (\<lambda>(ranked, slu). bindE (fuse ranked slu pool w' n) f)" for tx pool n w w' f
    using assms
    by (cases "o_matcher orc tx pool n")
      (auto simp: path_b_silent_def run_dual_paths_def stub_slu_def fuse_def b_hypothesis_def
        split: option.splits)
  note silent = this
  show ?thesis unfolding answer_turn_def Let_def by (rule bindE_cong [OF refl], rule silent)
qed

text \<open>The response depends on the session only through its identifier and its pointer.\<close>

lemma apply_follow_up_response:
  assumes "session_id x = session_id y" and "current_category_id x = current_category_id y"
  shows "bindE (apply_follow_up t fu x) (\<lambda>z. Inr (g (session_id z) (current_category_id z))) =
    bindE (apply_follow_up t fu y) (\<lambda>z. Inr (g (session_id z) (current_category_id z)))"
  using assms by (auto simp: apply_follow_up_def split: option.split sum.split)

lemma answer_turn_response:
  assumes "session_id x = session_id y" and "current_category_id x = current_category_id y"
  shows "bindE (answer_turn frames orc rq s t x) (\<lambda>p. Inr (fst p)) =
    bindE (answer_turn frames orc rq s t y) (\<lambda>p. Inr (fst p))"
proof -
  have "bindE (apply_follow_up t fu x) (\<lambda>z. Inr \<lparr>rs_session_id = session_id z, rs_top = hit,
        rs_n_best = fused, rs_follow_up = fu, rs_current_category_id = current_category_id z\<rparr>) =
      bindE (apply_follow_up t fu y) (\<lambda>z. Inr \<lparr>rs_session_id = session_id z, rs_top = hit,
        rs_n_best = fused, rs_follow_up = fu, rs_current_category_id = current_category_id z\<rparr>)"
    for fu hit fused
    by (rule apply_follow_up_response [OF assms])
  then show ?thesis by (simp add: answer_turn_def Let_def bindE_assoc case_prod_beta assms(2))
qed

section \<open>A turn on the bank scene\<close>

definition bank_orc :: orchestrator where
  "bank_orc = Orchestrator_init bank_registry (stub_score 2) None None"

definition bank_rq :: recognition_request where
  "bank_rq = \<lparr>rq_scene_id = None, rq_category_path = Some (u ''ROOT->Card''),
     rq_text = u ''lost card'', rq_audio = None, rq_session_id = Some (u ''s1''), rq_n_best = 5\<rparr>"

definition bank_resp :: recognition_response where
  "bank_resp = \<lparr>rs_session_id = u ''s1'',
     rs_top = Some \<lparr>top_intent_id = u ''lost'', top_confidence = 1, top_answer = None,
       top_follow_up = None\<rparr>,
     rs_n_best = [\<lparr>cand_id = u ''lost'', confidence = 1\<rparr>],
     rs_follow_up = None, rs_current_category_id = u ''card''\<rparr>"

definition bank_store :: session_store where
  "bank_store = [(u ''s1'', new_session (u ''s1'') (u ''root''))]"

lemma single_exact_hit:
  assumes "question i = [t]" and "strip t \<noteq> []" and "1 \<le> n"
  shows "stub_score g t [i] n = Inr [\<lparr>cand_id = intent_id i, confidence = 1\<rparr>]"
proof -
  have "stub_confidence g t i = 1" using assms by (intro stub_confidence_own_question) auto
  then have "stub_hits g t [i] = [\<lparr>cand_id = intent_id i, confidence = 1\<rparr>]"
    by (simp add: stub_hits_def)
  then show ?thesis using assms(3) by (simp add: stub_score_eq py_prefix_def)
qed

lemma bank_resolves:
  "registry_resolve bank_registry None (Some (u ''ROOT->Card'')) = Inr (u ''bank'', u ''card'')"
  by code_simp

lemma bank_answer:
  "answer_turn 9 bank_orc bank_rq (u ''bank'') bank_tree (new_session sid (u ''card'')) =
     Inr (bank_resp\<lparr>rs_session_id := sid\<rparr>, new_session sid (u ''card'')\<lparr>history := [u ''lost card'']\<rparr>)"
proof -
  let ?lost = "mk_int ''lost'' ''card'' [''lost card''] False None"
  have pool: "scope 9 bank_tree (u ''card'') = Inr [?lost]" by code_simp
  have strip: "strip (u ''lost card'') \<noteq> []" by code_simp
  have hit: "stub_score 2 (u ''lost card'') [?lost] 5 = Inr [\<lparr>cand_id = u ''lost'', confidence = 1\<rparr>]"
    using single_exact_hit [of ?lost "u ''lost card''" 5 2] strip by (simp add: mk_int_def)
  show ?thesis
    using pool hit
    by (simp add: answer_turn_def run_dual_paths_def bank_orc_def Orchestrator_init_def bank_rq_def
        fuse_def b_hypothesis_def resolve_top_def apply_follow_up_def follow_up_of_def mk_int_def
        bank_resp_def new_session_def py_prefix_def)
qed

lemma bank_run:
  "recognize 9 bank_orc (u ''s2'') bank_rq bank_store = (Inr bank_resp,
     store_put (new_session (u ''s1'') (u ''card'')\<lparr>history := [u ''lost card'']\<rparr>) bank_store)"
proof -
  have start: "start_session (u ''s2'') bank_rq (u ''card'') bank_store = new_session (u ''s1'') (u ''card'')"
    "start_store (u ''s2'') bank_rq (u ''card'') bank_store = bank_store"
    by (simp_all add: start_session_def start_store_def bank_rq_def bank_store_def new_session_def)
  have "bank_resp\<lparr>rs_session_id := u ''s1''\<rparr> = bank_resp" by (simp add: bank_resp_def)
  then show ?thesis
    using recognize_unfold [of bank_orc bank_rq "u ''bank''" "u ''card''" bank_tree] bank_resolves
      start bank_answer [of "u ''s1''"]
    by (simp add: bank_orc_def Orchestrator_init_def bank_rq_def bank_registry_def)
qed

text \<open>The same turn when the store does not know the session.\<close>

lemma bank_run_fresh: "\<exists>resp st'. recognize 9 bank_orc (u ''s2'') bank_rq [] = (Inr resp, st')"
proof -
  have "fst (recognize 9 bank_orc (u ''s2'') bank_rq []) \<noteq> Inl e" for e
  proof -
    have "answer_turn 9 bank_orc bank_rq (u ''bank'') bank_tree (new_session (u ''s2'') (u ''card'')) =
      Inr (bank_resp\<lparr>rs_session_id := u ''s2''\<rparr>, new_session (u ''s2'') (u ''card'')\<lparr>history := [u ''lost card'']\<rparr>)"
      by (rule bank_answer)
    then show ?thesis
      using recognize_unfold [of bank_orc bank_rq "u ''bank''" "u ''card''" bank_tree] bank_resolves
      by (simp add: bank_orc_def Orchestrator_init_def bank_rq_def bank_registry_def start_session_def)
  qed
  then show ?thesis by (metis old.sum.exhaust prod.collapse)
qed

section \<open>Properties\<close>

text \<open>
  C2. What a recognition returns, for any matcher that keeps the matcher contract: the request
  resolves to a category of a registered scene, the N-best list consists of ranked candidates
  from the pool that \<open>scope\<close> gives at that category, the top hit is the first of them (and
  absent exactly when the list is empty) with the answer and the follow-up of its intent, and
  the category reported as current exists in the scene.
\<close>

theorem recognize_correct:
  assumes "intent_matcher (o_matcher orc)" and "valid_registry (o_registry orc)"
    and "recognize frames orc uuid rq st = (Inr resp, st')"
  shows "\<exists>s k t pool.
    registry_resolve (o_registry orc) (rq_scene_id rq) (rq_category_path rq) = Inr (s, k) \<and>
    dget (o_registry orc) s = Some t \<and> scope frames t k = Inr pool \<and>
    ranked_list pool (rq_n_best rq) (rs_n_best resp) \<and>
    (case rs_top resp of
       None \<Rightarrow> rs_n_best resp = []
     | Some h \<Rightarrow> rs_n_best resp \<noteq> [] \<and> top_confidence h = confidence (hd (rs_n_best resp)) \<and>
         (\<exists>i \<in> set pool. intent_id i = cand_id (hd (rs_n_best resp)) \<and>
            top_intent_id h = intent_id i \<and> top_answer h = answer i \<and>
            rs_follow_up resp = follow_up_of i)) \<and>
    rs_current_category_id resp \<in> set (dkeys (categories t))"
proof -
  obtain s k t y where r: "registry_resolve (o_registry orc) (rq_scene_id rq) (rq_category_path rq) = Inr (s, k)"
    and t: "dget (o_registry orc) s = Some t"
    and turn: "answer_turn frames orc rq s t (start_session uuid rq k st) = Inr (resp, y)"
    using assms(3) by (rule recognize_Inr)
  have wf: "wf_tree t" using assms(2) t by (auto simp: valid_registry_def valid_scene_def)
  have k: "k \<in> set (dkeys (categories t))"
    using registry_resolve_Inr [OF assms(2) r] t by (auto dest: dget_Some_key)
  from turn obtain pool ranked slu where pool: "scope frames t k = Inr pool"
    and m: "o_matcher orc (rq_text rq) pool (rq_n_best rq) = Inr ranked"
    and f: "fuse ranked slu pool (for_scene (o_fusion_config orc) (Some s)) (rq_n_best rq) = Inr (rs_n_best resp)"
    and hit: "resolve_top (rs_n_best resp) pool = Inr (rs_top resp, rs_follow_up resp)"
    and cur: "rs_current_category_id resp = current_category_id y"
    and ptr: "current_category_id y = k \<or> (\<exists>p c. rs_follow_up resp = Some p \<and>
      resolve_path t p = Inr c \<and> current_category_id y = cat_id c)"
    by (elim answer_turn_Inr) simp
  have "ranked_list pool (rq_n_best rq) (rs_n_best resp)"
    by (rule intent_matcher.fuse_keeps_contract [OF assms(1) m f])
  moreover have "rs_current_category_id resp \<in> set (dkeys (categories t))"
    using cur ptr k resolve_path_Inr [OF wf] by (metis dget_Some_key)
  ultimately show ?thesis
    using r t pool resolve_top_Inr [OF hit] by (intro exI) (auto split: option.splits)
qed

theorem recognize_correct_witness:
  "\<exists>s k t pool. registry_resolve bank_registry None (Some (u ''ROOT->Card'')) = Inr (s, k) \<and>
     dget bank_registry s = Some t \<and> scope 9 t k = Inr pool \<and>
     ranked_list pool 5 [\<lparr>cand_id = u ''lost'', confidence = 1\<rparr>]"
  using recognize_correct [OF _ _ bank_run] stub.intent_matcher_axioms bank_registry_valid
  by (auto simp: bank_orc_def Orchestrator_init_def bank_rq_def bank_resp_def)

text \<open>
  C33. The session a turn leaves behind: it is stored under the identifier the response carries
  and is the session found under the requested identifier (or a new one), changed in exactly three
  fields. The transcript is appended to its history. If the response's follow-up resolves in the
  scene, its target becomes the current category and is appended to the switching history;
  otherwise the current category is the one the request resolved to and the switching history
  stays. The response reports that category; every other session is untouched; and the store
  stays well formed.
\<close>

theorem recognize_session:
  assumes "wf_store st" and "recognize frames orc uuid rq st = (Inr resp, st')"
  shows "wf_store st' \<and>
    (\<exists>s k t x. registry_resolve (o_registry orc) (rq_scene_id rq) (rq_category_path rq) = Inr (s, k) \<and>
       dget (o_registry orc) s = Some t \<and>
       x = (case Option.bind (rq_session_id rq) (dget st) of Some x \<Rightarrow> x | None \<Rightarrow> new_session uuid k) \<and>
       store_get (rs_session_id resp) st' = Inr (x\<lparr>current_category_id := rs_current_category_id resp,
         history := history x @ [rq_text rq],
         switching_history := switching_history x @
           (case follow_up_target t (rs_follow_up resp) of None \<Rightarrow> [] | Some c \<Rightarrow> [c])\<rparr>) \<and>
       rs_current_category_id resp =
         (case follow_up_target t (rs_follow_up resp) of None \<Rightarrow> k | Some c \<Rightarrow> c)) \<and>
    (\<forall>i. i \<noteq> rs_session_id resp \<longrightarrow> store_get i st' = store_get i st) \<and>
    rs_session_id resp = (case Option.bind (rq_session_id rq) (dget st) of
       Some x \<Rightarrow> the (rq_session_id rq) | None \<Rightarrow> uuid)"
proof -
  obtain s k t y where
    r: "registry_resolve (o_registry orc) (rq_scene_id rq) (rq_category_path rq) = Inr (s, k)"
      "dget (o_registry orc) s = Some t"
    and turn: "answer_turn frames orc rq s t (start_session uuid rq k st) = Inr (resp, y)"
    and st': "st' = store_put y (start_store uuid rq k st)"
    using assms(2) by (rule recognize_Inr)
  let ?x = "start_session uuid rq k st"
  let ?base = "case Option.bind (rq_session_id rq) (dget st) of Some x \<Rightarrow> x | None \<Rightarrow> new_session uuid k"
  from turn have y: "session_id y = session_id ?x" "rs_session_id resp = session_id ?x"
      "rs_current_category_id resp = current_category_id y"
      "y = (jump t (rs_follow_up resp) ?x)\<lparr>history := history ?x @ [rq_text rq]\<rparr>"
    by (auto elim: answer_turn_Inr)
  have x0: "?x = ?base\<lparr>current_category_id := k\<rparr>"
    by (simp add: start_session_def split: option.splits)
  have id: "session_id ?x = (case Option.bind (rq_session_id rq) (dget st) of
       Some x \<Rightarrow> the (rq_session_id rq) | None \<Rightarrow> uuid)"
    using assms(1)
    by (auto simp: start_session_def wf_store_def split: option.splits bind_splits)
  have "store_get (rs_session_id resp) st' = Inr y"
    using mem.put_get y(1,2) by (simp add: st')
  moreover have "store_get i st' = store_get i st" if "i \<noteq> rs_session_id resp" for i
    using that id mem.put_get y(1,2) by (auto simp: st' start_store_get split: option.splits)
  moreover have "wf_store st'"
    unfolding st' by (intro mem.inv_put wf_start_store assms(1))
  moreover have "y = ?base\<lparr>current_category_id := rs_current_category_id resp, history := history ?base @ [rq_text rq],
      switching_history := switching_history ?base @
        (case follow_up_target t (rs_follow_up resp) of None \<Rightarrow> [] | Some c \<Rightarrow> [c])\<rparr>"
    using y(3,4) unfolding x0 by (cases "follow_up_target t (rs_follow_up resp)") (simp_all add: jump_def)
  moreover have "rs_current_category_id resp = (case follow_up_target t (rs_follow_up resp) of None \<Rightarrow> k | Some c \<Rightarrow> c)"
    using y(3,4) unfolding x0 by (cases "follow_up_target t (rs_follow_up resp)") (simp_all add: jump_def)
  ultimately show ?thesis using r y(2) id by metis
qed

lemma bank_store_wf: "wf_store bank_store"
  by (simp add: wf_store_def bank_store_def wf_dict_def)

theorem recognize_session_witness:
  "\<exists>y st'. recognize 9 bank_orc (u ''s2'') bank_rq bank_store = (Inr bank_resp, st') \<and> wf_store st' \<and>
     store_get (u ''s1'') st' = Inr y \<and> history y = [u ''lost card'']"
  using recognize_session [OF bank_store_wf bank_run] bank_run
  by (auto simp: bank_resp_def bank_rq_def bank_store_def)

text \<open>
  Without audio, without an end-to-end recogniser, or with the stub recogniser, a turn is
  exactly the turn of an orchestrator that has no Path B at all, whatever the fusion weights of
  either are: result, errors and session store agree.
\<close>

theorem recognize_path_a_only:
  assumes "path_b_silent orc rq"
  shows "recognize frames orc uuid rq st =
    recognize frames (orc\<lparr>o_slu := None, o_fusion_config := cfg\<rparr>) uuid rq st"
  unfolding recognize_def
  using answer_turn_silent [OF assms, where cfg = cfg]
  by (simp split: sum.split prod.split)

theorem recognize_path_a_only_witness:
  "recognize 9 (bank_orc\<lparr>o_slu := Some stub_slu, o_fusion_config := \<lparr>default_weights = half_weights, scene_weights = []\<rparr>\<rparr>)
       (u ''s2'') bank_rq bank_store =
     recognize 9 (bank_orc\<lparr>o_slu := None, o_fusion_config := DEFAULT_CONFIG\<rparr>) (u ''s2'') bank_rq bank_store"
  using recognize_path_a_only [of "bank_orc\<lparr>o_slu := Some stub_slu, o_fusion_config :=
      \<lparr>default_weights = half_weights, scene_weights = []\<rparr>\<rparr>" bank_rq 9 "u ''s2''" bank_store DEFAULT_CONFIG]
  by (simp add: path_b_silent_def)

text \<open>
  The pointer kept in a session never influences a later turn: two stores that hold
  different sessions under the requested identifier, with different current categories, slots or
  histories, give the same response. The reason is that a request naming neither scene nor path
  is rejected, and any other request overwrites the stored pointer.
\<close>

theorem recognize_ignores_stored_pointer:
  assumes "rq_session_id rq = Some i" and "session_id x = session_id y"
  shows "fst (recognize frames orc uuid rq (dput i x st)) = fst (recognize frames orc uuid rq (dput i y st))"
proof (cases "\<exists>s k t. registry_resolve (o_registry orc) (rq_scene_id rq) (rq_category_path rq) = Inr (s, k)
    \<and> dget (o_registry orc) s = Some t")
  case True
  then obtain s k t where *: "registry_resolve (o_registry orc) (rq_scene_id rq) (rq_category_path rq) = Inr (s, k)"
    "dget (o_registry orc) s = Some t" by blast
  have "bindE (answer_turn frames orc rq s t (x\<lparr>current_category_id := k\<rparr>)) (\<lambda>p. Inr (fst p)) =
    bindE (answer_turn frames orc rq s t (y\<lparr>current_category_id := k\<rparr>)) (\<lambda>p. Inr (fst p))"
    using assms(2) by (intro answer_turn_response) simp_all
  then show ?thesis
    using assms(1)
    by (auto simp: recognize_unfold [OF *] start_session_def dict_simps bindE_def split: sum.splits)
next
  case False
  then show ?thesis
    by (auto simp: recognize_def registry_get_def split: sum.splits option.splits)
qed

theorem recognize_ignores_stored_pointer_witness:
  "fst (recognize 9 bank_orc (u ''s2'') bank_rq (dput (u ''s1'') (new_session (u ''s1'') (u ''loc'')) [])) =
     fst (recognize 9 bank_orc (u ''s2'') bank_rq (dput (u ''s1'') (new_session (u ''s1'') (u ''root'')) []))"
  by (rule recognize_ignores_stored_pointer) (simp_all add: bank_rq_def)

text \<open>
  A session identifier the store does not know is not adopted: the turn runs in a new session
  under the fresh identifier, the requested identifier stays unknown, and the store has grown by
  one session. A client that keeps sending its own identifier gets a new session every turn.
\<close>

theorem recognize_unknown_session:
  assumes "rq_session_id rq = Some i" and "dget st i = None" and "i \<noteq> uuid"
    and "uuid \<notin> set (dkeys st)" and "recognize frames orc uuid rq st = (Inr resp, st')"
  shows "rs_session_id resp = uuid \<and> dget st' i = None \<and> dkeys st' = dkeys st @ [uuid]"
proof -
  obtain s k t y where
    turn: "answer_turn frames orc rq s t (start_session uuid rq k st) = Inr (resp, y)"
    and st': "st' = store_put y (start_store uuid rq k st)"
    using assms(5) by (rule recognize_Inr)
  have start: "start_session uuid rq k st = new_session uuid k"
    "start_store uuid rq k st = dput uuid (new_session uuid k) st"
    using assms(1,2) by (simp_all add: start_session_def start_store_def)
  have "session_id y = uuid" "rs_session_id resp = uuid"
    using turn unfolding start by (auto elim: answer_turn_Inr)
  then show ?thesis
    using assms(2-4) by (simp add: st' start store_put_def dict_simps dkeys_dput)
qed

theorem recognize_unknown_session_witness:
  "\<exists>resp st'. recognize 9 bank_orc (u ''s2'') bank_rq [] = (Inr resp, st') \<and>
     rs_session_id resp = u ''s2'' \<and> dget st' (u ''s1'') = None \<and> dkeys st' = [u ''s2'']"
proof -
  obtain resp st' where run: "recognize 9 bank_orc (u ''s2'') bank_rq [] = (Inr resp, st')"
    using bank_run_fresh by blast
  show ?thesis using recognize_unknown_session [OF _ _ _ _ run, of "u ''s1''"] run
    by (auto simp: bank_rq_def)
qed

text \<open>
  A turn that raises keeps every stored session: either the store is untouched, or it has
  gained the empty session that was created for the request before the failure.
\<close>

theorem recognize_error_store:
  assumes "recognize frames orc uuid rq st = (Inl e, st')"
  shows "st' = st \<or> (\<exists>k. st' = dput uuid (new_session uuid k) st)"
proof (cases "\<exists>s k t. registry_resolve (o_registry orc) (rq_scene_id rq) (rq_category_path rq) = Inr (s, k)
    \<and> dget (o_registry orc) s = Some t")
  case True
  then obtain s k t where *: "registry_resolve (o_registry orc) (rq_scene_id rq) (rq_category_path rq) = Inr (s, k)"
    "dget (o_registry orc) s = Some t" by blast
  have "st' = start_store uuid rq k st"
    using assms by (auto simp: recognize_unfold [OF *] split: sum.splits prod.splits)
  then show ?thesis by (auto simp: start_store_def split: option.splits)
next
  case False
  then show ?thesis using assms
    by (auto simp: recognize_def registry_get_def split: sum.splits option.splits)
qed

theorem recognize_error_store_witness:
  "\<exists>e st'. recognize 9 bank_orc (u ''s2'') (bank_rq\<lparr>rq_category_path := Some (u ''ROOT->City'')\<rparr>) [] =
       (Inl e, st') \<and>
     (st' = [] \<or> (\<exists>k. st' = dput (u ''s2'') (new_session (u ''s2'') k) []))"
proof -
  let ?rq = "bank_rq\<lparr>rq_category_path := Some (u ''ROOT->City'')\<rparr>"
  have "registry_resolve bank_registry None (Some (u ''ROOT->City'')) = Inr (u ''bank'', u ''city'')"
    by code_simp
  moreover have "\<exists>e. scope 9 bank_tree (u ''city'') = Inl e"
    by (simp add: scope_def tree_get_def bank_tree_def mk_cat_def)
  ultimately have "\<exists>e st'. recognize 9 bank_orc (u ''s2'') ?rq [] = (Inl e, st')"
    using recognize_unfold [of bank_orc ?rq "u ''bank''" "u ''city''" bank_tree]
    by (auto simp: bank_orc_def Orchestrator_init_def bank_rq_def bank_registry_def answer_turn_def)
  then show ?thesis using recognize_error_store by blast
qed

text \<open>
  A follow-up path without a name in it takes the turn down: the loader accepts the scene,
  the intent matches, and the turn raises \<open>ValueError\<close> because only \<open>KeyError\<close> is caught around
  the jump; the session created for the turn stays behind with an empty history.
\<close>

theorem recognize_empty_follow_up:
  "\<exists>data t rq. load_scene_from_dict data = Inr t \<and>
     recognize 9 (Orchestrator_init [(u ''s'', t)] (stub_score 2) None None) uuid rq [] =
       (Inl (ValueError ''empty category_path''), [(uuid, new_session uuid (root_id t))])"
proof (intro exI conjI)
  let ?rq = "\<lparr>rq_scene_id = Some (u ''s''), rq_category_path = None, rq_text = u ''go on'',
    rq_audio = None, rq_session_id = None, rq_n_best = 5\<rparr>"
  let ?orc = "Orchestrator_init [(u ''s'', arrow_tree)] (stub_score 2) None None"
  show "load_scene_from_dict (Some (u ''r''), rs_categories arrow_raw) = Inr arrow_tree"
    by (rule arrow_loads)
  have res: "registry_resolve (o_registry ?orc) (rq_scene_id ?rq) (rq_category_path ?rq) = Inr (u ''s'', u ''r'')"
    by (simp add: registry_resolve_def registry_get_def Orchestrator_init_def arrow_tree_def)
  have tree: "dget (o_registry ?orc) (u ''s'') = Some arrow_tree" by (simp add: Orchestrator_init_def)
  have pool: "scope 9 arrow_tree (u ''r'') = Inr [arrow_intent]" by code_simp
  have strip: "strip (u ''go on'') \<noteq> []" by code_simp
  have hit: "stub_score 2 (u ''go on'') [arrow_intent] 5 = Inr [\<lparr>cand_id = u ''go'', confidence = 1\<rparr>]"
    using single_exact_hit [of arrow_intent "u ''go on''" 5 2] strip
    by (simp add: arrow_intent_def mk_int_def)
  have path: "resolve_path arrow_tree (u ''->'') = Inl (ValueError ''empty category_path'')"
    by code_simp
  have "answer_turn 9 ?orc ?rq (u ''s'') arrow_tree (new_session uuid (u ''r'')) =
      Inl (ValueError ''empty category_path'')"
    using pool hit path
    by (simp add: answer_turn_def run_dual_paths_def Orchestrator_init_def fuse_def b_hypothesis_def
        resolve_top_def apply_follow_up_def follow_up_of_def arrow_intent_def mk_int_def py_prefix_def)
  then show "recognize 9 ?orc uuid ?rq [] =
      (Inl (ValueError ''empty category_path''), [(uuid, new_session uuid (root_id arrow_tree))])"
    using recognize_unfold [OF res tree, of 9 uuid "[]"]
    by (simp add: start_session_def start_store_def, simp add: arrow_tree_def)
qed

end
