(* ===== verification/Segmenter.thy ===== *)
theory Segmenter
  imports Py_Text
begin

text \<open>
  The speech segmentation state machine, \<open>vad/segmenter.py\<close>, with the event and result types of
  \<open>vad/base.py\<close>. The aggregator is a record with the fields of the class; every handler returns
  the updated aggregator and the output, or the exception of a validating constructor. The
  specification is in terms of the frames fed so far: every segment is the concatenation of a
  contiguous run of input frames, at the times its boundaries say.
\<close>

section \<open>Events and results\<close>

datatype event_kind = SpeechStart | SpeechEnd | Silence

record segment_event =
  ev_kind :: event_kind
  at_ms :: int

definition SegmentEvent :: "event_kind \<Rightarrow> int \<Rightarrow> segment_event result" where
  "SegmentEvent kind t =
     (if 0 \<le> t then Inr \<lparr>ev_kind = kind, at_ms = t\<rparr> else Inl (ValidationError ''at_ms''))"

record segment_result =
  pcm16 :: bytes
  seg_sample_rate :: int
  start_ms :: int
  end_ms :: int

definition SegmentResult :: "bytes \<Rightarrow> int \<Rightarrow> int \<Rightarrow> int \<Rightarrow> segment_result result" where
  "SegmentResult pcm sr s e =
     (if \<not> 0 < sr then Inl (ValidationError ''sample_rate'')
      else if \<not> 0 \<le> s then Inl (ValidationError ''start_ms'')
      else if \<not> 0 \<le> e then Inl (ValidationError ''end_ms'')
      else Inr \<lparr>pcm16 = pcm, seg_sample_rate = sr, start_ms = s, end_ms = e\<rparr>)"

definition duration_ms :: "segment_result \<Rightarrow> int" where
  "duration_ms s = end_ms s - start_ms s"

record segmenter_output =
  events :: "segment_event list"
  segments :: "segment_result list"

definition empty_output :: segmenter_output where
  "empty_output = \<lparr>events = [], segments = []\<rparr>"

section \<open>The aggregator\<close>

datatype seg_state = SILENT | SPEAKING | TRAILING

record aggregator =
  sample_rate :: int
  frame_ms :: int
  speech_start_frames :: int
  silence_end_frames :: int
  min_speech_ms :: int
  max_speech_ms :: int
  agg_state :: seg_state
  speech_count :: int
  silence_count :: int
  pre_buffer :: "bytes list"
  segment_buffer :: bytes
  segment_start_ms :: int
  cursor_ms :: int

definition SegmentAggregator ::
  "int \<Rightarrow> int \<Rightarrow> int \<Rightarrow> int \<Rightarrow> int \<Rightarrow> int \<Rightarrow> aggregator result" where
  "SegmentAggregator sr frame speech_start silence_end min_speech max_speech =
     (if frame \<le> 0 then Inl (ValueError ''frame_ms must be positive'')
      else Inr \<lparr>sample_rate = sr, frame_ms = frame,
        speech_start_frames = max 1 (speech_start div frame),
        silence_end_frames = max 1 (silence_end div frame),
        min_speech_ms = min_speech, max_speech_ms = max_speech,
        agg_state = SILENT, speech_count = 0, silence_count = 0, pre_buffer = [],
        segment_buffer = [], segment_start_ms = 0, cursor_ms = 0\<rparr>)"

type_synonym step_result = "(aggregator \<times> segmenter_output) result"

definition emit_segment :: "aggregator \<Rightarrow> segmenter_output \<Rightarrow> int \<Rightarrow> seg_state \<Rightarrow> step_result" where
  "emit_segment a out end_time kind_after =
     (let duration = end_time - segment_start_ms a
      in bindE
           (if min_speech_ms a \<le> duration \<and> segment_buffer a \<noteq> []
            then bindE (SegmentResult (segment_buffer a) (sample_rate a) (segment_start_ms a) end_time)
                   (\<lambda>seg. bindE (SegmentEvent SpeechEnd end_time) (\<lambda>ev.
                      Inr (out\<lparr>segments := segments out @ [seg], events := events out @ [ev]\<rparr>)))
            else Inr out)
           (\<lambda>out. Inr (a\<lparr>segment_buffer := [], agg_state := kind_after\<rparr>, out)))"

definition close_segment :: "aggregator \<Rightarrow> segmenter_output \<Rightarrow> step_result" where
  "close_segment a out =
     bindE (emit_segment a out (cursor_ms a) SILENT) (\<lambda>(a, out). Inr (a\<lparr>silence_count := 0\<rparr>, out))"

definition handle_silent :: "aggregator \<Rightarrow> bytes \<Rightarrow> bool \<Rightarrow> segmenter_output \<Rightarrow> step_result" where
  "handle_silent a frame is_speech out =
     (if \<not> is_speech then Inr (a\<lparr>speech_count := 0, pre_buffer := []\<rparr>, out)
      else
        (let a = a\<lparr>pre_buffer := pre_buffer a @ [frame], speech_count := speech_count a + 1\<rparr>
         in if speech_start_frames a \<le> speech_count a
            then (let start = cursor_ms a - int (length (pre_buffer a)) * frame_ms a;
                      a = a\<lparr>segment_start_ms := max 0 start, segment_buffer := concat (pre_buffer a),
                            pre_buffer := [], speech_count := 0, agg_state := SPEAKING\<rparr>
                  in bindE (SegmentEvent SpeechStart (segment_start_ms a)) (\<lambda>ev.
                       Inr (a, out\<lparr>events := events out @ [ev]\<rparr>)))
            else Inr (a, out)))"

definition handle_speaking :: "aggregator \<Rightarrow> bytes \<Rightarrow> bool \<Rightarrow> segmenter_output \<Rightarrow> step_result" where
  "handle_speaking a frame is_speech out =
     (let a = a\<lparr>segment_buffer := segment_buffer a @ frame\<rparr>
      in if is_speech then Inr (a, out)
         else (let a = a\<lparr>agg_state := TRAILING, silence_count := 1\<rparr>
               in if silence_end_frames a \<le> silence_count a then close_segment a out else Inr (a, out)))"

definition handle_trailing :: "aggregator \<Rightarrow> bytes \<Rightarrow> bool \<Rightarrow> segmenter_output \<Rightarrow> step_result" where
  "handle_trailing a frame is_speech out =
     (let a = a\<lparr>segment_buffer := segment_buffer a @ frame\<rparr>
      in if is_speech then Inr (a\<lparr>agg_state := SPEAKING, silence_count := 0\<rparr>, out)
         else (let a = a\<lparr>silence_count := silence_count a + 1\<rparr>
               in if silence_end_frames a \<le> silence_count a then close_segment a out else Inr (a, out)))"

definition maybe_force_cut :: "aggregator \<Rightarrow> segmenter_output \<Rightarrow> step_result" where
  "maybe_force_cut a out =
     (if agg_state a = SILENT then Inr (a, out)
      else if cursor_ms a - segment_start_ms a < max_speech_ms a then Inr (a, out)
      else bindE (emit_segment a out (cursor_ms a) SPEAKING) (\<lambda>(a, out).
             Inr (a\<lparr>segment_start_ms := cursor_ms a\<rparr>, out)))"

definition feed :: "aggregator \<Rightarrow> bytes \<Rightarrow> bool \<Rightarrow> step_result" where
  "feed a frame is_speech =
     (let out = empty_output;
          a = a\<lparr>cursor_ms := cursor_ms a + frame_ms a\<rparr>
      in bindE
           (case agg_state a of
              SILENT \<Rightarrow> handle_silent a frame is_speech out
            | SPEAKING \<Rightarrow> handle_speaking a frame is_speech out
            | TRAILING \<Rightarrow> handle_trailing a frame is_speech out)
           (\<lambda>(a, out). maybe_force_cut a out))"

definition flush :: "aggregator \<Rightarrow> step_result" where
  "flush a =
     (if agg_state a \<in> {SPEAKING, TRAILING} then close_segment a empty_output
      else Inr (a, empty_output))"

text \<open>The way the detectors drive it: all frames in order, then one flush.\<close>

fun feed_all :: "aggregator \<Rightarrow> (bytes \<times> bool) list \<Rightarrow> (aggregator \<times> segment_result list) result" where
  "feed_all a [] = Inr (a, [])"
| "feed_all a ((frame, sp) # fs) =
     bindE (feed a frame sp) (\<lambda>(a, out).
     bindE (feed_all a fs) (\<lambda>(a, segs). Inr (a, segments out @ segs)))"

definition segment_stream :: "aggregator \<Rightarrow> (bytes \<times> bool) list \<Rightarrow> segment_result list result" where
  "segment_stream a fs =
     bindE (feed_all a fs) (\<lambda>(a, segs).
     bindE (flush a) (\<lambda>(_, out). Inr (segs @ segments out)))"

section \<open>The invariant\<close>

text \<open>
  \<open>fs\<close> are the frames fed so far and \<open>k\<close> is the index of the first one that is still pending: the
  pre-roll in SILENT, the open segment otherwise.
\<close>

definition config_ok :: "aggregator \<Rightarrow> bool" where
  "config_ok a \<longleftrightarrow> 0 < sample_rate a \<and> 0 < frame_ms a \<and> 1 \<le> speech_start_frames a \<and> 1 \<le> silence_end_frames a"

definition same_config :: "aggregator \<Rightarrow> aggregator \<Rightarrow> bool" where
  "same_config a b \<longleftrightarrow> sample_rate a = sample_rate b \<and> frame_ms a = frame_ms b \<and>
     speech_start_frames a = speech_start_frames b \<and> silence_end_frames a = silence_end_frames b \<and>
     min_speech_ms a = min_speech_ms b \<and> max_speech_ms a = max_speech_ms b"

abbreviation pcm_from :: "(bytes \<times> bool) list \<Rightarrow> nat \<Rightarrow> bytes" where
  "pcm_from fs k \<equiv> concat (map fst (drop k fs))"

definition live :: "aggregator \<Rightarrow> (bytes \<times> bool) list \<Rightarrow> nat \<Rightarrow> bool" where
  "live a fs k \<longleftrightarrow> config_ok a \<and> cursor_ms a = frame_ms a * int (length fs) \<and> k \<le> length fs \<and>
     pre_buffer a = [] \<and> speech_count a = 0 \<and> segment_start_ms a = frame_ms a * int k \<and>
     segment_buffer a = pcm_from fs k"

text \<open>
  A run of speech frames as long as the start window, a pause as long as the end window, and
  the silence at the end of the frames fed so far. When the machine is silent, every run that lies
  before the pending frames has been followed by a pause.
\<close>

definition speech_run :: "aggregator \<Rightarrow> (bytes \<times> bool) list \<Rightarrow> nat \<Rightarrow> bool" where
  "speech_run a fs p \<longleftrightarrow> p + nat (speech_start_frames a) \<le> length fs \<and>
     (\<forall>q. p \<le> q \<and> q < p + nat (speech_start_frames a) \<longrightarrow> snd (fs ! q))"

definition pause :: "aggregator \<Rightarrow> (bytes \<times> bool) list \<Rightarrow> nat \<Rightarrow> bool" where
  "pause a fs q \<longleftrightarrow> q + nat (silence_end_frames a) \<le> length fs \<and>
     (\<forall>r. q \<le> r \<and> r < q + nat (silence_end_frames a) \<longrightarrow> \<not> snd (fs ! r))"

definition paused :: "aggregator \<Rightarrow> (bytes \<times> bool) list \<Rightarrow> nat \<Rightarrow> nat \<Rightarrow> bool" where
  "paused a fs p k \<longleftrightarrow> (\<exists>q. p \<le> q \<and> pause a fs q \<and> q + nat (silence_end_frames a) \<le> k)"

definition runs_ended :: "aggregator \<Rightarrow> (bytes \<times> bool) list \<Rightarrow> nat \<Rightarrow> bool" where
  "runs_ended a fs k \<longleftrightarrow>
     (\<forall>p. speech_run a fs p \<and> p + nat (speech_start_frames a) \<le> k \<longrightarrow> paused a fs p k)"

definition quiet_tail :: "(bytes \<times> bool) list \<Rightarrow> nat \<Rightarrow> int \<Rightarrow> bool" where
  "quiet_tail fs k c \<longleftrightarrow> c \<le> int (length fs - k) \<and> list_all (\<lambda>p. \<not> snd p) (drop (length fs - nat c) fs)"

definition agg_inv :: "aggregator \<Rightarrow> (bytes \<times> bool) list \<Rightarrow> nat \<Rightarrow> bool" where
  "agg_inv a fs k \<longleftrightarrow>
     (case agg_state a of
        SILENT \<Rightarrow> config_ok a \<and> cursor_ms a = frame_ms a * int (length fs) \<and> k \<le> length fs \<and>
          pre_buffer a = map fst (drop k fs) \<and> speech_count a = int (length fs - k) \<and>
          speech_count a < speech_start_frames a \<and> (k = 0 \<or> \<not> snd (fs ! (k - 1))) \<and> runs_ended a fs k
      | SPEAKING \<Rightarrow> live a fs k
      | TRAILING \<Rightarrow> live a fs k \<and> 1 \<le> silence_count a \<and> silence_count a < silence_end_frames a \<and>
          quiet_tail fs k (silence_count a)) \<and>
     (agg_state a \<noteq> SILENT \<and> 0 < max_speech_ms a \<longrightarrow>
        frame_ms a * int (length fs - k) < max_speech_ms a)"

text \<open>The segment made of the frames \<open>i ..< j\<close>, and what is emitted of it.\<close>

definition seg_of :: "aggregator \<Rightarrow> (bytes \<times> bool) list \<Rightarrow> nat \<Rightarrow> nat \<Rightarrow> segment_result" where
  "seg_of a fs i j = \<lparr>pcm16 = concat (map fst (take (j - i) (drop i fs))), seg_sample_rate = sample_rate a,
     start_ms = frame_ms a * int i, end_ms = frame_ms a * int j\<rparr>"

definition emitted :: "aggregator \<Rightarrow> (bytes \<times> bool) list \<Rightarrow> nat \<Rightarrow> segment_result list" where
  "emitted a fs k =
     (if min_speech_ms a \<le> frame_ms a * int (length fs - k) \<and> pcm_from fs k \<noteq> []
      then [seg_of a fs k (length fs)] else [])"

lemma config_okD:
  "config_ok a \<Longrightarrow> 0 < sample_rate a" "config_ok a \<Longrightarrow> 0 < frame_ms a"
  "config_ok a \<Longrightarrow> 1 \<le> speech_start_frames a" "config_ok a \<Longrightarrow> 1 \<le> silence_end_frames a"
  by (simp_all add: config_ok_def)

lemma same_config_refl [simp]: "same_config a a"
  by (simp add: same_config_def)

lemma same_config_trans: "same_config a b \<Longrightarrow> same_config b c \<Longrightarrow> same_config a c"
  by (simp add: same_config_def)

lemma emit_live:
  assumes "live a fs k"
  shows "\<exists>out'. emit_segment a out (cursor_ms a) ka =
      Inr (a\<lparr>segment_buffer := [], agg_state := ka\<rparr>, out') \<and>
    segments out' = segments out @ emitted a fs k"
proof -
  have fm: "0 < frame_ms a" and sr: "0 < sample_rate a"
    using assms by (simp_all add: live_def config_okD)
  have "cursor_ms a - segment_start_ms a = frame_ms a * int (length fs - k)"
    using assms by (simp add: live_def right_diff_distrib' of_nat_diff)
  then show ?thesis
    using assms fm sr
    by (auto simp: emit_segment_def Let_def emitted_def seg_of_def live_def SegmentResult_def SegmentEvent_def)
qed

lemma runs_ended_config: "same_config b a \<Longrightarrow> runs_ended b fs k \<longleftrightarrow> runs_ended a fs k"
  by (simp add: runs_ended_def speech_run_def paused_def pause_def same_config_def)

lemma runs_ended_snoc:
  assumes "runs_ended a fs k" and "k \<le> length fs"
  shows "runs_ended a (fs @ ys) k"
proof -
  have "speech_run a fs p" if "speech_run a (fs @ ys) p" "p + nat (speech_start_frames a) \<le> k" for p
    using that assms(2) by (auto simp: speech_run_def nth_append)
  moreover have "paused a (fs @ ys) p k" if "paused a fs p k" for p
    using that assms(2) by (auto simp: paused_def pause_def nth_append)
  ultimately show ?thesis using assms(1) by (auto simp: runs_ended_def)
qed

lemma run_before:
  assumes "speech_run a (fs @ ys) i" and "i < k" and "k \<le> length fs" and "\<not> snd (fs ! (k - 1))"
  shows "i + nat (speech_start_frames a) \<le> k"
proof (rule ccontr)
  assume "\<not> i + nat (speech_start_frames a) \<le> k"
  then have "i \<le> k - 1" "k - 1 < i + nat (speech_start_frames a)" using assms(2) by linarith+
  then have "snd ((fs @ ys) ! (k - 1))" using assms(1) unfolding speech_run_def by blast
  moreover have "k - 1 < length fs" using assms(2,3) by linarith
  then have "(fs @ ys) ! (k - 1) = fs ! (k - 1)" by (simp only: nth_append if_True)
  ultimately show False using assms(4) by simp
qed

lemma quiet_tailD:
  assumes "quiet_tail fs k c" and "r < length fs" and "length fs \<le> r + nat c"
  shows "\<not> snd (fs ! r)"
proof -
  have "r = length fs - nat c + (r - (length fs - nat c))" using assms(3) by simp
  then have "fs ! r = drop (length fs - nat c) fs ! (r - (length fs - nat c))" using assms(2) by (metis nth_drop diff_le_self)
  moreover have "drop (length fs - nat c) fs ! (r - (length fs - nat c)) \<in> set (drop (length fs - nat c) fs)"
    using assms(2,3) by (intro nth_mem) simp
  ultimately show ?thesis using assms(1) by (auto simp: quiet_tail_def list_all_iff)
qed

lemma quiet_tail_snoc:
  assumes "quiet_tail fs k c" and "0 \<le> c" and "k \<le> length fs" and "\<not> snd p"
  shows "quiet_tail (fs @ [p]) k (c + 1)"
proof -
  have "length (fs @ [p]) - nat (c + 1) = length fs - nat c" using assms(2) by (simp add: nat_add_distrib)
  then show ?thesis using assms by (simp add: quiet_tail_def Suc_diff_le)
qed

lemma quiet_tail_ends_runs:
  assumes "quiet_tail fs k (silence_end_frames a)" and "config_ok a"
  shows "runs_ended a fs (length fs)"
  unfolding runs_ended_def
proof (intro allI impI)
  fix p
  let ?w = "nat (speech_start_frames a)" and ?e = "nat (silence_end_frames a)"
  assume p: "speech_run a fs p \<and> p + ?w \<le> length fs"
  have pos: "0 < ?w" "?e \<le> length fs" using config_okD(3,4) [OF assms(2)] assms(1) by (auto simp: quiet_tail_def)
  have quiet: "\<not> snd (fs ! r)" if "r < length fs" "length fs \<le> r + ?e" for r
    using quiet_tailD [OF assms(1) that] .
  have "snd (fs ! (p + ?w - 1))" using p pos(1) by (auto simp: speech_run_def)
  moreover have "p + ?w - 1 < length fs" using p pos(1) by linarith
  ultimately have "p + ?w - 1 + ?e < length fs" using quiet [of "p + ?w - 1"] p pos(1)
    by (cases "length fs \<le> p + ?w - 1 + ?e") auto
  then have "p \<le> length fs - ?e" by simp
  moreover have "pause a fs (length fs - ?e)" using pos(2) quiet by (auto simp: pause_def)
  ultimately show "paused a fs p (length fs)" using pos(2) unfolding paused_def by force
qed

lemma close_live:
  assumes "live a fs k" and "quiet_tail fs k (silence_end_frames a)"
  shows "\<exists>a' out'. close_segment a out = Inr (a', out') \<and> same_config a' a \<and> agg_state a' = SILENT \<and>
    agg_inv a' fs (length fs) \<and> segments out' = segments out @ emitted a fs k"
proof -
  obtain out' where e: "emit_segment a out (cursor_ms a) SILENT =
      Inr (a\<lparr>segment_buffer := [], agg_state := SILENT\<rparr>, out')"
    "segments out' = segments out @ emitted a fs k"
    using emit_live [OF assms(1)] by blast
  let ?a = "a\<lparr>segment_buffer := [], agg_state := SILENT, silence_count := 0\<rparr>"
  have sc: "same_config ?a a" by (simp add: same_config_def)
  have ok: "config_ok a" using assms(1) by (simp add: live_def)
  have "runs_ended ?a fs (length fs)"
    using quiet_tail_ends_runs [OF assms(2) ok] by (simp add: runs_ended_config [OF sc])
  moreover have "\<not> snd (fs ! (length fs - 1))" if "fs \<noteq> []"
    using quiet_tailD [OF assms(2), of "length fs - 1"] config_okD(4) [OF ok] that by simp
  ultimately have "agg_inv ?a fs (length fs)"
    using assms(1) config_okD(3) [OF ok] by (auto simp: agg_inv_def live_def config_ok_def)
  moreover note sc
  ultimately show ?thesis using e by (simp add: close_segment_def)
qed

lemma force_cut_live:
  assumes "live a fs k" and "agg_state a = SPEAKING \<or>
      agg_state a = TRAILING \<and> 1 \<le> silence_count a \<and> silence_count a < silence_end_frames a \<and>
        quiet_tail fs k (silence_count a)"
    and "segments out = []"
  shows "\<exists>a' out'. maybe_force_cut a out = Inr (a', out') \<and> same_config a' a \<and> agg_state a' \<noteq> SILENT \<and>
    (agg_inv a' fs k \<and> segments out' = [] \<or>
     agg_inv a' fs (length fs) \<and> segments out' = emitted a fs k \<and>
       max_speech_ms a \<le> frame_ms a * int (length fs - k))"
proof -
  have d: "cursor_ms a - segment_start_ms a = frame_ms a * int (length fs - k)"
    using assms(1) by (simp add: live_def right_diff_distrib' of_nat_diff)
  show ?thesis
  proof (cases "cursor_ms a - segment_start_ms a < max_speech_ms a")
    case True
    then have "maybe_force_cut a out = Inr (a, out)" by (simp add: maybe_force_cut_def)
    moreover have "agg_inv a fs k" using assms(1,2) True d by (auto simp: agg_inv_def)
    ultimately show ?thesis using assms(2,3) by auto
  next
    case False
    obtain out' where e: "emit_segment a out (cursor_ms a) SPEAKING =
        Inr (a\<lparr>segment_buffer := [], agg_state := SPEAKING\<rparr>, out')"
      "segments out' = segments out @ emitted a fs k"
      using emit_live [OF assms(1)] by blast
    let ?a = "a\<lparr>segment_buffer := [], agg_state := SPEAKING, segment_start_ms := cursor_ms a\<rparr>"
    have "agg_inv ?a fs (length fs)"
      using assms(1) by (simp add: agg_inv_def live_def config_ok_def)
    moreover have "same_config ?a a" by (simp add: same_config_def)
    ultimately show ?thesis using e assms(2,3) False d by (auto simp: maybe_force_cut_def)
  qed
qed

section \<open>One step\<close>

text \<open>
  The three things a frame can do to the pending frames: drop them (a silent frame ends a
  pre-roll that was too short), join them, or complete a segment.
\<close>

definition cut_bound :: "aggregator \<Rightarrow> nat \<Rightarrow> bool" where
  "cut_bound a n \<longleftrightarrow> (0 < max_speech_ms a \<longrightarrow> frame_ms a * int n < max_speech_ms a + frame_ms a)
     \<or> int n = speech_start_frames a"

text \<open>A completed segment of \<open>n\<close> frames ended with a pause, or was cut for its length.\<close>

definition ended_by :: "aggregator \<Rightarrow> aggregator \<Rightarrow> nat \<Rightarrow> bool" where
  "ended_by a a' n \<longleftrightarrow> silence_end_frames a \<le> int n \<and> agg_state a' = SILENT \<or>
     max_speech_ms a \<le> frame_ms a * int n \<and> agg_state a' \<noteq> SILENT"

definition step_spec ::
  "aggregator \<Rightarrow> (bytes \<times> bool) list \<Rightarrow> nat \<Rightarrow> bytes \<times> bool \<Rightarrow> aggregator \<Rightarrow> segment_result list \<Rightarrow> bool"
where
  "step_spec a fs k p a' segs \<longleftrightarrow> same_config a' a \<and>
     (agg_state a = SILENT \<and> \<not> snd p \<and> agg_state a' = SILENT \<and>
        agg_inv a' (fs @ [p]) (length (fs @ [p])) \<and> segs = [] \<or>
      agg_inv a' (fs @ [p]) k \<and> segs = [] \<and> (agg_state a = SILENT \<longrightarrow>
        agg_state a' = SILENT \<or> int (length (fs @ [p]) - k) = speech_start_frames a) \<or>
      agg_inv a' (fs @ [p]) (length (fs @ [p])) \<and> segs = emitted a (fs @ [p]) k \<and>
        cut_bound a (length (fs @ [p]) - k) \<and> ended_by a a' (length (fs @ [p]) - k))"

lemma emitted_config: "same_config b a \<Longrightarrow> emitted b fs k = emitted a fs k"
  by (simp add: emitted_def same_config_def seg_of_def)

lemma live_snoc:
  assumes "live a fs k"
  shows "live (a\<lparr>cursor_ms := cursor_ms a + frame_ms a, segment_buffer := segment_buffer a @ f,
      agg_state := st, silence_count := c\<rparr>) (fs @ [(f, sp)]) k"
  using assms by (simp add: live_def config_ok_def distrib_left)

lemma cut_then_spec:
  assumes "live b (fs @ [p]) k" and "agg_state b = SPEAKING \<or>
      agg_state b = TRAILING \<and> 1 \<le> silence_count b \<and> silence_count b < silence_end_frames b \<and>
        quiet_tail (fs @ [p]) k (silence_count b)"
    and "segments out = []" and "same_config b a" and "cut_bound a (length (fs @ [p]) - k)"
    and "agg_state a = SILENT \<Longrightarrow> int (length (fs @ [p]) - k) = speech_start_frames a"
  shows "\<exists>a' out'. maybe_force_cut b out = Inr (a', out') \<and> step_spec a fs k p a' (segments out')"
proof -
  obtain a' out' where c: "maybe_force_cut b out = Inr (a', out')" "same_config a' b"
    "agg_inv a' (fs @ [p]) k \<and> segments out' = [] \<or>
     agg_inv a' (fs @ [p]) (length (fs @ [p])) \<and> segments out' = emitted b (fs @ [p]) k \<and>
       max_speech_ms b \<le> frame_ms b * int (length (fs @ [p]) - k)" "agg_state a' \<noteq> SILENT"
    using force_cut_live [OF assms(1-3)] by blast
  have "same_config a' a" using same_config_trans [OF c(2) assms(4)] .
  then have "step_spec a fs k p a' (segments out')"
    unfolding step_spec_def ended_by_def using c(3,4) emitted_config [OF assms(4)] assms(4-6)
    by (auto simp: same_config_def)
  then show ?thesis using c(1) by blast
qed

lemma close_then_spec:
  assumes "live b (fs @ [p]) k" and "quiet_tail (fs @ [p]) k (silence_end_frames b)" and "segments out = []" and "same_config b a"
    and "cut_bound a (length (fs @ [p]) - k)"
  shows "\<exists>a' out'. bindE (close_segment b out) (\<lambda>(a, out). maybe_force_cut a out) = Inr (a', out') \<and>
    step_spec a fs k p a' (segments out')"
proof -
  obtain a' out' where c: "close_segment b out = Inr (a', out')" "same_config a' b"
    "agg_state a' = SILENT" "agg_inv a' (fs @ [p]) (length (fs @ [p]))"
    "segments out' = segments out @ emitted b (fs @ [p]) k"
    using close_live [OF assms(1,2), of out] by auto
  have "same_config a' a" using same_config_trans [OF c(2) assms(4)] .
  then have "step_spec a fs k p a' (segments out')"
    unfolding step_spec_def ended_by_def using c(3-5) assms(2-5) emitted_config [OF assms(4)]
    by (auto simp: quiet_tail_def same_config_def)
  then show ?thesis using c by (simp add: maybe_force_cut_def)
qed

text \<open>The frame that confirms speech opens a segment with the frames buffered so far.\<close>

lemma feed_start:
  assumes "agg_inv a fs k" and "agg_state a = SILENT" and "speech_count a + 1 = speech_start_frames a"
  shows "\<exists>a' out. feed a f True = Inr (a', out) \<and> step_spec a fs k (f, True) a' (segments out)"
proof -
  let ?c = "cursor_ms a + frame_ms a" and ?fs = "fs @ [(f, True)]"
  let ?s = "?c - int (length (pre_buffer a @ [f])) * frame_ms a"
  let ?out = "\<lparr>events = [\<lparr>ev_kind = SpeechStart, at_ms = max 0 ?s\<rparr>], segments = []\<rparr>"
  let ?a = "a\<lparr>cursor_ms := ?c, segment_start_ms := max 0 ?s,
    segment_buffer := concat (pre_buffer a @ [f]), pre_buffer := [], speech_count := 0, agg_state := SPEAKING\<rparr>"
  have inv: "config_ok a" "cursor_ms a = frame_ms a * int (length fs)" "k \<le> length fs"
    "pre_buffer a = map fst (drop k fs)" "speech_count a = int (length fs - k)" "k = 0 \<or> \<not> snd (fs ! (k - 1))"
    using assms by (auto simp: agg_inv_def)
  have len: "int (length ?fs - k) = speech_count a + 1" using inv(3,5) by simp
  have s: "?s = frame_ms a * int k" using inv(2-4) by (simp add: algebra_simps of_nat_diff)
  have "0 \<le> frame_ms a * int k" using config_okD(2) [OF inv(1)] by simp
  then have "live ?a ?fs k" using inv s by (simp add: live_def config_ok_def distrib_left)
  then obtain a' out' where "maybe_force_cut ?a ?out = Inr (a', out')" "step_spec a fs k (f, True) a' (segments out')"
    using cut_then_spec [of ?a fs "(f, True)" k ?out a] assms(3) len by (auto simp: same_config_def cut_bound_def)
  moreover have "feed a f True = maybe_force_cut ?a ?out"
    using assms(2,3) by (simp add: feed_def handle_silent_def Let_def SegmentEvent_def empty_output_def)
  ultimately show ?thesis by simp
qed

lemma dropped_runs_ended:
  assumes "agg_inv a fs k" and "agg_state a = SILENT" and "\<not> snd p"
  shows "runs_ended a (fs @ [p]) (length (fs @ [p]))"
proof -
  let ?w = "nat (speech_start_frames a)"
  have inv: "k \<le> length fs" "length fs < k + ?w" "k = 0 \<or> \<not> snd (fs ! (k - 1))" "runs_ended a fs k"
    using assms by (auto simp: agg_inv_def)
  have "paused a (fs @ [p]) i (length (fs @ [p]))" if i: "speech_run a (fs @ [p]) i" for i
  proof -
    have fit: "i + ?w \<le> Suc (length fs)" and sp: "\<And>q. i \<le> q \<Longrightarrow> q < i + ?w \<Longrightarrow> snd ((fs @ [p]) ! q)"
      using i by (auto simp: speech_run_def)
    have "i \<le> length fs" using fit inv(1,2) by linarith
    then have "\<not> length fs < i + ?w" using sp [of "length fs"] assms(3) by (auto simp: nth_append)
    then have "i < k" using inv(2) by linarith
    then have "i + ?w \<le> k" using run_before [OF i] inv(1,3) by auto
    then have "paused a (fs @ [p]) i k"
      using runs_ended_snoc [OF inv(4,1), of "[p]"] i by (simp add: runs_ended_def)
    then show ?thesis using inv(1) by (force simp: paused_def)
  qed
  then show ?thesis by (simp add: runs_ended_def)
qed

lemma feed_silent:
  assumes "agg_inv a fs k" and "agg_state a = SILENT"
  shows "\<exists>a' out. feed a f sp = Inr (a', out) \<and> step_spec a fs k (f, sp) a' (segments out)"
proof -
  let ?c = "cursor_ms a + frame_ms a" and ?fs = "fs @ [(f, sp)]"
  have inv: "config_ok a" "cursor_ms a = frame_ms a * int (length fs)" "k \<le> length fs"
    "pre_buffer a = map fst (drop k fs)" "speech_count a = int (length fs - k)"
    "speech_count a < speech_start_frames a" "k = 0 \<or> \<not> snd (fs ! (k - 1))" "runs_ended a fs k"
    using assms by (auto simp: agg_inv_def)
  have len: "int (length ?fs - k) = speech_count a + 1" using inv(3,5) by simp
  consider (quiet) "\<not> sp" | (wait) "sp" "speech_count a + 1 < speech_start_frames a"
    | (start) "sp" "speech_count a + 1 = speech_start_frames a" using inv(6) by linarith
  then show ?thesis
  proof cases
    case quiet
    let ?a = "a\<lparr>cursor_ms := ?c, speech_count := 0, pre_buffer := []\<rparr>"
    have "feed a f sp = Inr (?a, empty_output)"
      using quiet assms(2) by (simp add: feed_def handle_silent_def maybe_force_cut_def)
    moreover have "runs_ended ?a ?fs (length ?fs)"
      using dropped_runs_ended [OF assms, of "(f, sp)"] quiet runs_ended_config [of ?a a] by (simp add: same_config_def)
    then have "agg_inv ?a ?fs (length ?fs)"
      using inv quiet assms(2) by (simp add: agg_inv_def config_ok_def distrib_left)
    ultimately show ?thesis
      using quiet assms(2) by (auto simp: step_spec_def same_config_def empty_output_def)
  next
    case wait
    let ?a = "a\<lparr>cursor_ms := ?c, pre_buffer := pre_buffer a @ [f], speech_count := speech_count a + 1\<rparr>"
    have "feed a f sp = Inr (?a, empty_output)"
      using wait assms(2) by (simp add: feed_def handle_silent_def maybe_force_cut_def)
    moreover have "runs_ended ?a ?fs k"
      using runs_ended_snoc [OF inv(8,3)] runs_ended_config [of ?a a] by (simp add: same_config_def)
    then have "agg_inv ?a ?fs k"
      using inv wait assms(2) len
      by (auto simp: agg_inv_def config_ok_def distrib_left nth_append)
    ultimately show ?thesis
      using assms(2) by (auto simp: step_spec_def same_config_def empty_output_def)
  next
    case start
    then show ?thesis using feed_start [OF assms] by simp
  qed
qed

lemma feed_live:
  assumes "agg_inv a fs k" and "agg_state a \<noteq> SILENT"
  shows "\<exists>a' out. feed a f sp = Inr (a', out) \<and> step_spec a fs k (f, sp) a' (segments out)"
proof -
  let ?b = "\<lambda>st c. a\<lparr>cursor_ms := cursor_ms a + frame_ms a, segment_buffer := segment_buffer a @ f,
    agg_state := st, silence_count := c\<rparr>"
  have lv: "live a fs k" using assms by (auto simp: agg_inv_def split: seg_state.splits)
  have bound: "cut_bound a (length (fs @ [(f, sp)]) - k)"
    using assms lv by (auto simp: agg_inv_def cut_bound_def live_def Suc_diff_le distrib_left)
  have sc: "same_config (?b st c) a" for st c by (simp add: same_config_def)
  have e: "segments empty_output = []" by (simp add: empty_output_def)
  have cut: "\<exists>a' out. maybe_force_cut (?b st c) empty_output = Inr (a', out) \<and>
      step_spec a fs k (f, sp) a' (segments out)"
    if "st = SPEAKING \<or> st = TRAILING \<and> 1 \<le> c \<and> c < silence_end_frames a \<and> quiet_tail (fs @ [(f, sp)]) k c" for st c
    using that assms(2) by (intro cut_then_spec [OF live_snoc [OF lv] _ e sc bound]) simp_all
  have close: "\<exists>a' out. bindE (close_segment (?b st c) empty_output) (\<lambda>(a, out). maybe_force_cut a out) =
      Inr (a', out) \<and> step_spec a fs k (f, sp) a' (segments out)"
    if "quiet_tail (fs @ [(f, sp)]) k (silence_end_frames a)" for st c
    using that by (intro close_then_spec [OF live_snoc [OF lv] _ e sc bound]) simp
  have tail: "quiet_tail (fs @ [(f, sp)]) k (c + 1)" if "quiet_tail fs k c" "0 \<le> c" "\<not> sp" for c
    using that lv by (intro quiet_tail_snoc) (simp_all add: live_def)
  have se: "1 \<le> silence_end_frames a" using lv by (simp add: live_def config_okD)
  show ?thesis
  proof (cases "agg_state a")
    case SPEAKING
    then have eq: "feed a f sp =
        (if sp then maybe_force_cut (?b SPEAKING (silence_count a)) empty_output
         else if silence_end_frames a \<le> 1
         then bindE (close_segment (?b TRAILING 1) empty_output) (\<lambda>(a, out). maybe_force_cut a out)
         else maybe_force_cut (?b TRAILING 1) empty_output)"
      by (cases a) (simp add: feed_def handle_speaking_def Let_def)
    have "quiet_tail (fs @ [(f, sp)]) k 1" if "\<not> sp" using tail [of 0] that by (simp add: quiet_tail_def)
    moreover have "silence_end_frames a = 1" if "silence_end_frames a \<le> 1" using that se by simp
    ultimately show ?thesis unfolding eq using cut [of SPEAKING "silence_count a"] cut [of TRAILING 1]
        close [where st = TRAILING and c = 1]
      by (cases sp; cases "silence_end_frames a \<le> 1") simp_all
  next
    case TRAILING
    then have eq: "feed a f sp =
        (if sp then maybe_force_cut (?b SPEAKING 0) empty_output
         else if silence_end_frames a \<le> silence_count a + 1
         then bindE (close_segment (?b TRAILING (silence_count a + 1)) empty_output)
           (\<lambda>(a, out). maybe_force_cut a out)
         else maybe_force_cut (?b TRAILING (silence_count a + 1)) empty_output)"
      by (cases a) (simp add: feed_def handle_trailing_def Let_def)
    have inv: "1 \<le> silence_count a" "silence_count a < silence_end_frames a" "quiet_tail fs k (silence_count a)"
      using assms(1) TRAILING by (simp_all add: agg_inv_def)
    then have "quiet_tail (fs @ [(f, sp)]) k (silence_count a + 1)" if "\<not> sp" using tail that by simp
    moreover have "silence_count a + 1 = silence_end_frames a" if "silence_end_frames a \<le> silence_count a + 1"
      using that inv(2) by simp
    ultimately show ?thesis unfolding eq using inv(1) cut [of SPEAKING 0] cut [of TRAILING "silence_count a + 1"]
        close [where st = TRAILING and c = "silence_count a + 1"]
      by (cases sp; cases "silence_end_frames a \<le> silence_count a + 1") simp_all
  qed (use assms(2) in simp)
qed

lemma feed_spec:
  assumes "agg_inv a fs k"
  shows "\<exists>a' out. feed a f sp = Inr (a', out) \<and> step_spec a fs k (f, sp) a' (segments out)"
  using feed_silent [OF assms] feed_live [OF assms] by blast

section \<open>A whole stream\<close>

text \<open>
  \<open>ordered_segs a all lo segs hi\<close>: the segments are disjoint runs of the input frames \<open>all\<close>, in
  order, between the frames \<open>lo\<close> and \<open>hi\<close>, each long enough and not too long.
\<close>

fun ordered_segs ::
  "aggregator \<Rightarrow> (bytes \<times> bool) list \<Rightarrow> nat \<Rightarrow> segment_result list \<Rightarrow> nat \<Rightarrow> bool" where
  "ordered_segs a all lo [] hi \<longleftrightarrow> lo \<le> hi"
| "ordered_segs a all lo (s # ss) hi \<longleftrightarrow>
     (\<exists>i j. lo \<le> i \<and> i < j \<and> j \<le> length all \<and> s = seg_of a all i j \<and>
        min_speech_ms a \<le> duration_ms s \<and> cut_bound a (j - i) \<and> ordered_segs a all j ss hi)"

text \<open>
  Frame \<open>m\<close> lies inside a segment; or it belongs to no utterance, that is, no run as long as the
  start window starts at or before it without a pause as long as the end window in between.
\<close>

definition covered :: "aggregator \<Rightarrow> segment_result list \<Rightarrow> nat \<Rightarrow> bool" where
  "covered a segs m \<longleftrightarrow>
     (\<exists>s \<in> set segs. start_ms s \<le> frame_ms a * int m \<and> frame_ms a * int (Suc m) \<le> end_ms s)"

definition missed :: "aggregator \<Rightarrow> (bytes \<times> bool) list \<Rightarrow> nat \<Rightarrow> bool" where
  "missed a all m \<longleftrightarrow> (\<forall>p. p \<le> m \<and> speech_run a all p \<longrightarrow> paused a all p (Suc m))"

text \<open>
  The windows are no shorter than the minimum duration, nor is the maximum, and no frame is empty:
  a segment that was confirmed, paused or cut is long enough to be emitted.
\<close>

definition keeps_all :: "aggregator \<Rightarrow> (bytes \<times> bool) list \<Rightarrow> bool" where
  "keeps_all a all \<longleftrightarrow> min_speech_ms a \<le> frame_ms a * speech_start_frames a \<and>
     min_speech_ms a \<le> frame_ms a * silence_end_frames a \<and> min_speech_ms a \<le> max_speech_ms a \<and>
     (\<forall>p \<in> set all. fst p \<noteq> [])"

definition advance ::
  "aggregator \<Rightarrow> (bytes \<times> bool) list \<Rightarrow> nat \<Rightarrow> segment_result list \<Rightarrow> nat \<Rightarrow> bool" where
  "advance a all k segs k' \<longleftrightarrow> ordered_segs a all k segs k' \<and>
     (keeps_all a all \<longrightarrow> (\<forall>m. k \<le> m \<and> m < k' \<longrightarrow> covered a segs m \<or> missed a all m))"

text \<open>A segment that was cut at frame \<open>k\<close>.\<close>

definition cut_at :: "aggregator \<Rightarrow> segment_result list \<Rightarrow> nat \<Rightarrow> bool" where
  "cut_at a segs k \<longleftrightarrow> (\<exists>s \<in> set segs. end_ms s = frame_ms a * int k \<and> max_speech_ms a \<le> duration_ms s)"

text \<open>Where the open segment comes from: a confirmed run, the segment open before, or a cut.\<close>

definition opened :: "aggregator \<Rightarrow> nat \<Rightarrow> segment_result list \<Rightarrow> aggregator \<Rightarrow> (bytes \<times> bool) list \<Rightarrow> nat \<Rightarrow> bool" where
  "opened a k segs a' fs k' \<longleftrightarrow> agg_state a' \<noteq> SILENT \<longrightarrow>
     k' + nat (speech_start_frames a) \<le> length fs \<or> k' = k \<and> agg_state a \<noteq> SILENT \<or> cut_at a segs k'"

lemma ordered_segs_append:
  "ordered_segs a all lo xs mid \<Longrightarrow> ordered_segs a all mid ys hi \<Longrightarrow> ordered_segs a all lo (xs @ ys) hi"
proof (induction xs arbitrary: lo)
  case Nil
  then show ?case by (cases ys) (auto intro: order.trans)
qed auto

lemma advance_append:
  assumes "advance a all k xs k1" and "advance a all k1 ys k2"
  shows "advance a all k (xs @ ys) k2"
proof -
  have "covered a xs m \<Longrightarrow> covered a (xs @ ys) m" "covered a ys m \<Longrightarrow> covered a (xs @ ys) m" for m
    by (auto simp: covered_def)
  then show ?thesis
    using assms ordered_segs_append unfolding advance_def by (meson not_le)
qed

lemma ordered_segs_config: "same_config b a \<Longrightarrow> ordered_segs b all k segs hi = ordered_segs a all k segs hi"
  by (induction segs arbitrary: k) (auto simp: same_config_def seg_of_def cut_bound_def)

lemma advance_config: "same_config b a \<Longrightarrow> advance b all k segs k' \<longleftrightarrow> advance a all k segs k'"
proof -
  assume s: "same_config b a"
  have "ordered_segs b all k segs k' = ordered_segs a all k segs k'" using s by (rule ordered_segs_config)
  then show ?thesis
    using s by (auto simp: advance_def keeps_all_def covered_def missed_def speech_run_def paused_def pause_def same_config_def)
qed

lemma seg_of_append: "j \<le> length fs \<Longrightarrow> seg_of a (fs @ ys) i j = seg_of a fs i j"
  by (simp add: seg_of_def)

lemma emitted_long:
  assumes "min_speech_ms a \<le> frame_ms a * int (length fs - k)" and "\<forall>p \<in> set fs. fst p \<noteq> []" and "k < length fs"
  shows "emitted a fs k = [seg_of a fs k (length fs)]"
proof -
  have "fst (fs ! k) \<noteq> []" using assms(2,3) by auto
  then have "pcm_from fs k \<noteq> []" using assms(3) by (simp add: Cons_nth_drop_Suc [symmetric])
  then show ?thesis using assms(1) by (simp add: emitted_def)
qed

lemma emitted_ordered:
  assumes "k \<le> length fs" and "cut_bound a (length fs - k)"
  shows "ordered_segs a (fs @ ys) k (emitted a fs k) (length fs)"
proof (cases "emitted a fs k = []")
  case True
  then show ?thesis using assms(1) by simp
next
  case False
  then have e: "emitted a fs k = [seg_of a fs k (length fs)]" "pcm_from fs k \<noteq> []"
      "min_speech_ms a \<le> frame_ms a * int (length fs - k)"
    by (auto simp: emitted_def split: if_splits)
  then have "k < length fs" using assms(1) by (cases "k = length fs") auto
  moreover have "min_speech_ms a \<le> duration_ms (seg_of a fs k (length fs))"
    using e(3) assms(1) by (simp add: duration_ms_def seg_of_def right_diff_distrib' of_nat_diff)
  ultimately show ?thesis
    using assms(2) e(1) seg_of_append [of "length fs" fs a ys k]
    by simp (rule exI [of _ k], simp, rule exI [of _ "length fs"], simp)
qed

lemma emitted_covers:
  assumes "emitted a fs k = [seg_of a fs k (length fs)]" and "0 < frame_ms a" and "k \<le> m" and "m < length fs"
  shows "covered a (emitted a fs k) m"
  using assms by (simp add: covered_def seg_of_def)

lemma silent_missed:
  assumes "agg_inv a fs k" and "agg_state a = SILENT" and "k \<le> m"
    and "m < length fs \<or> m = length fs \<and> ys \<noteq> []" and "ys = [] \<or> \<not> snd (hd ys)"
  shows "missed a (fs @ ys) m"
  unfolding missed_def
proof (intro allI impI)
  fix p
  let ?w = "nat (speech_start_frames a)"
  assume p: "p \<le> m \<and> speech_run a (fs @ ys) p"
  then have fit: "p + ?w \<le> length (fs @ ys)" and sp: "\<And>q. p \<le> q \<Longrightarrow> q < p + ?w \<Longrightarrow> snd ((fs @ ys) ! q)"
    by (auto simp: speech_run_def)
  have inv: "k \<le> length fs" "length fs < k + ?w" "k = 0 \<or> \<not> snd (fs ! (k - 1))" "runs_ended a fs k"
    using assms(1,2) by (auto simp: agg_inv_def)
  have "p < k"
  proof (rule ccontr)
    assume "\<not> p < k"
    then have "length fs < p + ?w" using inv(2) by linarith
    moreover have "ys \<noteq> []" using calculation fit by auto
    moreover have "p \<le> length fs" using p assms(4) by auto
    ultimately show False using sp [of "length fs"] assms(5) by (simp add: nth_append hd_conv_nth)
  qed
  then have "p + ?w \<le> k" using run_before [of a fs ys p] p inv(1,3) by auto
  then have "paused a (fs @ ys) p k"
    using runs_ended_snoc [OF inv(4,1), of ys] p by (simp add: runs_ended_def)
  then show "paused a (fs @ ys) p (Suc m)" using assms(3) by (force simp: paused_def)
qed

lemma agg_invD:
  assumes "agg_inv a fs k"
  shows "config_ok a" and "k \<le> length fs" and "agg_state a \<noteq> SILENT \<Longrightarrow> live a fs k"
  using assms by (auto simp: agg_inv_def live_def split: seg_state.splits)

lemma emitted_advance:
  assumes "k \<le> length fs" and "cut_bound a (length fs - k)" and "ended_by a a' (length fs - k)" and "config_ok a" and "k < length fs"
  shows "advance a (fs @ ys) k (emitted a fs k) (length fs)"
    and "keeps_all a (fs @ ys) \<Longrightarrow> agg_state a' \<noteq> SILENT \<Longrightarrow> cut_at a (emitted a fs k) (length fs)"
proof -
  have fm: "0 < frame_ms a" using config_okD(2) [OF assms(4)] .
  have long: "emitted a fs k = [seg_of a fs k (length fs)]" if "keeps_all a (fs @ ys)"
  proof (rule emitted_long)
    have "frame_ms a * silence_end_frames a \<le> frame_ms a * int (length fs - k)"
      if "silence_end_frames a \<le> int (length fs - k)" using that fm by (intro mult_left_mono) auto
    then show "min_speech_ms a \<le> frame_ms a * int (length fs - k)"
      using assms(3) that by (auto simp: ended_by_def keeps_all_def)
  qed (use that assms(5) in \<open>auto simp: keeps_all_def\<close>)
  then show "advance a (fs @ ys) k (emitted a fs k) (length fs)"
    using emitted_ordered [OF assms(1,2)] emitted_covers [OF _ fm] by (auto simp: advance_def)
  show "cut_at a (emitted a fs k) (length fs)" if "keeps_all a (fs @ ys)" "agg_state a' \<noteq> SILENT"
    using long [OF that(1)] that(2) assms(1,3)
    by (simp add: cut_at_def ended_by_def seg_of_def duration_ms_def right_diff_distrib' of_nat_diff)
qed

lemma step_advance:
  assumes "agg_inv a fs k" and "step_spec a fs k p a' segs"
  shows "\<exists>k'. agg_inv a' (fs @ [p]) k' \<and> advance a (fs @ [p] @ rest) k segs k' \<and>
    (keeps_all a (fs @ [p] @ rest) \<longrightarrow> opened a k segs a' (fs @ [p]) k')"
proof -
  note inv = agg_invD [OF assms(1)]
  have nil: "advance a (fs @ [p] @ rest) k [] k" by (auto simp: advance_def)
  from assms(2) consider
      (dropped) "agg_state a = SILENT" "\<not> snd p" "agg_state a' = SILENT"
        "agg_inv a' (fs @ [p]) (length (fs @ [p]))" "segs = []"
    | (joined) "agg_inv a' (fs @ [p]) k" "segs = []"
        "agg_state a = SILENT \<longrightarrow> agg_state a' = SILENT \<or> int (length (fs @ [p]) - k) = speech_start_frames a"
    | (closed) "agg_inv a' (fs @ [p]) (length (fs @ [p]))" "segs = emitted a (fs @ [p]) k"
        "cut_bound a (length (fs @ [p]) - k)" "ended_by a a' (length (fs @ [p]) - k)"
    unfolding step_spec_def by blast
  then show ?thesis
  proof cases
    case dropped
    have "missed a (fs @ [p] @ rest) m" if "k \<le> m" "m < length (fs @ [p])" for m
      using silent_missed [OF assms(1) dropped(1) that(1), of "[p] @ rest"] that(2) dropped(2)
      by (simp add: less_Suc_eq)
    then have "advance a (fs @ [p] @ rest) k segs (length (fs @ [p]))"
      using dropped(5) inv(2) by (simp add: advance_def)
    then show ?thesis using dropped(3,4) by (auto simp: opened_def)
  next
    case joined
    have "k + nat (speech_start_frames a) \<le> length (fs @ [p])"
      if "int (length (fs @ [p]) - k) = speech_start_frames a" using that inv(2) by simp
    then have "opened a k segs a' (fs @ [p]) k" using joined(3) by (auto simp: opened_def)
    then show ?thesis using joined nil by blast
  next
    case closed
    then show ?thesis
      using emitted_advance [of k "fs @ [p]" a a' rest] inv(1,2) by (auto simp: opened_def)
  qed
qed

lemma cut_at_append: "cut_at a xs k \<or> cut_at a ys k \<Longrightarrow> cut_at a (xs @ ys) k"
  by (auto simp: cut_at_def)

lemma opened_trans:
  assumes "opened a k xs b (fs @ us) k1" and "opened b k1 ys c (fs @ us @ vs) k2" and "same_config b a"
  shows "opened a k (xs @ ys) c (fs @ us @ vs) k2"
  using assms cut_at_append [of a xs k2 ys] by (auto simp: opened_def same_config_def cut_at_def)

lemma keeps_all_config: "same_config b a \<Longrightarrow> keeps_all b all \<longleftrightarrow> keeps_all a all"
  by (simp add: keeps_all_def same_config_def)

lemma feed_all_advance:
  assumes "agg_inv a fs k"
  shows "\<exists>a' segs k'. feed_all a rest = Inr (a', segs) \<and> same_config a' a \<and>
    agg_inv a' (fs @ rest) k' \<and> advance a (fs @ rest) k segs k' \<and>
    (keeps_all a (fs @ rest) \<longrightarrow> opened a k segs a' (fs @ rest) k')"
  using assms
proof (induction rest arbitrary: a fs k)
  case Nil
  then show ?case by (auto simp: advance_def opened_def)
next
  case (Cons p rest)
  obtain f sp where p: "p = (f, sp)" by (cases p)
  obtain a1 out where f: "feed a f sp = Inr (a1, out)" "step_spec a fs k p a1 (segments out)"
    using feed_spec [OF Cons.prems, of f sp] p by blast
  have c: "same_config a1 a" using f(2) by (simp add: step_spec_def)
  obtain k1 where k1: "agg_inv a1 (fs @ [p]) k1" "advance a (fs @ [p] @ rest) k (segments out) k1"
      "keeps_all a (fs @ [p] @ rest) \<longrightarrow> opened a k (segments out) a1 (fs @ [p]) k1"
    using step_advance [OF Cons.prems f(2)] by blast
  obtain a2 segs k2 where r: "feed_all a1 rest = Inr (a2, segs)" "same_config a2 a1"
      "agg_inv a2 ((fs @ [p]) @ rest) k2" "advance a1 ((fs @ [p]) @ rest) k1 segs k2"
      "keeps_all a1 ((fs @ [p]) @ rest) \<longrightarrow> opened a1 k1 segs a2 ((fs @ [p]) @ rest) k2"
    using Cons.IH [OF k1(1)] by blast
  have "advance a (fs @ p # rest) k (segments out @ segs) k2"
    using k1(2) r(4) advance_config [OF c] advance_append by fastforce
  moreover have "opened a k (segments out @ segs) a2 (fs @ p # rest) k2" if "keeps_all a (fs @ p # rest)"
    using opened_trans [of a k "segments out" a1 fs "[p]" k1 segs a2 rest k2] k1(3) r(5) c that
    by (simp add: keeps_all_config)
  ultimately show ?case using f(1) r p same_config_trans [OF r(2) c] by auto
qed

text \<open>The last segment is lost only if it is shorter than the minimum.\<close>

lemma flush_advance:
  assumes "agg_inv a fs k"
  shows "\<exists>a' out. flush a = Inr (a', out) \<and> ordered_segs a fs k (segments out) (length fs) \<and>
    (keeps_all a fs \<longrightarrow> (\<forall>m. k \<le> m \<and> m < length fs \<longrightarrow> covered a (segments out) m \<or> missed a fs m \<or>
       agg_state a \<noteq> SILENT \<and> frame_ms a * int (length fs - k) < min_speech_ms a))"
proof (cases "agg_state a = SILENT")
  case True
  have "missed a fs m" if "k \<le> m" "m < length fs" for m
    using silent_missed [OF assms True that(1), of "[]"] that(2) by simp
  then show ?thesis
    using True agg_invD(2) [OF assms] by (simp add: flush_def empty_output_def)
next
  case False
  note inv = agg_invD [OF assms]
  have fm: "0 < frame_ms a" using config_okD(2) [OF inv(1)] .
  have lv: "live a fs k" by (rule inv(3) [OF False])
  have "cut_bound a (length fs - k)"
    using assms False fm by (auto simp: agg_inv_def cut_bound_def)
  then have "ordered_segs a fs k (emitted a fs k) (length fs)"
    using emitted_ordered [OF inv(2), of a "[]"] by simp
  moreover have "covered a (emitted a fs k) m"
    if "keeps_all a fs" "k \<le> m" "m < length fs" "\<not> frame_ms a * int (length fs - k) < min_speech_ms a" for m
    using that by (intro emitted_covers [OF emitted_long fm]) (auto simp: keeps_all_def)
  moreover have "flush a = close_segment a empty_output"
    using False by (cases "agg_state a") (auto simp: flush_def)
  moreover obtain out' where "emit_segment a empty_output (cursor_ms a) SILENT =
      Inr (a\<lparr>segment_buffer := [], agg_state := SILENT\<rparr>, out')" "segments out' = emitted a fs k"
    using emit_live [OF lv, of empty_output SILENT] by (auto simp: empty_output_def)
  ultimately show ?thesis using False by (auto simp: close_segment_def)
qed

text \<open>
  The only frames of an utterance outside every segment: the rest, shorter than the minimum, that
  a cut leaves open at the end of the input.
\<close>

definition lost_rest :: "aggregator \<Rightarrow> (bytes \<times> bool) list \<Rightarrow> segment_result list \<Rightarrow> nat \<Rightarrow> bool" where
  "lost_rest a all segs m \<longleftrightarrow> (\<exists>s \<in> set segs. max_speech_ms a \<le> duration_ms s \<and> end_ms s \<le> frame_ms a * int m \<and>
     frame_ms a * int (length all) - end_ms s < min_speech_ms a)"

lemma segment_stream_advance:
  assumes "SegmentAggregator sr frame ss se mn mx = Inr a" and "0 < sr"
  shows "\<exists>segs. segment_stream a fs = Inr segs \<and> ordered_segs a fs 0 segs (length fs) \<and>
    (keeps_all a fs \<longrightarrow> (\<forall>m < length fs. covered a segs m \<or> missed a fs m \<or> lost_rest a fs segs m))"
proof -
  have silent: "agg_state a = SILENT" using assms(1) by (auto simp: SegmentAggregator_def split: if_splits)
  have "agg_inv a [] 0"
    using assms by (auto simp: SegmentAggregator_def agg_inv_def config_ok_def runs_ended_def split: if_splits)
  then obtain a' segs k where f: "feed_all a fs = Inr (a', segs)" "same_config a' a"
      "agg_inv a' fs k" "advance a fs 0 segs k" "keeps_all a fs \<longrightarrow> opened a 0 segs a' fs k"
    using feed_all_advance [of a "[]" 0 fs] by auto
  obtain a'' out where g: "flush a' = Inr (a'', out)" "ordered_segs a' fs k (segments out) (length fs)"
      "keeps_all a' fs \<longrightarrow> (\<forall>m. k \<le> m \<and> m < length fs \<longrightarrow> covered a' (segments out) m \<or> missed a' fs m \<or>
         agg_state a' \<noteq> SILENT \<and> frame_ms a' * int (length fs - k) < min_speech_ms a')"
    using flush_advance [OF f(3)] by blast
  have same: "covered a' = covered a" "missed a' = missed a" "frame_ms a' = frame_ms a" "min_speech_ms a' = min_speech_ms a"
    using f(2) by (auto simp: fun_eq_iff covered_def missed_def speech_run_def paused_def pause_def same_config_def)
  have k: "k \<le> length fs" "0 < frame_ms a" using agg_invD(2) [OF f(3)] config_okD(2) [OF agg_invD(1) [OF f(3)]] same(3) by simp_all
  have "ordered_segs a fs 0 (segs @ segments out) (length fs)"
    using ordered_segs_append g(2) ordered_segs_config [OF f(2)] f(4) by (auto simp: advance_def)
  moreover have "covered a (segs @ segments out) m \<or> missed a fs m \<or> lost_rest a fs (segs @ segments out) m"
    if keep: "keeps_all a fs" and m: "m < length fs" for m
  proof (cases "m < k")
    case True
    then have "covered a segs m \<or> missed a fs m" using f(4) keep by (simp add: advance_def)
    then show ?thesis by (auto simp: covered_def)
  next
    case False
    then consider "covered a (segments out) m" | "missed a fs m"
      | (rest) "agg_state a' \<noteq> SILENT" "frame_ms a * int (length fs - k) < min_speech_ms a"
      using g(3) keep m unfolding same keeps_all_config [OF f(2)] by (meson not_less)
    then show ?thesis
    proof cases
      case rest
      have "\<not> k + nat (speech_start_frames a) \<le> length fs"
      proof
        assume "k + nat (speech_start_frames a) \<le> length fs"
        then have "frame_ms a * speech_start_frames a \<le> frame_ms a * int (length fs - k)"
          using k by (intro mult_left_mono) auto
        then show False using rest(2) keep by (simp add: keeps_all_def)
      qed
      then have "cut_at a segs k" using f(5) keep rest(1) silent by (auto simp: opened_def)
      then obtain s where s: "s \<in> set segs" "end_ms s = frame_ms a * int k" "max_speech_ms a \<le> duration_ms s"
        by (auto simp: cut_at_def)
      have "end_ms s \<le> frame_ms a * int m" using s(2) False k(2) by simp
      moreover have "frame_ms a * int (length fs) - end_ms s < min_speech_ms a"
        using s(2) rest(2) k(1) by (simp add: right_diff_distrib' of_nat_diff)
      ultimately show ?thesis using s unfolding lost_rest_def by auto
    qed (auto simp: covered_def)
  qed
  ultimately show ?thesis using f(1) g(1) by (simp add: segment_stream_def)
qed

section \<open>Properties\<close>

text \<open>
  C4. The segmenter never raises on a positive sample rate, and the segments it emits for a
  stream are disjoint contiguous runs of the input frames in order: each segment's audio is
  exactly the frames between its two times, it lasts at least the minimum duration, and at most
  one frame beyond the maximum (or exactly the start window, if that is longer).
\<close>

theorem segments_are_input_runs:
  assumes "SegmentAggregator sr frame speech_start silence_end min_ms max_ms = Inr a" and "0 < sr"
  shows "\<exists>segs. segment_stream a fs = Inr segs \<and> ordered_segs a fs 0 segs (length fs)"
  using segment_stream_advance [OF assms, of fs] by blast

text \<open>
  C35. No part of an utterance is lost. Let neither the start window, nor the end window, nor the
  maximum duration be shorter than the minimum duration (the detectors use 288, 576, 30000 and 250
  milliseconds), and let no frame be empty. Take a run of speech frames as long as the start window
  and any frame from its beginning on that is not separated from it by a pause as long as the end
  window: that frame lies inside an emitted segment. The one exception is the very end of the
  input after a segment that was cut for its length: a rest shorter than the minimum duration
  is dropped.
\<close>

theorem confirmed_speech_is_covered:
  assumes "SegmentAggregator sr frame speech_start silence_end min_ms max_ms = Inr a" and "0 < sr"
    and "min_ms \<le> frame * speech_start_frames a" and "min_ms \<le> frame * silence_end_frames a" and "min_ms \<le> max_ms"
    and "\<forall>f \<in> set fs. fst f \<noteq> []"
    and "speech_run a fs p" and "p \<le> m" and "m < length fs" and "\<not> paused a fs p (Suc m)"
  shows "\<exists>segs. segment_stream a fs = Inr segs \<and>
    ((\<exists>s \<in> set segs. start_ms s \<le> frame * int m \<and> frame * int (Suc m) \<le> end_ms s) \<or>
     (\<exists>s \<in> set segs. max_ms \<le> duration_ms s \<and> end_ms s \<le> frame * int m \<and>
        frame * int (length fs) - end_ms s < min_ms))"
proof -
  have a: "frame_ms a = frame" "min_speech_ms a = min_ms" "max_speech_ms a = max_ms"
    using assms(1) by (auto simp: SegmentAggregator_def split: if_splits)
  have "keeps_all a fs" using assms(3-6) by (simp add: keeps_all_def a)
  moreover obtain segs where segs: "segment_stream a fs = Inr segs"
      "keeps_all a fs \<longrightarrow> (\<forall>m < length fs. covered a segs m \<or> missed a fs m \<or> lost_rest a fs segs m)"
    using segment_stream_advance [OF assms(1,2)] by blast
  moreover have "\<not> missed a fs m" using assms(7,8,10) by (auto simp: missed_def)
  ultimately have "covered a segs m \<or> lost_rest a fs segs m" using assms(9) by blast
  then show ?thesis using segs(1) unfolding covered_def lost_rest_def a by blast
qed

text \<open>Two frames of speech, then silence, with a start window of two frames.\<close>

definition demo_agg :: aggregator where
  "demo_agg = \<lparr>sample_rate = 16000, frame_ms = 32, speech_start_frames = 2, silence_end_frames = 1,
     min_speech_ms = 32, max_speech_ms = 30000, agg_state = SILENT, speech_count = 0,
     silence_count = 0, pre_buffer = [], segment_buffer = [], segment_start_ms = 0, cursor_ms = 0\<rparr>"

lemma demo_agg_init: "SegmentAggregator 16000 32 64 32 32 30000 = Inr demo_agg"
  by (simp add: SegmentAggregator_def demo_agg_def)

definition demo_frames :: "(bytes \<times> bool) list" where
  "demo_frames = [([1, 2], True), ([3, 4], True), ([0, 0], False)]"

theorem segments_are_input_runs_witness:
  "\<exists>segs. segment_stream demo_agg demo_frames = Inr segs \<and>
     ordered_segs demo_agg demo_frames 0 segs (length demo_frames)"
  by (rule segments_are_input_runs [OF demo_agg_init]) simp

text \<open>The detectors' configuration, and ten frames of speech.\<close>

definition detector_agg :: aggregator where
  "detector_agg = \<lparr>sample_rate = 16000, frame_ms = 32, speech_start_frames = 9, silence_end_frames = 18,
     min_speech_ms = 250, max_speech_ms = 30000, agg_state = SILENT, speech_count = 0,
     silence_count = 0, pre_buffer = [], segment_buffer = [], segment_start_ms = 0, cursor_ms = 0\<rparr>"

theorem confirmed_speech_is_covered_witness:
  "\<exists>segs. SegmentAggregator 16000 32 300 600 250 30000 = Inr detector_agg \<and>
    segment_stream detector_agg (replicate 10 ([1, 2], True)) = Inr segs \<and>
    ((\<exists>s \<in> set segs. start_ms s \<le> 32 * int 9 \<and> 32 * int (Suc 9) \<le> end_ms s) \<or>
     (\<exists>s \<in> set segs. 30000 \<le> duration_ms s \<and> end_ms s \<le> 32 * int 9 \<and>
        32 * int (length (replicate 10 ([1, 2] :: bytes, True))) - end_ms s < 250))"
proof -
  let ?fs = "replicate 10 ([1, 2] :: bytes, True)"
  have init: "SegmentAggregator 16000 32 300 600 250 30000 = Inr detector_agg"
    by (simp add: SegmentAggregator_def detector_agg_def)
  have "speech_run detector_agg ?fs 0" "\<not> paused detector_agg ?fs 0 (Suc 9)"
    by (simp_all add: speech_run_def paused_def pause_def detector_agg_def)
  then show ?thesis
    using confirmed_speech_is_covered [OF init, of ?fs 0 9] init by (simp add: detector_agg_def)
qed

end
