(* ===== verification/Vad.thy ===== *)
theory Vad
  imports Segmenter
begin

text \<open>
  The voice activity detectors. \<open>MockVAD\<close> (\<open>vad/mock.py\<close>) marks everything as speech;
  \<open>SileroVAD\<close> (\<open>vad/silero.py\<close>) cuts the stream into windows of 512 samples, asks the ONNX model
  for a probability and drives the segmenter. The model is the parameter \<open>infer\<close>, from a window
  and a recurrent state to a probability and the next state; \<open>st0\<close> is the zero state. Their
  common contract is the locale \<open>voice_activity_detector\<close>.
\<close>

record speech_segment =
  sp_start_ms :: int
  sp_end_ms :: int

section \<open>The pass-through detector\<close>

definition mock_duration :: "nat \<Rightarrow> int \<Rightarrow> int" where
  "mock_duration n rate = (int n div 2) * 1000 div rate"

definition mock_detect :: "bytes \<Rightarrow> int \<Rightarrow> speech_segment list result" where
  "mock_detect pcm rate =
     (if rate \<le> 0 then Inl (ValueError ''sample_rate must be > 0'')
      else (let duration = mock_duration (length pcm) rate
            in Inr (if duration = 0 then [] else [\<lparr>sp_start_ms = 0, sp_end_ms = duration\<rparr>])))"

fun mock_events_loop :: "bytes list \<Rightarrow> bool \<Rightarrow> int \<Rightarrow> segment_event list" where
  "mock_events_loop [] sent_start cursor =
     (if sent_start then [\<lparr>ev_kind = SpeechEnd, at_ms = cursor\<rparr>] else [])"
| "mock_events_loop (chunk # chunks) sent_start cursor =
     (if \<not> sent_start then [\<lparr>ev_kind = SpeechStart, at_ms = 0\<rparr>] else []) @
     mock_events_loop chunks True (cursor + mock_duration (length chunk) 16000)"

definition mock_stream_events :: "bytes list \<Rightarrow> segment_event list" where
  "mock_stream_events chunks = mock_events_loop chunks False 0"

definition mock_stream_segments :: "bytes list \<Rightarrow> segment_result list result" where
  "mock_stream_segments chunks =
     (let accumulated = concat chunks
      in if accumulated = [] then Inr []
         else bindE (SegmentResult accumulated 16000 0 (mock_duration (length accumulated) 16000))
                (\<lambda>seg. Inr [seg]))"

section \<open>Silero\<close>

definition WINDOW_SAMPLES :: nat where "WINDOW_SAMPLES = 512"
definition FRAME_MS :: int where "FRAME_MS = int WINDOW_SAMPLES * 1000 div 16000"
definition WINDOW_BYTES :: nat where "WINDOW_BYTES = WINDOW_SAMPLES * 2"

text \<open>\<open>np.frombuffer(b, dtype=np.int16).astype(np.float32) / 32768.0\<close>, exact in float32.\<close>

fun int16_samples :: "bytes \<Rightarrow> pyfloat list" where
  "int16_samples (lo # hi # rest) =
     of_int (sint (word_cat hi lo :: 16 word)) / 32768 # int16_samples rest"
| "int16_samples _ = []"

definition pcm_to_float :: "bytes \<Rightarrow> pyfloat list" where
  "pcm_to_float pcm = int16_samples (if odd (length pcm) then butlast pcm else pcm)"

definition iter_windows :: "pyfloat list \<Rightarrow> pyfloat list list" where
  "iter_windows samples =
     (let total = length samples
      in if total = 0 then []
         else (let complete = total div WINDOW_SAMPLES;
                   windows = map (\<lambda>i. take WINDOW_SAMPLES (drop (i * WINDOW_SAMPLES) samples)) [0..<complete];
                   tail = drop (complete * WINDOW_SAMPLES) samples
               in if tail \<noteq> [] then windows @ [tail @ replicate (WINDOW_SAMPLES - length tail) 0]
                  else windows))"

type_synonym 'st infer = "pyfloat list \<Rightarrow> 'st \<Rightarrow> pyfloat \<times> 'st"

text \<open>\<open>SileroVAD.__init__\<close>: the detector is the model's window function, once its session opens.\<close>

definition SileroVAD :: "bool \<Rightarrow> 'st infer result \<Rightarrow> 'st infer result" where
  "SileroVAD model_exists open_session =
     (if \<not> model_exists then Inl (SileroVADError ''silero_vad.onnx not found'') else open_session)"

definition silero_aggregator :: "int \<Rightarrow> aggregator result" where
  "silero_aggregator rate = SegmentAggregator rate FRAME_MS 300 600 250 30000"

definition to_speech :: "segment_result \<Rightarrow> speech_segment" where
  "to_speech seg = \<lparr>sp_start_ms = start_ms seg, sp_end_ms = end_ms seg\<rparr>"

fun detect_loop ::
  "'st infer \<Rightarrow> pyfloat \<Rightarrow> bytes \<Rightarrow> nat \<Rightarrow> pyfloat list list \<Rightarrow> aggregator \<Rightarrow> 'st \<Rightarrow>
     (aggregator \<times> speech_segment list) result" where
  "detect_loop infer threshold pcm i [] agg st = Inr (agg, [])"
| "detect_loop infer threshold pcm i (window # windows) agg st =
     (let (prob, st) = infer window st;
          start_byte = i * WINDOW_BYTES;
          frame = take WINDOW_BYTES (drop start_byte pcm);
          frame = frame @ replicate (WINDOW_BYTES - length frame) 0
      in bindE (feed agg frame (threshold \<le> prob)) (\<lambda>(agg, out).
         bindE (detect_loop infer threshold pcm (Suc i) windows agg st) (\<lambda>(agg, segs).
           Inr (agg, map to_speech (segments out) @ segs))))"

definition silero_detect ::
  "'st infer \<Rightarrow> pyfloat \<Rightarrow> 'st \<Rightarrow> bytes \<Rightarrow> int \<Rightarrow> speech_segment list result" where
  "silero_detect infer threshold st0 pcm rate =
     (if rate \<noteq> 16000 then Inl (SileroVADError ''SileroVAD requires 16 kHz input'')
      else (let windows = iter_windows (pcm_to_float pcm)
            in if windows = [] then Inr []
               else bindE (silero_aggregator rate) (\<lambda>agg.
                    bindE (detect_loop infer threshold pcm 0 windows agg st0) (\<lambda>(agg, segs).
                    bindE (flush agg) (\<lambda>(_, out). Inr (segs @ map to_speech (segments out)))))))"

text \<open>The inner \<open>while\<close> of \<open>_drive_stream\<close>; it returns the residual and the outputs yielded.\<close>

function drain ::
  "'st infer \<Rightarrow> pyfloat \<Rightarrow> aggregator \<Rightarrow> 'st \<Rightarrow> bytes \<Rightarrow>
     (aggregator \<times> 'st \<times> bytes \<times> segmenter_output list) result" where
  "drain infer threshold agg st residual =
     (if WINDOW_BYTES \<le> length residual
      then (let frame = take WINDOW_BYTES residual;
                rest = drop WINDOW_BYTES residual;
                (prob, st) = infer (int16_samples frame) st
            in bindE (feed agg frame (threshold \<le> prob)) (\<lambda>(agg, out).
               bindE (drain infer threshold agg st rest) (\<lambda>(agg, st, residual, outs).
                 Inr (agg, st, residual, out # outs))))
      else Inr (agg, st, residual, []))"
  by pat_completeness auto
termination
  by (relation "measure (\<lambda>(_, _, _, _, r). length r)") (auto simp: WINDOW_BYTES_def WINDOW_SAMPLES_def)

declare drain.simps [simp del]

fun drive_chunks ::
  "'st infer \<Rightarrow> pyfloat \<Rightarrow> bytes list \<Rightarrow> aggregator \<Rightarrow> 'st \<Rightarrow> bytes \<Rightarrow>
     (aggregator \<times> 'st \<times> bytes \<times> segmenter_output list) result" where
  "drive_chunks infer threshold [] agg st residual = Inr (agg, st, residual, [])"
| "drive_chunks infer threshold (chunk # chunks) agg st residual =
     bindE (drain infer threshold agg st (residual @ chunk)) (\<lambda>(agg, st, residual, outs).
     bindE (drive_chunks infer threshold chunks agg st residual) (\<lambda>(agg, st, residual, outs').
       Inr (agg, st, residual, outs @ outs')))"

definition drive_stream ::
  "'st infer \<Rightarrow> pyfloat \<Rightarrow> 'st \<Rightarrow> bytes list \<Rightarrow> segmenter_output list result" where
  "drive_stream infer threshold st0 chunks =
     bindE (silero_aggregator 16000) (\<lambda>agg.
     bindE (drive_chunks infer threshold chunks agg st0 []) (\<lambda>(agg, st, residual, outs).
     bindE (if residual \<noteq> []
            then (let padded = residual @ replicate (WINDOW_BYTES - length residual) 0;
                      (prob, st) = infer (int16_samples padded) st
                  in bindE (feed agg padded (threshold \<le> prob)) (\<lambda>(agg, out). Inr (agg, [out])))
            else Inr (agg, []))
       (\<lambda>(agg, outs').
     bindE (flush agg) (\<lambda>(_, out). Inr (outs @ outs' @ [out])))))"

definition silero_stream_events ::
  "'st infer \<Rightarrow> pyfloat \<Rightarrow> 'st \<Rightarrow> bytes list \<Rightarrow> segment_event list result" where
  "silero_stream_events infer threshold st0 chunks =
     bindE (drive_stream infer threshold st0 chunks) (\<lambda>outs. Inr (concat (map events outs)))"

definition silero_stream_segments ::
  "'st infer \<Rightarrow> pyfloat \<Rightarrow> 'st \<Rightarrow> bytes list \<Rightarrow> segment_result list result" where
  "silero_stream_segments infer threshold st0 chunks =
     bindE (drive_stream infer threshold st0 chunks) (\<lambda>outs. Inr (concat (map segments outs)))"

section \<open>The frames of a stream\<close>

lemmas window_defs = WINDOW_BYTES_def WINDOW_SAMPLES_def

abbreviation pad_frame :: "bytes \<Rightarrow> bytes" where
  "pad_frame b \<equiv> b @ replicate (WINDOW_BYTES - length b) 0"

function blocks :: "bytes \<Rightarrow> bytes list" where
  "blocks data =
     (if data = [] then []
      else if length data < WINDOW_BYTES then [pad_frame data]
      else take WINDOW_BYTES data # blocks (drop WINDOW_BYTES data))"
  by pat_completeness auto
termination
  by (relation "measure length") (auto simp: window_defs)

declare blocks.simps [simp del]

lemma blocks_Nil [simp]: "blocks [] = []"
  by (simp add: blocks.simps)

lemma blocks_short: "0 < length r \<Longrightarrow> length r < WINDOW_BYTES \<Longrightarrow> blocks r = [pad_frame r]"
  by (subst blocks.simps) auto

lemma blocks_long:
  "WINDOW_BYTES \<le> length r \<Longrightarrow> blocks (r @ ahead) = take WINDOW_BYTES r # blocks (drop WINDOW_BYTES r @ ahead)"
  by (subst blocks.simps) (auto simp: window_defs)

text \<open>The model's verdicts along the frames.\<close>

fun label :: "'st infer \<Rightarrow> pyfloat \<Rightarrow> 'st \<Rightarrow> bytes list \<Rightarrow> (bytes \<times> bool) list" where
  "label infer threshold st [] = []"
| "label infer threshold st (f # fs) =
     (let (prob, st) = infer (int16_samples f) st in (f, threshold \<le> prob) # label infer threshold st fs)"

definition run_on ::
  "'st infer \<Rightarrow> pyfloat \<Rightarrow> aggregator \<Rightarrow> 'st \<Rightarrow> bytes \<Rightarrow> segment_result list result" where
  "run_on infer threshold agg st data = segment_stream agg (label infer threshold st (blocks data))"

lemma segment_stream_Cons:
  "segment_stream a ((f, sp) # fs) =
     bindE (feed a f sp) (\<lambda>(a, out). bindE (segment_stream a fs) (\<lambda>segs. Inr (segments out @ segs)))"
  by (cases "feed a f sp") (auto simp: segment_stream_def bindE_assoc case_prod_unfold)

abbreviation segs_of :: "segmenter_output list \<Rightarrow> segment_result list" where
  "segs_of outs \<equiv> concat (map segments outs)"

lemma drain_run:
  "bindE (drain infer threshold agg st r) (\<lambda>(agg, st, res, outs).
     bindE (run_on infer threshold agg st (res @ ahead)) (\<lambda>segs. Inr (segs_of outs @ segs))) =
   run_on infer threshold agg st (r @ ahead)"
proof (induction "length r" arbitrary: agg st r rule: less_induct)
  case less
  show ?case
  proof (cases "WINDOW_BYTES \<le> length r")
    case True
    let ?f = "take WINDOW_BYTES r" and ?r = "drop WINDOW_BYTES r"
    obtain prob st' where i: "infer (int16_samples ?f) st = (prob, st')" by fastforce
    have IH: "bindE (drain infer threshold a st' ?r) (\<lambda>(agg, st, res, outs).
        bindE (run_on infer threshold agg st (res @ ahead)) (\<lambda>segs. Inr (segs_of outs @ segs))) =
      run_on infer threshold a st' (?r @ ahead)" for a
      using less [of ?r] True by (simp add: window_defs)
    have "run_on infer threshold agg st (r @ ahead) =
      bindE (feed agg ?f (threshold \<le> prob)) (\<lambda>(a, out).
        bindE (run_on infer threshold a st' (?r @ ahead)) (\<lambda>segs. Inr (segments out @ segs)))"
      by (simp add: run_on_def blocks_long [OF True] i segment_stream_Cons)
    then show ?thesis
      by (simp add: drain.simps [of infer threshold agg st r] True i IH [symmetric] bindE_assoc
          case_prod_unfold Let_def)
  next
    case False
    then show ?thesis by (simp add: drain.simps [of infer threshold agg st r] bindE_def split: sum.split)
  qed
qed

lemma drain_residual:
  "drain infer threshold agg st r = Inr (agg', st', res, outs) \<Longrightarrow> length res < WINDOW_BYTES"
proof (induction "length r" arbitrary: agg st r outs rule: less_induct)
  case less
  show ?case
  proof (cases "WINDOW_BYTES \<le> length r")
    case True
    obtain prob st1 where i: "infer (int16_samples (take WINDOW_BYTES r)) st = (prob, st1)" by fastforce
    obtain a outs' where "drain infer threshold a st1 (drop WINDOW_BYTES r) = Inr (agg', st', res, outs')"
      using less.prems True i
      by (auto simp: drain.simps [of infer threshold agg st r] Let_def bindE_Inr_iff)
    then show ?thesis using less.hyps [of "drop WINDOW_BYTES r"] True by (simp add: window_defs)
  next
    case False
    then show ?thesis using less.prems by (simp add: drain.simps [of infer threshold agg st r])
  qed
qed

lemma drive_chunks_residual:
  "drive_chunks infer threshold chunks agg st r = Inr (agg', st', res, outs) \<Longrightarrow>
     length r < WINDOW_BYTES \<Longrightarrow> length res < WINDOW_BYTES"
proof (induction chunks arbitrary: agg st r outs)
  case (Cons c chunks)
  then obtain a1 s1 r1 o1 o2 where "drain infer threshold agg st (r @ c) = Inr (a1, s1, r1, o1)"
      "drive_chunks infer threshold chunks a1 s1 r1 = Inr (agg', st', res, o2)"
    by (auto simp: bindE_Inr_iff)
  then show ?case using Cons.IH [of a1 s1 r1 o2] drain_residual [of infer threshold agg st "r @ c"] by simp
qed simp

lemma drive_chunks_run:
  "bindE (drive_chunks infer threshold chunks agg st r) (\<lambda>(agg, st, res, outs).
     bindE (run_on infer threshold agg st res) (\<lambda>segs. Inr (segs_of outs @ segs))) =
   run_on infer threshold agg st (r @ concat chunks)"
proof (induction chunks arbitrary: agg st r)
  case (Cons c chunks)
  show ?case
    unfolding append_assoc [symmetric] concat.simps
      drain_run [of infer threshold agg st "r @ c" "concat chunks", symmetric]
    by (simp add: Cons.IH [symmetric] bindE_assoc case_prod_unfold)
qed (simp add: bindE_def split: sum.split)

text \<open>Streaming is segmentation of the frames of the whole input, however it is chunked.\<close>

lemma residual_run:
  assumes "length res < WINDOW_BYTES"
  shows "bindE (if res \<noteq> []
      then (let padded = pad_frame res; (prob, st) = infer (int16_samples padded) st
            in bindE (feed agg padded (threshold \<le> prob)) (\<lambda>(agg, out). Inr (agg, [out])))
      else Inr (agg, [])) (\<lambda>(agg, outs'). bindE (flush agg) (\<lambda>(_, out). Inr (segs_of outs' @ segments out))) =
    run_on infer threshold agg st res"
proof (cases "res = []")
  case True
  then show ?thesis by (simp add: run_on_def segment_stream_def case_prod_unfold)
next
  case False
  obtain prob st' where i: "infer (int16_samples (pad_frame res)) st = (prob, st')" by fastforce
  show ?thesis
    using False assms i
    by (simp add: run_on_def blocks_short segment_stream_Cons, simp add: segment_stream_def bindE_assoc
        case_prod_unfold)
qed

lemma silero_stream_eq:
  "silero_stream_segments infer threshold st0 chunks =
     bindE (silero_aggregator 16000) (\<lambda>agg. run_on infer threshold agg st0 (concat chunks))"
proof -
  define fin where "fin = (\<lambda>agg st res. bindE (if res \<noteq> []
      then (let padded = pad_frame res; (prob, st) = infer (int16_samples padded) st
            in bindE (feed agg padded (threshold \<le> prob)) (\<lambda>(agg, out). Inr (agg, [out])))
      else Inr (agg, [])) (\<lambda>(agg, outs'). bindE (flush agg) (\<lambda>(_, out). Inr (segs_of outs' @ segments out))))"
  have "silero_stream_segments infer threshold st0 chunks = bindE (silero_aggregator 16000) (\<lambda>agg.
      bindE (drive_chunks infer threshold chunks agg st0 []) (\<lambda>(agg, st, res, outs).
        bindE (fin agg st res) (\<lambda>segs. Inr (segs_of outs @ segs))))"
    unfolding silero_stream_segments_def drive_stream_def fin_def
    by (simp add: bindE_assoc case_prod_unfold)
  also have "\<dots> = bindE (silero_aggregator 16000) (\<lambda>agg.
      bindE (drive_chunks infer threshold chunks agg st0 []) (\<lambda>(agg, st, res, outs).
        bindE (run_on infer threshold agg st res) (\<lambda>segs. Inr (segs_of outs @ segs))))"
  proof (intro bindE_cong refl)
    fix agg x
    assume "drive_chunks infer threshold chunks agg st0 [] = Inr x"
    moreover obtain a st res outs where x: "x = (a, st, res, outs)" by (cases x)
    ultimately have "length res < WINDOW_BYTES"
      using drive_chunks_residual [of infer threshold chunks agg st0 "[]"] by (simp add: window_defs)
    then have "fin a st res = run_on infer threshold a st res"
      unfolding fin_def by (rule residual_run)
    then show "(case x of (agg, st, res, outs) \<Rightarrow>
          bindE (fin agg st res) (\<lambda>segs. Inr (segs_of outs @ segs))) =
        (case x of (agg, st, res, outs) \<Rightarrow>
          bindE (run_on infer threshold agg st res) (\<lambda>segs. Inr (segs_of outs @ segs)))"
      by (simp add: x)
  qed
  also have "\<dots> = bindE (silero_aggregator 16000) (\<lambda>agg. run_on infer threshold agg st0 (concat chunks))"
    by (simp add: drive_chunks_run)
  finally show ?thesis .
qed

section \<open>File mode\<close>

lemma int16_samples_append: "even (length a) \<Longrightarrow> int16_samples (a @ b) = int16_samples a @ int16_samples b"
  by (induction a rule: int16_samples.induct) auto

lemma int16_samples_zeros: "int16_samples (replicate (2 * n) 0) = replicate n 0"
  by (induction n) auto

lemma int16_samples_take: "take n (int16_samples b) = int16_samples (take (2 * n) b)"
proof (induction b arbitrary: n rule: int16_samples.induct, goal_cases)
  case (1 lo hi rest n)
  then show ?case by (cases n) auto
next
  case (2 n)
  then show ?case by simp
next
  case (3 v n)
  then show ?case by (cases n) auto
qed

lemma int16_samples_drop: "drop n (int16_samples b) = int16_samples (drop (2 * n) b)"
proof (induction b arbitrary: n rule: int16_samples.induct, goal_cases)
  case (1 lo hi rest n)
  then show ?case by (cases n) auto
next
  case (2 n)
  then show ?case by simp
next
  case (3 v n)
  then show ?case by (cases n) auto
qed

lemma length_int16_samples: "length (int16_samples b) = length b div 2"
  by (induction b rule: int16_samples.induct) auto

lemma iter_windows_step:
  assumes "512 \<le> length s"
  shows "iter_windows s = take 512 s # iter_windows (drop 512 s)"
proof -
  define t where "t = drop 512 s"
  define c where "c = length t div 512"
  have c: "length s div 512 = Suc c" "length s \<noteq> 0" using assms by (auto simp: t_def c_def le_div_geq)
  have d: "drop (i * 512) t = drop (Suc i * 512) s" for i by (simp add: t_def add.commute)
  have "map (\<lambda>i. take 512 (drop (i * 512) s)) [0..<Suc c] =
      take 512 s # map (\<lambda>i. take 512 (drop (i * 512) t)) [0..<c]"
    by (simp add: upt_conv_Cons map_Suc_upt [symmetric] d del: upt_Suc)
  moreover have "length t = 0 \<Longrightarrow> c = 0" by (simp add: c_def)
  ultimately show ?thesis
    using c d [of c] unfolding t_def [symmetric]
    by (cases "length t = 0") (auto simp: iter_windows_def WINDOW_SAMPLES_def Let_def c_def [symmetric])
qed

text \<open>The windows and the frames of the loop are both given by the blocks of the input.\<close>

lemma iter_windows_blocks:
  "even (length pcm) \<Longrightarrow> iter_windows (int16_samples pcm) = map int16_samples (blocks pcm)"
proof (induction "length pcm" arbitrary: pcm rule: less_induct)
  case less
  let ?s = "int16_samples pcm"
  consider (empty) "pcm = []" | (short) "pcm \<noteq> []" "length pcm < WINDOW_BYTES" | (long) "WINDOW_BYTES \<le> length pcm"
    by linarith
  then show ?case
  proof cases
    case short
    obtain n where len: "length pcm = 2 * n" using less.prems by (elim evenE)
    then have n: "length pcm = 2 * n" "0 < n" "n < 512"
      using short len length_greater_0_conv [of pcm] unfolding window_defs by linarith+
    then have "WINDOW_BYTES - length pcm = 2 * (512 - n)" by (simp add: window_defs)
    then have "int16_samples (pad_frame pcm) = ?s @ replicate (512 - n) 0"
      using less.prems int16_samples_zeros [of "512 - n"] by (simp add: int16_samples_append)
    moreover have "length ?s = n" using n by (simp add: length_int16_samples)
    ultimately show ?thesis
      using short n by (auto simp: iter_windows_def blocks_short window_defs)
  next
    case long
    let ?r = "drop WINDOW_BYTES pcm"
    have len: "length ?s = 512 + length (int16_samples ?r)"
      using long less.prems by (simp add: length_int16_samples window_defs div_diff)
    have dr: "int16_samples ?r = drop 512 ?s"
      by (simp add: int16_samples_drop window_defs)
    have "iter_windows ?s = take 512 ?s # iter_windows (drop 512 ?s)"
      using len by (intro iter_windows_step) simp
    also have "take 512 ?s = int16_samples (take WINDOW_BYTES pcm)"
      by (simp add: int16_samples_take window_defs)
    also have "iter_windows (drop 512 ?s) = map int16_samples (blocks ?r)"
      unfolding dr [symmetric] using less.hyps [of ?r] less.prems long by (simp add: window_defs)
    finally show ?thesis using blocks_long [OF long, of "[]"] by simp
  qed (simp add: iter_windows_def)
qed

lemma detect_loop_run:
  "detect_loop infer threshold pcm n (map int16_samples (blocks (drop (n * WINDOW_BYTES) pcm))) agg st =
    bindE (feed_all agg (label infer threshold st (blocks (drop (n * WINDOW_BYTES) pcm))))
      (\<lambda>(agg, segs). Inr (agg, map to_speech segs))"
proof (induction "length (drop (n * WINDOW_BYTES) pcm)" arbitrary: n agg st rule: less_induct)
  case less
  let ?r = "drop (n * WINDOW_BYTES) pcm"
  have next_r: "drop (Suc n * WINDOW_BYTES) pcm = drop WINDOW_BYTES ?r" by (simp add: add.commute)
  consider (empty) "?r = []" | (short) "?r \<noteq> []" "length ?r < WINDOW_BYTES" | (long) "WINDOW_BYTES \<le> length ?r"
    by linarith
  then show ?case
  proof cases
    case short
    then have b: "blocks ?r = [pad_frame ?r]" by (intro blocks_short) auto
    have "take WINDOW_BYTES ?r = ?r" using short by simp
    then show ?thesis unfolding b by (simp add: Let_def case_prod_unfold bindE_assoc)
  next
    case long
    have b: "blocks ?r = take WINDOW_BYTES ?r # blocks (drop (Suc n * WINDOW_BYTES) pcm)"
      unfolding next_r using blocks_long [OF long, of "[]"] by simp
    have IH: "detect_loop infer threshold pcm (Suc n)
        (map int16_samples (blocks (drop (Suc n * WINDOW_BYTES) pcm))) a s =
      bindE (feed_all a (label infer threshold s (blocks (drop (Suc n * WINDOW_BYTES) pcm))))
        (\<lambda>(agg, segs). Inr (agg, map to_speech segs))" for a s
      using long by (intro less) (simp add: window_defs)
    have "length (take WINDOW_BYTES ?r) = WINDOW_BYTES" using long by simp
    then show ?thesis unfolding b using IH
      by (simp add: Let_def case_prod_unfold bindE_assoc del: mult_Suc)
  qed simp
qed

lemma silero_detect_eq:
  assumes "even (length pcm)"
  shows "silero_detect infer threshold st0 pcm 16000 =
    bindE (silero_aggregator 16000) (\<lambda>agg.
    bindE (run_on infer threshold agg st0 pcm) (\<lambda>segs. Inr (map to_speech segs)))"
proof -
  have w: "iter_windows (pcm_to_float pcm) = map int16_samples (blocks pcm)"
    using assms by (simp add: pcm_to_float_def iter_windows_blocks)
  have loop: "detect_loop infer threshold pcm 0 (map int16_samples (blocks pcm)) agg st0 =
      bindE (feed_all agg (label infer threshold st0 (blocks pcm)))
        (\<lambda>(agg, segs). Inr (agg, map to_speech segs))" for agg
    using detect_loop_run [of infer threshold pcm 0] by simp
  show ?thesis
  proof (cases "blocks pcm = []")
    case True
    then show ?thesis
      by (simp add: silero_detect_def w run_on_def segment_stream_def silero_aggregator_def
          SegmentAggregator_def FRAME_MS_def window_defs flush_def empty_output_def)
  next
    case False
    then show ?thesis
      by (simp add: silero_detect_def w loop run_on_def segment_stream_def bindE_assoc case_prod_unfold)
  qed
qed

section \<open>The detector contract\<close>

text \<open>
  What the consumers of an utterance rely on, at 16 kHz, that is 32 bytes per millisecond: the
  utterances are disjoint and in order, each carries a non-empty stretch of the (zero padded)
  stream starting at its start time, and its length matches its duration to the millisecond.
\<close>

fun utterances_of :: "bytes \<Rightarrow> int \<Rightarrow> segment_result list \<Rightarrow> bool" where
  "utterances_of data lo [] \<longleftrightarrow> True"
| "utterances_of data lo (s # ss) \<longleftrightarrow>
     0 \<le> lo \<and> lo \<le> start_ms s \<and> start_ms s \<le> end_ms s \<and> pcm16 s \<noteq> [] \<and> seg_sample_rate s = 16000 \<and>
     pcm16 s = take (length (pcm16 s)) (drop (nat (32 * start_ms s)) data) \<and>
     32 * duration_ms s \<le> int (length (pcm16 s)) \<and> int (length (pcm16 s)) < 32 * duration_ms s + 32 \<and>
     utterances_of data (end_ms s) ss"

locale voice_activity_detector =
  fixes stream :: "bytes list \<Rightarrow> segment_result list result"
  assumes stream_total: "\<exists>segs. stream chunks = Inr segs"
    and stream_utterances: "stream chunks = Inr segs \<Longrightarrow>
      \<exists>n < 1024. utterances_of (concat chunks @ replicate n 0) 0 segs"
begin

lemma utterance_in_stream:
  assumes "stream chunks = Inr segs" and "s \<in> set segs"
  shows "\<exists>n < 1024. sublist (pcm16 s) (concat chunks @ replicate n 0)"
proof -
  obtain n where n: "n < 1024" "utterances_of (concat chunks @ replicate n 0) 0 segs"
    using stream_utterances [OF assms(1)] by blast
  have "utterances_of data lo ss \<Longrightarrow> s \<in> set ss \<Longrightarrow> sublist (pcm16 s) data" for data lo ss
    by (induction data lo ss rule: utterances_of.induct)
      (auto, metis sublist_drop sublist_order.order_trans sublist_take)
  then show ?thesis using n assms(2) by blast
qed

lemma total_speech:
  assumes "stream chunks = Inr segs"
  shows "32 * sum_list (map duration_ms segs) \<le> int (length (concat chunks)) + 1023"
proof -
  obtain n where n: "n < 1024" "utterances_of (concat chunks @ replicate n 0) 0 segs"
    using stream_utterances [OF assms] by blast
  have "utterances_of data lo ss \<Longrightarrow> 32 * lo \<le> int (length data) \<Longrightarrow> 0 \<le> lo \<Longrightarrow>
      32 * (lo + sum_list (map duration_ms ss)) \<le> int (length data)" for data lo ss
  proof (induction data lo ss rule: utterances_of.induct)
    case (2 data lo s ss)
    have "length (pcm16 s) \<le> length data - nat (32 * start_ms s)"
      using "2.prems"(1) by (metis length_drop length_take min.cobounded1 utterances_of.simps(2))
    moreover have "0 < length (pcm16 s)" using "2.prems"(1) by simp
    ultimately have "length (pcm16 s) + nat (32 * start_ms s) \<le> length data" by linarith
    moreover have "int (nat (32 * start_ms s)) = 32 * start_ms s" using "2.prems"(1) by simp
    ultimately have "int (length (pcm16 s)) + 32 * start_ms s \<le> int (length data)"
      by (metis of_nat_add of_nat_le_iff)
    moreover have "32 * duration_ms s \<le> int (length (pcm16 s))" using "2.prems"(1) by simp
    ultimately have "32 * end_ms s \<le> int (length data)"
      by (simp add: duration_ms_def right_diff_distrib)
    then show ?case using 2 by (auto simp: duration_ms_def)
  qed simp
  from this [OF n(2)] show ?thesis using n(1) by simp
qed

end

lemma mock_duration_bytes:
  "0 \<le> mock_duration n 16000" "32 * mock_duration n 16000 \<le> int n" "int n < 32 * mock_duration n 16000 + 32"
proof -
  have "mock_duration n 16000 = int (n div 2) div 16"
    by (simp add: mock_duration_def zdiv_int)
  moreover have "int (n div 2) div 16 = int (n div 32)" by (simp add: div_mult2_eq zdiv_int)
  ultimately have "mock_duration n 16000 = int (n div 32)" by simp
  then show "0 \<le> mock_duration n 16000" "32 * mock_duration n 16000 \<le> int n"
    "int n < 32 * mock_duration n 16000 + 32" by simp_all
qed

interpretation mock: voice_activity_detector mock_stream_segments
proof
  show "\<exists>segs. mock_stream_segments chunks = Inr segs" for chunks
    using mock_duration_bytes(1) by (simp add: mock_stream_segments_def SegmentResult_def Let_def)
  show "\<exists>n < 1024. utterances_of (concat chunks @ replicate n 0) 0 segs"
    if "mock_stream_segments chunks = Inr segs" for chunks segs
    using that mock_duration_bytes [of "length (concat chunks)"]
    by (intro exI [of _ 0])
      (auto simp: mock_stream_segments_def SegmentResult_def Let_def duration_ms_def split: if_splits)
qed

section \<open>Silero keeps the contract\<close>

lemma length_block: "b \<in> set (blocks data) \<Longrightarrow> length b = WINDOW_BYTES"
proof (induction data rule: blocks.induct)
  case (1 data)
  then show ?case by (subst (asm) (2) blocks.simps) (auto split: if_splits simp: window_defs)
qed

lemma concat_blocks: "\<exists>n < WINDOW_BYTES. concat (blocks data) = data @ replicate n 0"
proof (induction data rule: blocks.induct)
  case (1 data)
  consider (empty) "data = []" | (short) "data \<noteq> []" "length data < WINDOW_BYTES" | (long) "WINDOW_BYTES \<le> length data"
    by linarith
  then show ?case
  proof cases
    case short
    then have "blocks data = [pad_frame data]" by (intro blocks_short) auto
    then show ?thesis using short by (intro exI [of _ "WINDOW_BYTES - length data"]) auto
  next
    case long
    then have "data \<noteq> []" "\<not> length data < WINDOW_BYTES" by (auto simp: window_defs)
    then obtain n where "n < WINDOW_BYTES" "concat (blocks (drop WINDOW_BYTES data)) = drop WINDOW_BYTES data @ replicate n 0"
      using "1.IH" by blast
    then show ?thesis using blocks_long [OF long, of "[]"]
      by (intro exI [of _ n]) (simp add: append_assoc [symmetric] del: append_assoc)
  qed (auto simp: window_defs)
qed

lemma map_fst_label: "map fst (label infer threshold st fs) = fs"
  by (induction fs arbitrary: st) (auto simp: case_prod_unfold Let_def)

lemma concat_slice:
  assumes "\<And>b. b \<in> set bs \<Longrightarrow> length b = w"
  shows "concat (take m (drop i bs)) = take (m * w) (drop (i * w) (concat bs))"
  using concat_window [of w bs m i] assms by (simp add: list_all_iff)

lemma ordered_utterances:
  assumes "frame_ms a = 32" and "sample_rate a = 16000" and "\<And>p. p \<in> set fs \<Longrightarrow> length (fst p) = 1024"
  shows "ordered_segs a fs lo segs hi \<Longrightarrow> utterances_of (concat (map fst fs)) (32 * int lo) segs"
proof (induction segs arbitrary: lo)
  case (Cons s segs)
  then obtain i j where ij: "lo \<le> i" "i < j" "j \<le> length fs" "s = seg_of a fs i j"
    and rest: "ordered_segs a fs j segs hi" by auto
  have "pcm16 s = take ((j - i) * 1024) (drop (i * 1024) (concat (map fst fs)))"
    using concat_slice [of "map fst fs" 1024 "j - i" i] assms(3) ij(1-3)
    unfolding ij(4) seg_of_def by (simp add: take_map drop_map image_iff split_beta) fastforce
  moreover have "length (concat (map fst fs)) = length fs * 1024"
    using assms(3) by (induction fs) auto
  ultimately have pcm: "pcm16 s = take ((j - i) * 1024) (drop (i * 1024) (concat (map fst fs)))"
    "length (pcm16 s) = (j - i) * 1024" using ij by (auto simp: min_def)
  have times: "start_ms s = 32 * int i" "end_ms s = 32 * int j" "seg_sample_rate s = 16000"
    using ij(4) assms by (simp_all add: seg_of_def)
  have "nat (32 * start_ms s) = i * 1024" using times by simp
  then show ?case
    using Cons.IH [OF rest] pcm times ij by (auto simp: duration_ms_def of_nat_diff algebra_simps)
qed simp

definition silero_agg :: aggregator where
  "silero_agg = \<lparr>sample_rate = 16000, frame_ms = 32, speech_start_frames = 9, silence_end_frames = 18,
     min_speech_ms = 250, max_speech_ms = 30000, agg_state = SILENT, speech_count = 0,
     silence_count = 0, pre_buffer = [], segment_buffer = [], segment_start_ms = 0, cursor_ms = 0\<rparr>"

lemma silero_aggregator_init: "silero_aggregator 16000 = Inr silero_agg"
  by (simp add: silero_aggregator_def SegmentAggregator_def FRAME_MS_def window_defs silero_agg_def)

lemma silero_ordered:
  obtains segs where "silero_stream_segments infer threshold st0 chunks = Inr segs"
    and "ordered_segs silero_agg (label infer threshold st0 (blocks (concat chunks))) 0 segs
      (length (label infer threshold st0 (blocks (concat chunks))))"
proof -
  let ?fs = "label infer threshold st0 (blocks (concat chunks))"
  have "SegmentAggregator 16000 FRAME_MS 300 600 250 30000 = Inr silero_agg"
    using silero_aggregator_init by (simp add: silero_aggregator_def)
  then obtain segs where "segment_stream silero_agg ?fs = Inr segs" "ordered_segs silero_agg ?fs 0 segs (length ?fs)"
    using segment_stream_advance [of 16000] by fastforce
  then show thesis using that by (simp add: silero_stream_eq silero_aggregator_init run_on_def)
qed

lemma silero_utterances:
  assumes "silero_stream_segments infer threshold st0 chunks = Inr segs"
  shows "\<exists>n < 1024. utterances_of (concat chunks @ replicate n 0) 0 segs"
proof -
  let ?fs = "label infer threshold st0 (blocks (concat chunks))"
  have o: "ordered_segs silero_agg ?fs 0 segs (length ?fs)"
    by (rule silero_ordered [of infer threshold st0 chunks]) (simp add: assms)
  have "length (fst p) = 1024" if "p \<in> set ?fs" for p
  proof -
    have "fst p \<in> set (map fst ?fs)" using that by simp
    then show ?thesis using length_block [of "fst p"] by (simp only: map_fst_label) (simp add: window_defs)
  qed
  then have "utterances_of (concat (map fst ?fs)) (32 * int 0) segs"
    by (intro ordered_utterances [OF _ _ _ o]) (simp_all add: silero_agg_def)
  then show ?thesis
    using concat_blocks [of "concat chunks"] by (auto simp: map_fst_label window_defs)
qed

interpretation silero: voice_activity_detector "silero_stream_segments infer threshold st0"
  for infer threshold st0
proof
  show "\<exists>segs. silero_stream_segments infer threshold st0 chunks = Inr segs" for chunks
    by (rule silero_ordered [of infer threshold st0 chunks]) blast
qed (rule silero_utterances)

section \<open>Properties\<close>

text \<open>A model that hears speech in every window, and audio of whole windows.\<close>

definition hears_all :: "unit infer" where
  "hears_all w st = (1, st)"

lemma blocks_zeros: "blocks (replicate (k * 1024) 0) = replicate k (replicate 1024 0)"
proof (induction k)
  case (Suc k)
  have "WINDOW_BYTES \<le> length (replicate (Suc k * 1024) (0 :: 8 word))" by (simp add: window_defs)
  from blocks_long [OF this, of "[]"] show ?case using Suc by (simp add: window_defs)
qed simp

lemma label_hears_all: "label hears_all (1 / 2) () fs = map (\<lambda>f. (f, True)) fs"
  by (induction fs) (simp_all add: hears_all_def)

lemmas run_silero = silero_agg_def segment_stream_Cons segment_stream_def flush_def feed_def handle_silent_def
  handle_speaking_def maybe_force_cut_def empty_output_def SegmentEvent_def SegmentResult_def emit_segment_def
  close_segment_def

lemma nine_windows:
  assumes "z \<noteq> []"
  shows "\<exists>seg. segment_stream silero_agg (replicate 9 (z, True)) = Inr [seg] \<and> start_ms seg = 0 \<and> end_ms seg = 288"
    and "\<exists>seg. segment_stream silero_agg (replicate 10 (z, True)) = Inr [seg] \<and> start_ms seg = 0 \<and> end_ms seg = 320"
  using assms by (simp_all add: numeral_eq_Suc run_silero Let_def)

text \<open>
  C31. Streaming agrees with file mode and does not depend on how the audio is chunked: for any
  model, threshold and chunking of an even number of bytes in all (whole samples), the streamed
  utterances have exactly the boundaries that \<open>detect\<close> reports on the concatenated audio.
\<close>

theorem silero_stream_agrees_with_detect:
  assumes "even (length (concat chunks))"
  shows "\<exists>segs. silero_stream_segments infer threshold st0 chunks = Inr segs \<and>
    silero_detect infer threshold st0 (concat chunks) 16000 = Inr (map to_speech segs)"
proof -
  obtain segs where s: "silero_stream_segments infer threshold st0 chunks = Inr segs"
    using silero.stream_total [of infer threshold st0 chunks] by blast
  then have "run_on infer threshold silero_agg st0 (concat chunks) = Inr segs"
    by (simp add: silero_stream_eq silero_aggregator_init)
  then show ?thesis using s silero_detect_eq [OF assms, of infer threshold st0] by (simp add: silero_aggregator_init)
qed

theorem silero_stream_agrees_with_detect_witness:
  "\<exists>seg. silero_stream_segments hears_all (1 / 2) () [replicate 1001 0, replicate 8215 0] = Inr [seg] \<and>
     silero_detect hears_all (1 / 2) () (replicate 9216 0) 16000 = Inr [to_speech seg] \<and> end_ms seg = 288"
proof -
  have cat: "concat [replicate 1001 0, replicate 8215 0] = replicate 9216 (0 :: 8 word)"
    by (simp flip: replicate_add)
  have "even (length (concat [replicate 1001 0, replicate 8215 (0 :: 8 word)]))" by (simp only: cat) simp
  note agree = silero_stream_agrees_with_detect [OF this, of hears_all "1 / 2" "()", unfolded cat]
  have "silero_stream_segments hears_all (1 / 2) () [replicate 1001 0, replicate 8215 0] =
      segment_stream silero_agg (replicate 9 (replicate 1024 0, True))"
    using blocks_zeros [of 9] by (simp only: silero_stream_eq cat) (simp add: silero_aggregator_init run_on_def label_hears_all)
  then show ?thesis using agree nine_windows(1) [of "replicate 1024 0"] by auto
qed

text \<open>
  With an odd number of bytes they can differ: streaming pads the last byte to a window of its own,
  file mode drops it. On nine windows of speech and one more byte \<open>detect\<close> ends the utterance at 288
  milliseconds and the stream at 320.
\<close>

lemma detect_zeros:
  "n + m \<le> 9 \<Longrightarrow> detect_loop hears_all (1 / 2) (replicate 9217 0) n (replicate m w) agg st =
     bindE (feed_all agg (replicate m (replicate 1024 0, True))) (\<lambda>(agg, segs). Inr (agg, map to_speech segs))"
proof (induction m arbitrary: n agg st)
  case (Suc m)
  have "take WINDOW_BYTES (drop (n * WINDOW_BYTES) (replicate 9217 0)) = replicate 1024 (0 :: 8 word)"
    using Suc.prems by (simp add: window_defs)
  then show ?case
    using Suc.IH [of "Suc n"] Suc.prems
    by (simp add: Let_def hears_all_def window_defs bindE_assoc case_prod_unfold)
qed simp

theorem odd_byte_adds_window:
  "\<exists>seg. silero_stream_segments hears_all (1 / 2) () [replicate 9217 0] = Inr [seg] \<and> end_ms seg = 320 \<and>
     silero_detect hears_all (1 / 2) () (replicate 9217 0) 16000 = Inr [\<lparr>sp_start_ms = 0, sp_end_ms = 288\<rparr>]"
proof -
  let ?z = "replicate 1024 0 :: bytes"
  have cat: "replicate 9217 0 = replicate (9 * 1024) 0 @ [0 :: 8 word]"
    using replicate_add [of "9 * 1024" 1 "0 :: 8 word"] by simp
  have "blocks (replicate (k * 1024) 0 @ [0]) = replicate k ?z @ [?z]" for k
  proof (induction k)
    case 0
    have "replicate (Suc 1023) (0 :: 8 word) = 0 # replicate 1023 0" by (rule replicate_Suc)
    then show ?case by (simp add: blocks_short window_defs del: replicate_Suc)
  next
    case (Suc k)
    have "WINDOW_BYTES \<le> length (replicate (Suc k * 1024) (0 :: 8 word))" by (simp add: window_defs)
    from blocks_long [OF this, of "[0]"] show ?case using Suc by (simp add: window_defs)
  qed
  from this [of 9] have "blocks (replicate 9217 0) = replicate 9 ?z @ [?z]" by (simp only: cat)
  also have "\<dots> = replicate 10 ?z" using replicate_add [of 9 1 ?z] by simp
  finally have "blocks (replicate 9217 0) = replicate 10 ?z" .
  then have stream: "silero_stream_segments hears_all (1 / 2) () [replicate 9217 0] =
      segment_stream silero_agg (replicate 10 (?z, True))"
    by (simp add: silero_stream_eq silero_aggregator_init run_on_def label_hears_all)
  have "iter_windows (pcm_to_float (replicate 9217 0)) = map int16_samples (replicate 9 ?z)"
    using iter_windows_blocks [of "replicate (9 * 1024) 0"] blocks_zeros [of 9] by (simp add: pcm_to_float_def cat butlast_append)
  then have "silero_detect hears_all (1 / 2) () (replicate 9217 0) 16000 =
      bindE (segment_stream silero_agg (replicate 9 (?z, True))) (\<lambda>segs. Inr (map to_speech segs))"
    using detect_zeros [of 0 9]
    by (simp add: silero_detect_def silero_aggregator_init segment_stream_def bindE_assoc case_prod_unfold)
  then have "silero_detect hears_all (1 / 2) () (replicate 9217 0) 16000 = Inr [\<lparr>sp_start_ms = 0, sp_end_ms = 288\<rparr>]"
    using nine_windows(1) [of ?z] by (auto simp: to_speech_def)
  then show ?thesis using stream nine_windows(2) [of ?z] by auto
qed

text \<open>
  Every utterance the Silero detector streams is a contiguous stretch of the received audio
  (zero padded to a whole window), and all utterances together last no longer than the audio,
  rounded up to a window.
\<close>

theorem silero_utterances_in_stream:
  "\<exists>segs. silero_stream_segments infer threshold st0 chunks = Inr segs \<and>
     list_all (\<lambda>s. \<exists>n < 1024. sublist (pcm16 s) (concat chunks @ replicate n 0)) segs \<and>
     32 * sum_list (map duration_ms segs) \<le> int (length (concat chunks)) + 1023"
proof -
  obtain segs where s: "silero_stream_segments infer threshold st0 chunks = Inr segs"
    using silero.stream_total [of infer threshold st0 chunks] by blast
  then show ?thesis
    using silero.utterance_in_stream [OF s] silero.total_speech [OF s] by (auto simp: list_all_iff)
qed

end
