(* ===== verification/Py_Sha1.thy ===== *)
theory Py_Sha1
  imports Py_Codec
begin

unbundle bit_operations_syntax

text \<open>
  \<open>hashlib.sha1\<close> and its hexadecimal digest, which the stub recogniser prints: FIPS 180 padding,
  message schedule and compression over 32-bit words.
\<close>

definition rotl32 :: "nat \<Rightarrow> 32 word \<Rightarrow> 32 word" where
  "rotl32 n w = push_bit n w OR drop_bit (32 - n) w"

definition sha1_pad :: "bytes \<Rightarrow> bytes" where
  "sha1_pad msg =
     (let n = length msg; bits = 8 * n
      in msg @ [0x80] @ replicate ((119 - n mod 64) mod 64) 0 @
         pack32 (of_nat (bits div 2 ^ 32)) @ pack32 (of_nat bits))"

fun be_words :: "bytes \<Rightarrow> 32 word list" where
  "be_words (a # b # c # d # rest) = be32 a b c d # be_words rest"
| "be_words _ = []"

text \<open>The schedule is kept newest first, so that the taps are at fixed positions.\<close>

fun sha1_schedule :: "nat \<Rightarrow> 32 word list \<Rightarrow> 32 word list" where
  "sha1_schedule 0 ws = ws"
| "sha1_schedule (Suc n) ws =
     sha1_schedule n (rotl32 1 (ws ! 2 XOR ws ! 7 XOR ws ! 13 XOR ws ! 15) # ws)"

type_synonym sha1_state = "32 word \<times> 32 word \<times> 32 word \<times> 32 word \<times> 32 word"

definition sha1_round :: "sha1_state \<Rightarrow> nat \<times> 32 word \<Rightarrow> sha1_state" where
  "sha1_round s x =
     (case (s, x) of ((a, b, c, d, e), (t, w)) \<Rightarrow>
        let (f, k) = (if t < 20 then ((b AND c) OR ((NOT b) AND d), 0x5A827999)
                      else if t < 40 then (b XOR c XOR d, 0x6ED9EBA1)
                      else if t < 60 then ((b AND c) OR (b AND d) OR (c AND d), 0x8F1BBCDC)
                      else (b XOR c XOR d, 0xCA62C1D6))
        in (rotl32 5 a + f + e + k + w, a, rotl32 30 b, c, d))"

definition sha1_block :: "sha1_state \<Rightarrow> 32 word list \<Rightarrow> sha1_state" where
  "sha1_block s ws =
     (case (s, foldl sha1_round s (enumerate 0 (rev (sha1_schedule 64 (rev ws))))) of
        ((a, b, c, d, e), (a', b', c', d', e')) \<Rightarrow> (a + a', b + b', c + c', d + d', e + e'))"

function sha1_blocks :: "sha1_state \<Rightarrow> 32 word list \<Rightarrow> sha1_state" where
  "sha1_blocks s ws = (if ws = [] then s else sha1_blocks (sha1_block s (take 16 ws)) (drop 16 ws))"
  by pat_completeness auto
termination
  by (relation "measure (\<lambda>(s, ws). length ws)") auto

declare sha1_blocks.simps [simp del]

definition sha1 :: "bytes \<Rightarrow> bytes" where
  "sha1 msg =
     (case sha1_blocks (0x67452301, 0xEFCDAB89, 0x98BADCFE, 0x10325476, 0xC3D2E1F0)
             (be_words (sha1_pad msg)) of
        (a, b, c, d, e) \<Rightarrow> pack32 a @ pack32 b @ pack32 c @ pack32 d @ pack32 e)"

definition hex_digit :: "nat \<Rightarrow> nat" where
  "hex_digit n = (if n < 10 then 48 + n else 87 + n)"

definition hexdigest :: "bytes \<Rightarrow> pystr" where
  "hexdigest b = concat (map (\<lambda>x. [hex_digit (unat x div 16), hex_digit (unat x mod 16)]) b)"

lemma length_hexdigest [simp]: "length (hexdigest b) = 2 * length b"
  by (induction b) (simp_all add: hexdigest_def)

lemma length_pack32 [simp]: "length (pack32 w) = 4"
  by (simp add: pack32_def pack16_def)

lemma length_sha1: "length (sha1 msg) = 20"
  by (simp add: sha1_def split: prod.splits)

end
