(* ===== verification/Py_Wave.thy ===== *)
theory Py_Wave
  imports Py_Codec
begin

text \<open>
  The standard library's \<open>wave\<close> module as the sources use it: opening a RIFF file for reading,
  its four getters with \<open>readframes(getnframes())\<close>, and writing one block of frames. Modelled on
  Python 3.10 and 3.11, which accept the PCM format tag only. The reader wraps the file in a
  chunk, so every read is bounded by the size field of the RIFF chunk as well as by the file;
  positions are offsets into the body of that chunk. Shown here: what is written is read back.
\<close>

section \<open>Little-endian numbers\<close>

definition le_nat :: "bytes \<Rightarrow> nat" where
  "le_nat bs = foldr (\<lambda>b n. unat b + 256 * n) bs 0"

fun le_enc :: "nat \<Rightarrow> nat \<Rightarrow> bytes" where
  "le_enc 0 n = []"
| "le_enc (Suc k) n = byte_of (n mod 256) # le_enc k (n div 256)"

lemma length_le_enc [simp]: "length (le_enc k n) = k"
  by (induction k arbitrary: n) auto

lemma le_nat_enc: "n < 256 ^ k \<Longrightarrow> le_nat (le_enc k n) = n"
proof (induction k arbitrary: n)
  case (Suc k)
  have "n div 256 < 256 ^ k" using Suc.prems by (simp add: less_mult_imp_div_less mult.commute)
  then have "le_nat (le_enc k (n div 256)) = n div 256" by (rule Suc.IH)
  then show ?case by (simp add: le_nat_def)
qed (simp add: le_nat_def)

section \<open>Chunks\<close>

fun is_wave_error :: "exn \<Rightarrow> bool" where
  "is_wave_error (WaveError _) = True"
| "is_wave_error _ = False"

definition RIFF_ID :: bytes where "RIFF_ID = [0x52, 0x49, 0x46, 0x46]"
definition WAVE_ID :: bytes where "WAVE_ID = [0x57, 0x41, 0x56, 0x45]"
definition FMT_ID :: bytes where "FMT_ID = [0x66, 0x6D, 0x74, 0x20]"
definition DATA_ID :: bytes where "DATA_ID = [0x64, 0x61, 0x74, 0x61]"

lemma chunk_ids [simp]:
  "length RIFF_ID = 4" "length WAVE_ID = 4" "length FMT_ID = 4" "length DATA_ID = 4" "DATA_ID \<noteq> FMT_ID" "FMT_ID \<noteq> DATA_ID"
  by (simp_all add: RIFF_ID_def WAVE_ID_def FMT_ID_def DATA_ID_def)

text \<open>\<open>read\<close> on the RIFF chunk: at most to its end, plus the padding byte of an odd size.\<close>

definition riff_read :: "bytes \<Rightarrow> nat \<Rightarrow> nat \<Rightarrow> nat \<Rightarrow> bytes \<times> nat" where
  "riff_read body riff_size n p =
     (if riff_size \<le> p then ([], p)
      else
        (let data = take (min n (riff_size - p)) (drop p body); p = p + length data
         in (data, if p = riff_size \<and> odd riff_size \<and> p < length body then p + 1 else p)))"

record wave_chunk =
  ck_name :: bytes
  ck_size :: nat
  ck_read :: nat

text \<open>Opening a chunk inside the RIFF chunk; \<open>None\<close> is the \<open>EOFError\<close> that ends the search.\<close>

definition chunk_open :: "bytes \<Rightarrow> nat \<Rightarrow> nat \<Rightarrow> (wave_chunk \<times> nat) option" where
  "chunk_open body riff_size p =
     (case riff_read body riff_size 4 p of (name, p) \<Rightarrow>
        if length name < 4 then None
        else (case riff_read body riff_size 4 p of (field, p) \<Rightarrow>
          if length field < 4 then None
          else Some (\<lparr>ck_name = name, ck_size = le_nat field, ck_read = 0\<rparr>, p)))"

definition chunk_read :: "bytes \<Rightarrow> nat \<Rightarrow> nat \<Rightarrow> wave_chunk \<Rightarrow> nat \<Rightarrow> bytes \<times> wave_chunk \<times> nat" where
  "chunk_read body riff_size n c p =
     (if ck_size c \<le> ck_read c then ([], c, p)
      else
        (case riff_read body riff_size (min n (ck_size c - ck_read c)) p of (data, p) \<Rightarrow>
          (let c = c\<lparr>ck_read := ck_read c + length data\<rparr>
           in if ck_read c = ck_size c \<and> odd (ck_size c)
              then (case riff_read body riff_size 1 p of (dummy, p) \<Rightarrow>
                      (data, c\<lparr>ck_read := ck_read c + length dummy\<rparr>, p))
              else (data, c, p))))"

text \<open>\<open>skip\<close> seeks; beyond the RIFF chunk that is a \<open>RuntimeError\<close>.\<close>

definition chunk_skip :: "nat \<Rightarrow> wave_chunk \<Rightarrow> nat \<Rightarrow> nat result" where
  "chunk_skip riff_size c p =
     (let n = int (ck_size c) - int (ck_read c) + (if odd (ck_size c) then 1 else 0);
          pos = int p + n
      in if pos < 0 \<or> int riff_size < pos then Inl (OtherError ''RuntimeError'') else Inr (nat pos))"

section \<open>Reading\<close>

record wav_file =
  wav_channels :: nat
  wav_sampwidth :: nat
  wav_framerate :: nat
  wav_frames :: bytes

text \<open>The format fields: channels, frame rate, sample width.\<close>

definition read_fmt_chunk ::
  "bytes \<Rightarrow> nat \<Rightarrow> wave_chunk \<Rightarrow> nat \<Rightarrow> ((nat \<times> nat \<times> nat) \<times> wave_chunk \<times> nat) result" where
  "read_fmt_chunk body riff_size c p =
     (case chunk_read body riff_size 14 c p of (fmt, c, p) \<Rightarrow>
        if length fmt < 14 then Inl EOFError
        else if le_nat (take 2 fmt) \<noteq> 1 then Inl (WaveError ''unknown format'')
        else (case chunk_read body riff_size 2 c p of (bits, c, p) \<Rightarrow>
          if length bits < 2 then Inl EOFError
          else
            (let sampwidth = (le_nat bits + 7) div 8; nchannels = le_nat (take 2 (drop 2 fmt))
             in if sampwidth = 0 then Inl (WaveError ''bad sample width'')
                else if nchannels = 0 then Inl (WaveError ''bad # of channels'')
                else Inr ((nchannels, le_nat (take 4 (drop 4 fmt)), sampwidth), c, p))))"

lemma riff_read_mono:
  "riff_read body riff_size n p = (data, p') \<Longrightarrow>
     p + length data \<le> p' \<and> length data \<le> n \<and> (data \<noteq> [] \<longrightarrow> p < length body)"
  by (auto simp: riff_read_def Let_def min_le_iff_disj split: if_splits)

lemma chunk_open_mono: "chunk_open body riff_size p = Some (c, p') \<Longrightarrow> p < p' \<and> p < length body \<and> ck_read c = 0"
  by (fastforce simp: chunk_open_def split: prod.splits if_splits dest!: riff_read_mono)

lemma chunk_read_mono:
  "chunk_read body riff_size n c p = (data, c', p') \<Longrightarrow>
     p \<le> p' \<and> ck_size c' = ck_size c \<and> (ck_read c \<le> ck_size c + (if odd (ck_size c) then 1 else 0) \<longrightarrow>
       ck_read c' \<le> ck_size c + (if odd (ck_size c) then 1 else 0))"
  by (auto simp: chunk_read_def Let_def split: prod.splits if_splits dest!: riff_read_mono)

lemma read_fmt_mono:
  assumes "read_fmt_chunk body riff_size c p = Inr (f, c', p')" and "ck_read c = 0"
  shows "p \<le> p' \<and> ck_size c' = ck_size c \<and> ck_read c' \<le> ck_size c + (if odd (ck_size c) then 1 else 0)"
  using assms
  by (fastforce simp: read_fmt_chunk_def Let_def split: prod.splits if_splits dest!: chunk_read_mono)

lemma chunk_skip_mono:
  "chunk_skip riff_size c p = Inr p' \<Longrightarrow> ck_read c \<le> ck_size c + (if odd (ck_size c) then 1 else 0) \<Longrightarrow> p \<le> p'"
  by (auto simp: chunk_skip_def Let_def split: if_splits)

lemma wave_search_step:
  "chunk_open body riff_size p = Some (c, q) \<Longrightarrow> chunk_skip riff_size c q = Inr q' \<Longrightarrow>
     length body - q' < length body - p"
  "chunk_open body riff_size p = Some (c, q) \<Longrightarrow> read_fmt_chunk body riff_size c q = Inr (f, c', q') \<Longrightarrow>
     chunk_skip riff_size c' q' = Inr q'' \<Longrightarrow> length body - q'' < length body - p"
  using chunk_open_mono [of body riff_size p c q] chunk_skip_mono [of riff_size c q q']
    read_fmt_mono [of body riff_size c q f c' q'] chunk_skip_mono [of riff_size c' q' q'']
  by (fastforce, force)

text \<open>The search for the data chunk.\<close>

function wave_chunks :: "bytes \<Rightarrow> nat \<Rightarrow> (nat \<times> nat \<times> nat) option \<Rightarrow> nat \<Rightarrow> wav_file result" where
  "wave_chunks body riff_size fmt p =
     (case chunk_open body riff_size p of
        None \<Rightarrow> Inl (WaveError ''fmt chunk and/or data chunk missing'')
      | Some (c, p) \<Rightarrow>
          if ck_name c = FMT_ID
          then bindE (read_fmt_chunk body riff_size c p) (\<lambda>(f, c, p).
                 bindE (chunk_skip riff_size c p) (\<lambda>p. wave_chunks body riff_size (Some f) p))
          else if ck_name c = DATA_ID
          then (case fmt of
                  None \<Rightarrow> Inl (WaveError ''data chunk before fmt chunk'')
                | Some (nchannels, framerate, sampwidth) \<Rightarrow>
                    (let framesize = nchannels * sampwidth; nframes = ck_size c div framesize
                     in Inr \<lparr>wav_channels = nchannels, wav_sampwidth = sampwidth, wav_framerate = framerate,
                              wav_frames = (if nframes = 0 then []
                                            else fst (chunk_read body riff_size (nframes * framesize) c p))\<rparr>))
          else bindE (chunk_skip riff_size c p) (\<lambda>p. wave_chunks body riff_size fmt p))"
  by pat_completeness auto
termination
  by (relation "measure (\<lambda>(body, riff_size, fmt, p). length body - p)") (auto intro: wave_search_step)

declare wave_chunks.simps [simp del]

definition wave_open :: "bytes \<Rightarrow> wav_file result" where
  "wave_open data =
     (if length data < 8 then Inl EOFError
      else if take 4 data \<noteq> RIFF_ID then Inl (WaveError ''file does not start with RIFF id'')
      else
        (let riff_size = le_nat (take 4 (drop 4 data)); body = drop 8 data
         in case riff_read body riff_size 4 0 of (form, p) \<Rightarrow>
              if form \<noteq> WAVE_ID then Inl (WaveError ''not a WAVE file'')
              else wave_chunks body riff_size None p))"

section \<open>Writing\<close>

text \<open>
  \<open>wave.open(buf, "wb")\<close> with one channel of two-byte samples, \<open>setframerate\<close>, one \<open>writeframes\<close>
  and \<open>close\<close>, which patches the two length fields when the data is not a whole number of frames.
\<close>

definition wave_write_mono16 :: "int \<Rightarrow> bytes \<Rightarrow> bytes result" where
  "wave_write_mono16 sample_rate pcm =
     (if sample_rate \<le> 0 then Inl (WaveError ''bad frame rate'')
      else if 2 ^ 32 \<le> 2 * sample_rate \<or> 2 ^ 32 \<le> 36 + length pcm then Inl StructError
      else
        (let rate = nat sample_rate
         in Inr (RIFF_ID @ le_enc 4 (36 + length pcm) @ WAVE_ID @
              FMT_ID @ le_enc 4 16 @ le_enc 2 1 @ le_enc 2 1 @ le_enc 4 rate @
              le_enc 4 (2 * rate) @ le_enc 2 2 @ le_enc 2 16 @ DATA_ID @
              le_enc 4 (length pcm) @ pcm)))"

section \<open>Reading back\<close>

lemma riff_read_exact:
  assumes "body = pre @ d @ post" and "length pre = p" and "length d = n" and "0 < n"
  shows "riff_read body (length body) n p = (d, p + n)"
  using assms by (auto simp: riff_read_def Let_def)

lemma chunk_open_exact:
  assumes "body = pre @ name @ le_enc 4 k @ post" and "length pre = p" and "length name = 4" and "k < 2 ^ 32"
  shows "chunk_open body (length body) p = Some (\<lparr>ck_name = name, ck_size = k, ck_read = 0\<rparr>, p + 8)"
proof -
  have "riff_read body (length body) 4 p = (name, p + 4)"
    using assms by (intro riff_read_exact [of body pre name "le_enc 4 k @ post"]) auto
  moreover have "riff_read body (length body) 4 (p + 4) = (le_enc 4 k, p + 4 + 4)"
    using assms by (intro riff_read_exact [of body "pre @ name" "le_enc 4 k" post]) auto
  ultimately show ?thesis using assms(3,4) le_nat_enc [of k 4] by (simp add: chunk_open_def del: le_enc.simps)
qed

lemma chunk_read_exact:
  assumes "body = pre @ d @ post" and "length pre = p" and "length d = n" and "0 < n"
    and "ck_read c + n \<le> ck_size c" and "ck_read c + n < ck_size c \<or> even (ck_size c)"
  shows "chunk_read body (length body) n c p = (d, c\<lparr>ck_read := ck_read c + n\<rparr>, p + n)"
  using riff_read_exact [OF assms(1-4)] assms(3-6) by (auto simp: chunk_read_def Let_def min_def)

lemma chunk_read_frames:
  assumes "body = pre @ d" and "length pre = p" and "ck_read c = 0" and "ck_size c = length d" and "0 < n" and "n \<le> length d"
  shows "fst (chunk_read body (length body) n c p) = take n d"
  using riff_read_exact [of body pre "take n d" "drop n d" p n] assms
  by (auto simp: chunk_read_def Let_def min_def split: prod.splits)

lemma wave_roundtrip:
  assumes "wave_write_mono16 rate pcm = Inr wav"
  shows "wave_open wav = Inr \<lparr>wav_channels = 1, wav_sampwidth = 2, wav_framerate = nat rate,
    wav_frames = take (length pcm div 2 * 2) pcm\<rparr>"
proof -
  let ?n = "length pcm" and ?r = "nat rate"
  let ?fmt = "le_enc 2 1 @ le_enc 2 1 @ le_enc 4 ?r @ le_enc 4 (2 * ?r) @ le_enc 2 2"
  define body where "body = WAVE_ID @ FMT_ID @ le_enc 4 16 @ ?fmt @ le_enc 2 16 @ DATA_ID @ le_enc 4 ?n @ pcm"
  have len: "length body = 36 + ?n" by (simp add: body_def del: le_enc.simps)
  have bounds: "?r < 2 ^ 32" "2 * ?r < 2 ^ 32" "36 + ?n < 2 ^ 32"
    and wav: "wav = RIFF_ID @ le_enc 4 (36 + ?n) @ body"
    using assms by (auto simp: wave_write_mono16_def Let_def body_def
        nat_less_iff split: if_splits simp del: le_enc.simps)
  have fmtlen: "length ?fmt = 14" by (simp del: le_enc.simps)
  let ?c1 = "\<lparr>ck_name = FMT_ID, ck_size = 16, ck_read = 0\<rparr>"
  have open1: "chunk_open body (length body) 4 = Some (?c1, 12)"
    using chunk_open_exact [of body WAVE_ID FMT_ID 16 _ 4] by (simp add: body_def del: le_enc.simps)
  have r14: "chunk_read body (length body) 14 ?c1 12 = (?fmt, \<lparr>ck_name = FMT_ID, ck_size = 16, ck_read = 14\<rparr>, 26)"
    using chunk_read_exact [of body "WAVE_ID @ FMT_ID @ le_enc 4 16" ?fmt _ 12 14 ?c1] fmtlen
    by (simp add: body_def del: le_enc.simps)
  have r2: "chunk_read body (length body) 2 \<lparr>ck_name = FMT_ID, ck_size = 16, ck_read = 14\<rparr> 26 = (le_enc 2 16, \<lparr>ck_name = FMT_ID, ck_size = 16, ck_read = 16\<rparr>, 28)"
    using chunk_read_exact [of body "WAVE_ID @ FMT_ID @ le_enc 4 16 @ ?fmt" "le_enc 2 16" _ 26 2 "\<lparr>ck_name = FMT_ID, ck_size = 16, ck_read = 14\<rparr>"] fmtlen
    by (simp add: body_def del: le_enc.simps)
  have fields: "le_nat (take 2 ?fmt) = 1" "le_nat (take 2 (drop 2 ?fmt)) = 1" "le_nat (take 4 (drop 4 ?fmt)) = ?r"
    using bounds le_nat_enc [of 1 2] le_nat_enc [of ?r 4] by (simp_all del: le_enc.simps)
  have fmt: "read_fmt_chunk body (length body) ?c1 12 = Inr ((1, ?r, 2), \<lparr>ck_name = FMT_ID, ck_size = 16, ck_read = 16\<rparr>, 28)"
    using fmtlen fields le_nat_enc [of 16 2] by (simp add: read_fmt_chunk_def r14 r2 Let_def del: le_enc.simps)
  let ?c2 = "\<lparr>ck_name = DATA_ID, ck_size = ?n, ck_read = 0\<rparr>"
  have open2: "chunk_open body (length body) 28 = Some (?c2, 36)"
    using chunk_open_exact [of body "WAVE_ID @ FMT_ID @ le_enc 4 16 @ ?fmt @ le_enc 2 16" DATA_ID ?n pcm 28] fmtlen bounds
    by (simp add: body_def del: le_enc.simps)
  have frames: "(if ?n div 2 = 0 then [] else fst (chunk_read body (length body) (?n div 2 * 2) ?c2 36)) = take (?n div 2 * 2) pcm"
    using chunk_read_frames [of body "WAVE_ID @ FMT_ID @ le_enc 4 16 @ ?fmt @ le_enc 2 16 @ DATA_ID @ le_enc 4 ?n" pcm 36 ?c2 "?n div 2 * 2"]
      fmtlen by (simp add: body_def del: le_enc.simps)
  have data: "wave_chunks body (length body) (Some (1, ?r, 2)) 28 = Inr \<lparr>wav_channels = 1, wav_sampwidth = 2,
      wav_framerate = ?r, wav_frames = take (?n div 2 * 2) pcm\<rparr>"
    using frames by (subst wave_chunks.simps) (auto simp: open2 Let_def split: if_splits)
  have "wave_chunks body (length body) None 4 = wave_chunks body (length body) (Some (1, ?r, 2)) 28"
  proof -
    have "28 \<le> length body" using len by simp
    then show ?thesis by (subst wave_chunks.simps) (simp add: open1 fmt chunk_skip_def Let_def)
  qed
  moreover have "riff_read body (length body) 4 0 = (WAVE_ID, 4)"
    using riff_read_exact [of body "[]" WAVE_ID _ 0 4] by (simp add: body_def)
  moreover have "le_nat (take 4 (drop 4 wav)) = length body" "drop 8 wav = body" "take 4 wav = RIFF_ID" "8 \<le> length wav"
    using bounds le_nat_enc [of "36 + ?n" 4] by (simp_all add: wav len del: le_enc.simps)
  ultimately show ?thesis using data by (simp add: wave_open_def Let_def)
qed

end
