(* ===== verification/Asr.thy ===== *)
theory Asr
  imports Vad Py_Sha1 Py_Wave
begin

text \<open>
  The speech recognisers of \<open>models/asr\<close>: the types of \<open>base.py\<close>, the stub of \<open>stub.py\<close>, the
  unfinished \<open>local.py\<close> and \<open>cloud.py\<close>, and \<open>paraformer.py\<close> with its token table, CMVN file,
  frame stacking, greedy decoding and pseudo-streaming. A \<open>stream\<close> method is an asynchronous
  generator: given the chunks that arrive, it is the list of what it yields together with the
  exception that ends it, if any. The contract the callers rely on is the locale \<open>asr_backend\<close>.
  The filter bank and the ONNX session are parameters.
\<close>

section \<open>Types\<close>

record partial_transcript =
  pt_text :: pystr
  pt_is_final :: bool
  pt_start_ms :: int
  pt_end_ms :: int

record final_transcript =
  ft_text :: pystr
  ft_confidence :: pyfloat
  ft_duration_ms :: int

record audio_chunk =
  ac_pcm16 :: bytes
  ac_sequence :: nat

type_synonym 'a gen = "'a list \<times> exn option"
type_synonym asr_stream = "audio_chunk list \<Rightarrow> partial_transcript gen"

definition yield :: "'a \<Rightarrow> 'a gen \<Rightarrow> 'a gen" where
  "yield x g = (x # fst g, snd g)"

lemma yield_simps [simp]: "fst (yield x g) = x # fst g" "snd (yield x g) = snd g"
  by (simp_all add: yield_def)

section \<open>The stub\<close>

text \<open>\<open>self._scripted or f"stub:{hashlib.sha1(data).hexdigest()[:8]}"\<close>: the empty script is false.\<close>

definition stub_text :: "pystr option \<Rightarrow> bytes \<Rightarrow> pystr" where
  "stub_text scripted data =
     (case scripted of
        Some t \<Rightarrow> if t \<noteq> [] then t else u ''stub:'' @ take 8 (hexdigest (sha1 data))
      | None \<Rightarrow> u ''stub:'' @ take 8 (hexdigest (sha1 data)))"

definition stub_transcribe_file :: "pystr option \<Rightarrow> bytes \<Rightarrow> final_transcript" where
  "stub_transcribe_file scripted wav =
     \<lparr>ft_text = stub_text scripted wav, ft_confidence = 1, ft_duration_ms = 0\<rparr>"

fun stub_asr_loop ::
  "pystr option \<Rightarrow> bytes \<Rightarrow> nat \<Rightarrow> audio_chunk list \<Rightarrow> partial_transcript gen" where
  "stub_asr_loop scripted accumulated last_emit_ms [] =
     ([\<lparr>pt_text = stub_text scripted accumulated, pt_is_final = True, pt_start_ms = 0,
        pt_end_ms = int last_emit_ms\<rparr>], None)"
| "stub_asr_loop scripted accumulated last_emit_ms (chunk # chunks) =
     (let accumulated = accumulated @ ac_pcm16 chunk;
          last_emit_ms = last_emit_ms + length (ac_pcm16 chunk) div 2 * 1000 div 16000
      in yield \<lparr>pt_text = (case scripted of Some t \<Rightarrow> t | None \<Rightarrow> []), pt_is_final = False,
                pt_start_ms = 0, pt_end_ms = int last_emit_ms\<rparr>
           (stub_asr_loop scripted accumulated last_emit_ms chunks))"

definition stub_asr_stream :: "pystr option \<Rightarrow> asr_stream" where
  "stub_asr_stream scripted chunks = stub_asr_loop scripted [] 0 chunks"

text \<open>\<open>LocalASR\<close> and \<open>CloudASR\<close> raise at the first step of the generator.\<close>

definition local_asr_stream :: asr_stream where
  "local_asr_stream chunks = ([], Some (OtherError ''NotImplementedError''))"

definition local_transcribe_file :: "bytes \<Rightarrow> final_transcript result" where
  "local_transcribe_file wav = Inl (OtherError ''NotImplementedError'')"

definition cloud_asr_stream :: "pystr \<Rightarrow> asr_stream" where
  "cloud_asr_stream provider chunks = ([], Some (OtherError ''NotImplementedError''))"

definition cloud_transcribe_file :: "pystr \<Rightarrow> bytes \<Rightarrow> final_transcript result" where
  "cloud_transcribe_file provider wav = Inl (OtherError ''NotImplementedError'')"

section \<open>Paraformer\<close>

definition FBANK_NUM_BINS :: nat where "FBANK_NUM_BINS = 80"
definition LFR_WINDOW :: nat where "LFR_WINDOW = 7"
definition LFR_SHIFT :: nat where "LFR_SHIFT = 6"
definition STACKED_DIM :: nat where "STACKED_DIM = FBANK_NUM_BINS * LFR_WINDOW"
definition BLANK_ID :: nat where "BLANK_ID = 0"
definition EOS_ID :: nat where "EOS_ID = 2"
definition PARTIAL_EMIT_MS :: int where "PARTIAL_EMIT_MS = 800"

text \<open>The token table: line number to the first word of the line.\<close>

definition token_of_line :: "pystr \<Rightarrow> pystr" where
  "token_of_line line = (case words_by is_space (strip line) of [] \<Rightarrow> [] | w # _ \<Rightarrow> w)"

definition load_tokens :: "pystr list \<Rightarrow> (nat, pystr) dict" where
  "load_tokens ls = enumerate 0 (map token_of_line ls)"

text \<open>
  \<open>_load_cmvn\<close>: the first two \<open><LearnRateCoef>\<close> rows, each without its first three words and its
  last. \<open>to_f32\<close> is \<open>np.float32(float(x))\<close>.
\<close>

definition cmvn_row :: "(pystr \<Rightarrow> 'f result) \<Rightarrow> pystr \<Rightarrow> 'f list result" where
  "cmvn_row to_f32 line = mapE to_f32 (butlast (drop 3 (words_by is_space line)))"

fun load_cmvn :: "(pystr \<Rightarrow> 'f result) \<Rightarrow> 'f list option \<Rightarrow> pystr list \<Rightarrow> ('f list \<times> 'f list) result" where
  "load_cmvn to_f32 neg_mean [] = Inl (ParaformerError ''am.mvn missing <LearnRateCoef> rows'')"
| "load_cmvn to_f32 neg_mean (line # ls) =
     (if take 15 line \<noteq> u ''<LearnRateCoef>'' then load_cmvn to_f32 neg_mean ls
      else bindE (cmvn_row to_f32 line) (\<lambda>vals.
        case neg_mean of
          None \<Rightarrow> load_cmvn to_f32 (Some vals) ls
        | Some nm \<Rightarrow> Inr (nm, vals)))"

text \<open>
  The recogniser after \<open>__init__\<close>: the parsed files, the partial interval, and the two external
  parts, the filter bank (samples to frames of 80 values) and the acoustic model (features to
  one row of logits per token), whose session may fail to open. Arithmetic on float32 values is a
  parameter as well.
\<close>

record 'f paraformer =
  pf_partial_emit_ms :: int
  pf_tokens :: "(nat, pystr) dict"
  pf_neg_mean :: "'f list"
  pf_inv_std :: "'f list"
  pf_fbank :: "pyfloat list \<Rightarrow> 'f list list"
  pf_add :: "'f \<Rightarrow> 'f \<Rightarrow> 'f"
  pf_mul :: "'f \<Rightarrow> 'f \<Rightarrow> 'f"
  pf_logits :: "'f list list \<Rightarrow> pyfloat list list"

definition ParaformerASR ::
  "(pyfloat list \<Rightarrow> 'f list list) \<Rightarrow> ('f \<Rightarrow> 'f \<Rightarrow> 'f) \<Rightarrow> ('f \<Rightarrow> 'f \<Rightarrow> 'f) \<Rightarrow>
     ('f list list \<Rightarrow> pyfloat list list) result \<Rightarrow> (pystr \<Rightarrow> 'f result) \<Rightarrow>
     bool \<Rightarrow> pystr list option \<Rightarrow> pystr list option \<Rightarrow> int \<Rightarrow> 'f paraformer result" where
  "ParaformerASR fbank add mul open_session to_f32 model_exists tokens_file cmvn_file emit_ms =
     (if \<not> model_exists then Inl (ParaformerError ''Paraformer model file missing'')
      else case (tokens_file, cmvn_file) of
        (None, _) \<Rightarrow> Inl (ParaformerError ''Paraformer tokens file missing'')
      | (_, None) \<Rightarrow> Inl (ParaformerError ''Paraformer cmvn file missing'')
      | (Some token_lines, Some cmvn_lines) \<Rightarrow>
          bindE open_session (\<lambda>logits.
          bindE (load_cmvn to_f32 None cmvn_lines) (\<lambda>(neg_mean, inv_std).
            if length neg_mean \<noteq> STACKED_DIM \<or> length inv_std \<noteq> STACKED_DIM
            then Inl (ParaformerError ''CMVN shape mismatch'')
            else Inr \<lparr>pf_partial_emit_ms = emit_ms, pf_tokens = load_tokens token_lines,
                      pf_neg_mean = neg_mean, pf_inv_std = inv_std, pf_fbank = fbank,
                      pf_add = add, pf_mul = mul, pf_logits = logits\<rparr>)))"

text \<open>
  \<open>as_strided\<close> reads the frame buffer as one flat array: row \<open>t\<close> starts \<open>t * 480\<close> values in and is
  560 values long.
\<close>

definition stacked_rows :: "'f list list \<Rightarrow> 'f list list" where
  "stacked_rows feats =
     (let flat = concat feats; t_out = (length feats - LFR_WINDOW) div LFR_SHIFT + 1
      in map (\<lambda>t. take STACKED_DIM (drop (t * (LFR_SHIFT * FBANK_NUM_BINS)) flat)) [0..<t_out])"

definition features :: "'f paraformer \<Rightarrow> pyfloat list \<Rightarrow> 'f list list" where
  "features pf pcm_float =
     (let frames = pf_fbank pf (map (\<lambda>x. x * 32768) pcm_float)
      in if length frames < LFR_WINDOW then []
         else map (\<lambda>row. map2 (pf_mul pf) (map2 (pf_add pf) row (pf_neg_mean pf)) (pf_inv_std pf))
                (stacked_rows frames))"

text \<open>\<open>argmax\<close>: the first position of the largest value.\<close>

fun argmax_from :: "nat \<Rightarrow> nat \<Rightarrow> pyfloat \<Rightarrow> pyfloat list \<Rightarrow> nat" where
  "argmax_from i best v [] = best"
| "argmax_from i best v (x # xs) = (if v < x then argmax_from (Suc i) i x xs else argmax_from (Suc i) best v xs)"

definition argmax :: "pyfloat list \<Rightarrow> nat" where
  "argmax xs = argmax_from 1 0 (hd xs) (tl xs)"

definition run_and_decode :: "'f paraformer \<Rightarrow> 'f list list \<Rightarrow> pystr" where
  "run_and_decode pf feats =
     (let ids = map argmax (pf_logits pf feats)
      in concat (map (\<lambda>i. the (dget (pf_tokens pf) i))
           (filter (\<lambda>i. i \<noteq> BLANK_ID \<and> i \<noteq> EOS_ID \<and> i \<in> set (dkeys (pf_tokens pf))) ids)))"

definition decode_pcm_buffer :: "'f paraformer \<Rightarrow> bytes \<Rightarrow> pystr result" where
  "decode_pcm_buffer pf pcm =
     (if pcm = [] then Inr []
      else if odd (length pcm) then Inl (ValueError ''buffer size must be a multiple of element size'')
      else (let feats = features pf (int16_samples pcm)
            in if feats = [] then Inr [] else Inr (run_and_decode pf feats)))"

definition paraformer_decode_wav :: "bytes \<Rightarrow> pyfloat list result" where
  "paraformer_decode_wav wav_bytes =
     (case wave_open wav_bytes of
        Inl e \<Rightarrow> Inl (if is_wave_error e then ParaformerError ''failed to parse WAV'' else e)
      | Inr w \<Rightarrow>
          if wav_channels w \<noteq> 1 then Inl (ParaformerError ''expected mono WAV'')
          else if wav_sampwidth w \<noteq> 2 then Inl (ParaformerError ''expected 16-bit PCM'')
          else if wav_framerate w \<noteq> 16000 then Inl (ParaformerError ''expected 16000 Hz'')
          else if odd (length (wav_frames w))
          then Inl (ValueError ''buffer size must be a multiple of element size'')
          else Inr (int16_samples (wav_frames w)))"

definition paraformer_transcribe_file ::
  "'f paraformer \<Rightarrow> bytes \<Rightarrow> final_transcript result" where
  "paraformer_transcribe_file pf wav_bytes =
     bindE (paraformer_decode_wav wav_bytes) (\<lambda>pcm.
       (let duration_ms = round_half_even (fmul (fdiv (of_nat (length pcm)) 16000) 1000);
            feats = features pf pcm
        in Inr \<lparr>ft_text = (if feats = [] then [] else run_and_decode pf feats), ft_confidence = 1,
                ft_duration_ms = duration_ms\<rparr>))"

text \<open>\<open>len(accumulated) // 2 * 1000 // _SAMPLE_RATE\<close>\<close>

definition buffered_ms :: "bytes \<Rightarrow> int" where
  "buffered_ms pcm = int (length pcm div 2 * 1000 div 16000)"

fun paraformer_loop ::
  "(bytes \<Rightarrow> pystr result) \<Rightarrow> int \<Rightarrow> bytes \<Rightarrow> int \<Rightarrow> pystr \<Rightarrow> audio_chunk list \<Rightarrow> partial_transcript gen" where
  "paraformer_loop decode emit_ms accumulated emitted_ms last_text [] =
     (case (if accumulated \<noteq> [] then decode accumulated else Inr last_text) of
        Inl e \<Rightarrow> ([], Some e)
      | Inr final_text \<Rightarrow>
          ([\<lparr>pt_text = final_text, pt_is_final = True, pt_start_ms = 0,
             pt_end_ms = buffered_ms accumulated\<rparr>], None))"
| "paraformer_loop decode emit_ms accumulated emitted_ms last_text (chunk # chunks) =
     (if ac_pcm16 chunk = [] then paraformer_loop decode emit_ms accumulated emitted_ms last_text chunks
      else
        (let accumulated = accumulated @ ac_pcm16 chunk; ms = buffered_ms accumulated
         in if ms - emitted_ms < emit_ms
            then paraformer_loop decode emit_ms accumulated emitted_ms last_text chunks
            else (case decode accumulated of
                    Inl e \<Rightarrow> ([], Some e)
                  | Inr t \<Rightarrow>
                      yield \<lparr>pt_text = t, pt_is_final = False, pt_start_ms = 0, pt_end_ms = ms\<rparr>
                        (paraformer_loop decode emit_ms accumulated ms t chunks))))"

definition paraformer_stream :: "'f paraformer \<Rightarrow> asr_stream" where
  "paraformer_stream pf chunks =
     paraformer_loop (decode_pcm_buffer pf) (pf_partial_emit_ms pf) [] 0 [] chunks"

section \<open>The recogniser contract\<close>

text \<open>
  What the WebSocket handler, the MRCP server and the bridge rely on: a stream that ends normally
  yields exactly one final transcript, as its last item; a stream that raises has yielded none;
  time stamps never run backwards and never pass the audio received.
\<close>

definition pcm_ms :: "audio_chunk list \<Rightarrow> int" where
  "pcm_ms chunks = buffered_ms (concat (map ac_pcm16 chunks))"

locale asr_backend =
  fixes stream :: asr_stream
  assumes ends_final: "snd (stream chunks) = None \<Longrightarrow>
      fst (stream chunks) \<noteq> [] \<and> pt_is_final (last (fst (stream chunks))) \<and>
      (\<forall>p \<in> set (butlast (fst (stream chunks))). \<not> pt_is_final p)"
    and error_not_final: "snd (stream chunks) = Some e \<Longrightarrow> \<forall>p \<in> set (fst (stream chunks)). \<not> pt_is_final p"
    and times_sorted: "sorted (map pt_end_ms (fst (stream chunks)))"
    and times_bounded: "p \<in> set (fst (stream chunks)) \<Longrightarrow> 0 \<le> pt_end_ms p \<and> pt_end_ms p \<le> pcm_ms chunks"
begin

text \<open>The callers keep the last final item they see.\<close>

lemma finals_of_stream:
  "filter pt_is_final (fst (stream chunks)) =
     (if snd (stream chunks) = None then [last (fst (stream chunks))] else [])"
proof (cases "snd (stream chunks)")
  case None
  note e = ends_final [OF this]
  then have "fst (stream chunks) = butlast (fst (stream chunks)) @ [last (fst (stream chunks))]" by simp
  then have "filter pt_is_final (fst (stream chunks)) =
      filter pt_is_final (butlast (fst (stream chunks))) @ filter pt_is_final [last (fst (stream chunks))]"
    by (metis filter_append)
  then show ?thesis using e None by (simp add: filter_empty_conv)
next
  case (Some e)
  then show ?thesis using error_not_final [OF Some] by (simp add: filter_empty_conv)
qed

lemma final_ms_bounded: "snd (stream chunks) = None \<Longrightarrow> pt_end_ms (last (fst (stream chunks))) \<le> pcm_ms chunks"
  using ends_final [of chunks] times_bounded [of _ chunks] by (metis last_in_set)

end

text \<open>The contract of one run, as a property the loops keep: \<open>lo\<close> and \<open>hi\<close> bound the time stamps.\<close>

definition well_streamed :: "int \<Rightarrow> int \<Rightarrow> partial_transcript gen \<Rightarrow> bool" where
  "well_streamed lo hi g \<longleftrightarrow>
     sorted (lo # map pt_end_ms (fst g)) \<and> (\<forall>p \<in> set (fst g). pt_end_ms p \<le> hi) \<and>
     (case snd g of
        None \<Rightarrow> fst g \<noteq> [] \<and> pt_is_final (last (fst g)) \<and> (\<forall>p \<in> set (butlast (fst g)). \<not> pt_is_final p)
      | Some e \<Rightarrow> \<forall>p \<in> set (fst g). \<not> pt_is_final p)"

lemma well_streamed_yield:
  "\<not> pt_is_final p \<Longrightarrow> lo \<le> pt_end_ms p \<Longrightarrow> pt_end_ms p \<le> hi \<Longrightarrow> well_streamed (pt_end_ms p) hi g \<Longrightarrow>
     well_streamed lo hi (yield p g)"
  by (auto simp: well_streamed_def split: option.splits)

lemma well_streamed_end:
  "pt_is_final p \<Longrightarrow> lo \<le> pt_end_ms p \<Longrightarrow> pt_end_ms p \<le> hi \<Longrightarrow> well_streamed lo hi ([p], None)"
  "well_streamed lo hi ([], Some e)"
  by (simp_all add: well_streamed_def)

lemma asr_backendI:
  assumes "\<And>chunks. well_streamed 0 (pcm_ms chunks) (stream chunks)"
  shows "asr_backend stream"
proof
  fix chunks e p
  note w = assms [of chunks, unfolded well_streamed_def]
  show "snd (stream chunks) = None \<Longrightarrow> fst (stream chunks) \<noteq> [] \<and> pt_is_final (last (fst (stream chunks))) \<and>
      (\<forall>p \<in> set (butlast (fst (stream chunks))). \<not> pt_is_final p)"
    and "snd (stream chunks) = Some e \<Longrightarrow> \<forall>p \<in> set (fst (stream chunks)). \<not> pt_is_final p"
    and "sorted (map pt_end_ms (fst (stream chunks)))"
    and "p \<in> set (fst (stream chunks)) \<Longrightarrow> 0 \<le> pt_end_ms p \<and> pt_end_ms p \<le> pcm_ms chunks"
    using w by auto
qed

section \<open>The recognisers keep the contract\<close>

lemma ms_add: "a div 2 * 1000 div 16000 + b div 2 * 1000 div 16000 \<le> (a + b) div 2 * 1000 div (16000::nat)"
proof -
  have "a div 2 + b div 2 \<le> (a + b) div 2" by presburger
  then have "(a div 2 + b div 2) * 1000 div 16000 \<le> (a + b) div 2 * 1000 div 16000"
    by (intro div_le_mono mult_le_mono1)
  moreover have "a div 2 * 1000 div 16000 + b div 2 * 1000 div 16000 \<le> (a div 2 + b div 2) * 1000 div 16000"
    by (simp add: add_mult_distrib)
  ultimately show ?thesis by linarith
qed

lemma buffered_ms_mono: "buffered_ms a \<le> buffered_ms (a @ b)"
  by (simp add: buffered_ms_def div_le_mono)

lemma stub_loop_streamed:
  "int m \<le> buffered_ms acc \<Longrightarrow>
     well_streamed (int m) (buffered_ms (acc @ concat (map ac_pcm16 chunks))) (stub_asr_loop scripted acc m chunks)"
proof (induction chunks arbitrary: acc m)
  case Nil
  then show ?case by (simp add: well_streamed_end)
next
  case (Cons c chunks)
  let ?m = "m + length (ac_pcm16 c) div 2 * 1000 div 16000"
  have m: "int ?m \<le> buffered_ms (acc @ ac_pcm16 c)"
    using Cons.prems ms_add [of "length acc" "length (ac_pcm16 c)"] by (simp add: buffered_ms_def)
  have "int ?m \<le> buffered_ms (acc @ concat (map ac_pcm16 (c # chunks)))"
    using m buffered_ms_mono [of "acc @ ac_pcm16 c" "concat (map ac_pcm16 chunks)"] by simp
  then show ?case
    using Cons.IH [OF m] by (simp add: Let_def well_streamed_yield)
qed

interpretation stub_asr: asr_backend "stub_asr_stream scripted" for scripted
  by (rule asr_backendI)
    (use stub_loop_streamed [of 0 "[]"] in \<open>simp add: stub_asr_stream_def pcm_ms_def buffered_ms_def\<close>)

lemma paraformer_loop_streamed:
  "ms \<le> buffered_ms acc \<Longrightarrow>
     well_streamed ms (buffered_ms (acc @ concat (map ac_pcm16 chunks)))
       (paraformer_loop decode emit_ms acc ms last_text chunks)"
proof (induction chunks arbitrary: acc ms last_text)
  case Nil
  then show ?case by (cases "acc = []") (auto simp: well_streamed_end split: sum.splits)
next
  case (Cons c chunks)
  let ?acc = "acc @ ac_pcm16 c"
  have le: "ms \<le> buffered_ms ?acc" using Cons.prems buffered_ms_mono [of acc "ac_pcm16 c"] by simp
  have "buffered_ms ?acc \<le> buffered_ms (acc @ concat (map ac_pcm16 (c # chunks)))"
    using buffered_ms_mono [of ?acc "concat (map ac_pcm16 chunks)"] by simp
  then show ?case
    using Cons.IH [OF Cons.prems] Cons.IH [OF le] Cons.IH [of "buffered_ms ?acc" ?acc] le
    by (simp add: Let_def well_streamed_yield well_streamed_end split: sum.splits)
qed

interpretation paraformer_asr: asr_backend "paraformer_stream pf" for pf
  by (rule asr_backendI)
    (use paraformer_loop_streamed [of 0 "[]"] in \<open>simp add: paraformer_stream_def pcm_ms_def buffered_ms_def\<close>)

interpretation local_asr: asr_backend local_asr_stream
  by (rule asr_backendI) (simp add: local_asr_stream_def well_streamed_end)

interpretation cloud_asr: asr_backend "cloud_asr_stream provider" for provider
  by (rule asr_backendI) (simp add: cloud_asr_stream_def well_streamed_end)

section \<open>What a stream transcribes\<close>

lemma decode_even:
  "even (length pcm) \<Longrightarrow> \<exists>t. decode_pcm_buffer pf pcm = Inr t"
  by (auto simp: decode_pcm_buffer_def Let_def)

lemma paraformer_loop_final:
  assumes "\<And>pcm. even (length pcm) \<Longrightarrow> \<exists>t. decode pcm = Inr t"
    and "list_all (\<lambda>c. even (length (ac_pcm16 c))) chunks" and "even (length acc)"
    and "acc @ concat (map ac_pcm16 chunks) \<noteq> []"
  shows "\<exists>ps f. paraformer_loop decode emit_ms acc ms last_text chunks = (ps @ [f], None) \<and>
    decode (acc @ concat (map ac_pcm16 chunks)) = Inr (pt_text f) \<and>
    pt_end_ms f = buffered_ms (acc @ concat (map ac_pcm16 chunks))"
  using assms(2-)
proof (induction chunks arbitrary: acc ms last_text)
  case Nil
  then show ?case using assms(1) [of acc] by auto
next
  case (Cons c chunks)
  let ?acc = "acc @ ac_pcm16 c"
  have even: "even (length ?acc)" using Cons.prems by simp
  show ?case
  proof (cases "ac_pcm16 c = []")
    case True
    then show ?thesis using Cons.IH [of acc ms last_text] Cons.prems by simp
  next
    case False
    obtain t where t: "decode ?acc = Inr t" using assms(1) [OF even] by blast
    have IH: "\<exists>ps f. paraformer_loop decode emit_ms ?acc ms' t' chunks = (ps @ [f], None) \<and>
        decode (?acc @ concat (map ac_pcm16 chunks)) = Inr (pt_text f) \<and>
        pt_end_ms f = buffered_ms (?acc @ concat (map ac_pcm16 chunks))" for ms' t'
      using Cons.IH [of ?acc ms' t'] Cons.prems(1) even False by simp
    show ?thesis
    proof (cases "buffered_ms ?acc - ms < emit_ms")
      case True
      then show ?thesis using IH [of ms last_text] False by (simp add: Let_def)
    next
      case emit: False
      obtain ps f where "paraformer_loop decode emit_ms ?acc (buffered_ms ?acc) t chunks = (ps @ [f], None)"
        "decode (?acc @ concat (map ac_pcm16 chunks)) = Inr (pt_text f)"
        "pt_end_ms f = buffered_ms (?acc @ concat (map ac_pcm16 chunks))"
        using IH [of "buffered_ms ?acc" t] by blast
      then show ?thesis using emit False t
        by (intro exI [of _ "\<lparr>pt_text = t, pt_is_final = False, pt_start_ms = 0,
              pt_end_ms = buffered_ms ?acc\<rparr> # ps"] exI [of _ f]) (simp add: Let_def yield_def)
    qed
  qed
qed

section \<open>Properties\<close>

text \<open>
  The recogniser reads its frame buffer within bounds: for a buffer of at least one window of
  frames of 80 values, row \<open>t\<close> of the strided view is exactly the concatenation of the seven
  frames from frame \<open>6 t\<close> on, every row is 560 values long, and the last one ends inside the
  buffer.
\<close>

theorem stacked_rows_in_bounds:
  assumes "LFR_WINDOW \<le> length feats" and "list_all (\<lambda>f. length f = FBANK_NUM_BINS) feats"
  shows "stacked_rows feats =
      map (\<lambda>t. concat (take LFR_WINDOW (drop (LFR_SHIFT * t) feats)))
        [0..<(length feats - LFR_WINDOW) div LFR_SHIFT + 1] \<and>
    list_all (\<lambda>row. length row = STACKED_DIM) (stacked_rows feats) \<and>
    (length (stacked_rows feats) - 1) * (LFR_SHIFT * FBANK_NUM_BINS) + STACKED_DIM \<le> length (concat feats)"
proof -
  let ?n = "(length feats - LFR_WINDOW) div LFR_SHIFT + 1"
  note dims = LFR_WINDOW_def LFR_SHIFT_def FBANK_NUM_BINS_def STACKED_DIM_def
  have rows: "stacked_rows feats = map (\<lambda>t. concat (take LFR_WINDOW (drop (LFR_SHIFT * t) feats))) [0..<?n]"
  proof -
    have "take STACKED_DIM (drop (t * (LFR_SHIFT * FBANK_NUM_BINS)) (concat feats)) =
        concat (take LFR_WINDOW (drop (LFR_SHIFT * t) feats))" for t
      using concat_window [OF assms(2), of LFR_WINDOW "LFR_SHIFT * t"] by (simp add: STACKED_DIM_def mult_ac)
    then show ?thesis by (simp only: stacked_rows_def Let_def)
  qed
  have last: "6 * (?n - 1) + 7 \<le> length feats" using assms(1) by (simp add: dims)
  have "length (concat (take LFR_WINDOW (drop (LFR_SHIFT * t) feats))) = STACKED_DIM" if "t < ?n" for t
  proof -
    have "6 * t + 7 \<le> length feats" using that last by linarith
    then have "length (take LFR_WINDOW (drop (LFR_SHIFT * t) feats)) = 7" by (simp add: dims)
    moreover have "list_all (\<lambda>f. length f = FBANK_NUM_BINS) (take LFR_WINDOW (drop (LFR_SHIFT * t) feats))"
      using assms(2) by (auto simp: list_all_iff dest!: in_set_takeD in_set_dropD)
    ultimately show ?thesis by (simp add: length_concat_frames dims)
  qed
  then have "list_all (\<lambda>row. length row = STACKED_DIM) (stacked_rows feats)"
    by (simp add: rows list_all_iff)
  moreover have "(length (stacked_rows feats) - 1) * (LFR_SHIFT * FBANK_NUM_BINS) + STACKED_DIM \<le> length (concat feats)"
    using last length_concat_frames [OF assms(2)] by (simp add: rows dims)
  ultimately show ?thesis using rows by blast
qed

theorem stacked_rows_in_bounds_witness:
  "length (stacked_rows (replicate 13 (replicate 80 (0::nat)))) = 2 \<and>
   list_all (\<lambda>row. length row = STACKED_DIM) (stacked_rows (replicate 13 (replicate 80 (0::nat))))"
proof -
  define feats where "feats = replicate 13 (replicate 80 (0::nat))"
  have n: "length feats = 13" by (simp add: feats_def)
  have "LFR_WINDOW \<le> length feats" and "list_all (\<lambda>f. length f = FBANK_NUM_BINS) feats"
    by (simp_all add: LFR_WINDOW_def FBANK_NUM_BINS_def list_all_iff feats_def)
  note rows = stacked_rows_in_bounds [OF this]
  then have "length (stacked_rows feats) = length [0..<(length feats - LFR_WINDOW) div LFR_SHIFT + 1]"
    by (metis length_map)
  then have "length (stacked_rows feats) = 2" by (simp add: n LFR_WINDOW_def LFR_SHIFT_def)
  then show ?thesis using rows unfolding feats_def [symmetric] by blast
qed


definition silent_paraformer :: "nat paraformer" where
  "silent_paraformer =
     \<lparr>pf_partial_emit_ms = 800, pf_tokens = [], pf_neg_mean = [], pf_inv_std = [], pf_fbank = (\<lambda>_. []),
      pf_add = (+), pf_mul = (*), pf_logits = (\<lambda>_. [])\<rparr>"


end
