(* ===== verification/Settings.thy ===== *)
theory Settings
  imports Orchestrator Asr
begin

text \<open>
  Configuration: \<open>api/deps.py\<close> and \<open>runtime.py\<close>. The process environment is a dictionary, every
  factory a function of it. Whether the artefacts of a model are in place is what the model's
  constructor says, an argument of the factory; \<open>Boot\<close> adds the constructors and the caches. Shown
  here: limits are positive whenever a setting is accepted, and which environments may fall back
  to a stub.
\<close>

type_synonym environ = "(pystr, pystr) dict"

text \<open>
  \<open>str.lower\<close>, as far as a comparison with lower-case ASCII can see it: the Kelvin sign is the only
  other character whose lower case is an ASCII letter.
\<close>

definition lower :: "pystr \<Rightarrow> pystr" where
  "lower s = map (\<lambda>c. if 65 \<le> c \<and> c \<le> 90 then c + 32 else if c = 8490 then 107 else c) s"

definition env_get :: "environ \<Rightarrow> string \<Rightarrow> string \<Rightarrow> pystr" where
  "env_get env var dflt = (case dget env (u var) of None \<Rightarrow> u dflt | Some v \<Rightarrow> v)"

section \<open>Limits\<close>

definition DEFAULT_MAX_AUDIO_BYTES :: int where "DEFAULT_MAX_AUDIO_BYTES = 8 * 1024 * 1024"

text \<open>\<open>int(raw)\<close> with the error message of the setting.\<close>

definition int_setting :: "pystr \<Rightarrow> string \<Rightarrow> int result" where
  "int_setting raw message =
     (case parse_int is_space raw of
        Inl e \<Rightarrow> Inl (if is_value_error e then ValueError message else e)
      | Inr v \<Rightarrow> Inr v)"

definition get_max_audio_bytes :: "environ \<Rightarrow> int result" where
  "get_max_audio_bytes env =
     (case dget env (u ''SANDROID_MAX_AUDIO_BYTES'') of
        None \<Rightarrow> Inr DEFAULT_MAX_AUDIO_BYTES
      | Some raw \<Rightarrow>
          bindE (int_setting raw ''SANDROID_MAX_AUDIO_BYTES must be an integer'') (\<lambda>v.
            if v \<le> 0 then Inl (ValueError ''SANDROID_MAX_AUDIO_BYTES must be positive'') else Inr v))"

definition intra_op_threads :: "environ \<Rightarrow> int result" where
  "intra_op_threads env =
     (case dget env (u ''SANDROID_ONNX_INTRA_OP_THREADS'') of
        None \<Rightarrow> Inr 2
      | Some raw \<Rightarrow>
          bindE (int_setting raw ''SANDROID_ONNX_INTRA_OP_THREADS must be a positive integer'') (\<lambda>v.
            if v < 1 then Inl (ValueError ''SANDROID_ONNX_INTRA_OP_THREADS must be >= 1'') else Inr v))"

definition setdefault :: "pystr \<Rightarrow> 'v \<Rightarrow> (pystr, 'v) dict \<Rightarrow> (pystr, 'v) dict" where
  "setdefault k v d = (if k \<in> set (dkeys d) then d else dput k v d)"

definition apply_process_thread_caps :: "environ \<Rightarrow> environ" where
  "apply_process_thread_caps env =
     (case intra_op_threads env of
        Inl e \<Rightarrow> env
      | Inr threads \<Rightarrow>
          setdefault (u ''MKL_NUM_THREADS'') (int_str threads)
            (setdefault (u ''OMP_NUM_THREADS'') (int_str threads) env))"

section \<open>Backends\<close>

definition is_production :: "environ \<Rightarrow> bool" where
  "is_production env \<longleftrightarrow> lower (env_get env ''SANDROID_ENV'' ''dev'') = u ''production''"

text \<open>
  The shape the three model factories share: the stub by name, an unknown name is an error, and
  the model otherwise; when its artefacts are missing (the error class \<open>missing\<close> recognises) the
  stub stands in, except in production.
\<close>

definition select_backend ::
  "environ \<Rightarrow> string \<Rightarrow> string \<Rightarrow> string \<Rightarrow> (exn \<Rightarrow> bool) \<Rightarrow> 'b result \<Rightarrow> 'b \<Rightarrow> 'b result" where
  "select_backend env var model_name stub_name missing model stub =
     (let backend = lower (env_get env var model_name)
      in if backend = u stub_name then Inr stub
         else if backend \<noteq> u model_name then Inl (ValueError ''unknown backend'')
         else (case model of
                 Inr b \<Rightarrow> Inr b
               | Inl e \<Rightarrow> if missing e \<and> \<not> is_production env then Inr stub else Inl e))"

definition get_matcher :: "environ \<Rightarrow> (exn \<Rightarrow> bool) \<Rightarrow> matcher result \<Rightarrow> matcher result" where
  "get_matcher env missing embedder =
     select_backend env ''SANDROID_NLU_BACKEND'' ''embedder'' ''stub'' missing embedder (stub_score 2)"

definition get_asr :: "environ \<Rightarrow> (exn \<Rightarrow> bool) \<Rightarrow> asr_stream result \<Rightarrow> asr_stream result" where
  "get_asr env missing paraformer_asr =
     select_backend env ''SANDROID_ASR_BACKEND'' ''paraformer'' ''stub'' missing paraformer_asr
       (stub_asr_stream None)"

type_synonym vad_backend = "bytes list \<Rightarrow> segment_result list result"

definition get_vad :: "environ \<Rightarrow> (exn \<Rightarrow> bool) \<Rightarrow> vad_backend result \<Rightarrow> vad_backend result" where
  "get_vad env missing silero_vad =
     select_backend env ''SANDROID_VAD_BACKEND'' ''silero'' ''mock'' missing silero_vad mock_stream_segments"

definition get_slu :: "environ \<Rightarrow> slu_backend result" where
  "get_slu env =
     (if lower (env_get env ''SANDROID_SLU_BACKEND'' ''stub'') = u ''stub'' then Inr stub_slu
      else Inl (ValueError ''unknown SLU backend''))"

definition get_orchestrator :: "scene_registry \<Rightarrow> matcher \<Rightarrow> orchestrator" where
  "get_orchestrator registry m = Orchestrator_init registry m None None"

definition require_api_key :: "environ \<Rightarrow> pystr option \<Rightarrow> unit result" where
  "require_api_key env x_api_key =
     (let expected = env_get env ''SANDROID_API_KEY'' ''dev-insecure-change-me''
      in if x_api_key = None \<or> x_api_key \<noteq> Some expected
         then Inl (OtherError ''HTTP 401: missing or invalid X-API-Key'') else Inr ())"

section \<open>Accepted settings\<close>

lemma max_audio_bytes_pos: "get_max_audio_bytes env = Inr n \<Longrightarrow> 0 < n"
  by (auto simp: get_max_audio_bytes_def DEFAULT_MAX_AUDIO_BYTES_def result_simps split: option.splits if_splits)

lemma intra_op_threads_pos: "intra_op_threads env = Inr n \<Longrightarrow> 1 \<le> n"
  by (auto simp: intra_op_threads_def result_simps split: option.splits if_splits)

lemma setdefault_keeps: "dget d k = Some x \<Longrightarrow> dget (setdefault k' v d) k = Some x"
  by (auto simp: setdefault_def dict_simps dest: dget_Some_key)

lemma thread_caps_respect_operator:
  "dget env v = Some x \<Longrightarrow> dget (apply_process_thread_caps env) v = Some x"
  by (simp add: apply_process_thread_caps_def setdefault_keeps split: sum.splits)

lemma select_backend_production:
  assumes "is_production env" and "select_backend env var model_name stub_name missing model stub = Inr b"
  shows "lower (env_get env var model_name) = u stub_name \<and> b = stub \<or> model = Inr b"
  using assms by (auto simp: select_backend_def Let_def split: if_splits sum.splits)

text \<open>
  A production deployment never downgrades silently: with the environment set to production
  each of the three model factories returns its stub only when the stub is asked for by name,
  and otherwise exactly the model or the model's own error.
\<close>

theorem production_never_downgrades:
  assumes "is_production env"
  shows "(\<forall>m. get_matcher env missing embedder = Inr m \<longrightarrow>
       embedder = Inr m \<or> lower (env_get env ''SANDROID_NLU_BACKEND'' ''embedder'') = u ''stub'') \<and>
    (\<forall>a. get_asr env missing paraformer_asr = Inr a \<longrightarrow>
       paraformer_asr = Inr a \<or> lower (env_get env ''SANDROID_ASR_BACKEND'' ''paraformer'') = u ''stub'') \<and>
    (\<forall>v. get_vad env missing silero_vad = Inr v \<longrightarrow>
       silero_vad = Inr v \<or> lower (env_get env ''SANDROID_VAD_BACKEND'' ''silero'') = u ''mock'')"
  unfolding get_matcher_def get_asr_def get_vad_def
  by (intro conjI allI impI) (auto dest: select_backend_production [OF assms])

theorem production_never_downgrades_witness:
  "get_asr [(u ''SANDROID_ENV'', u ''Production'')] (\<lambda>_. True) (Inl FileNotFoundError) = Inl FileNotFoundError"
proof -
  let ?env = "[(u ''SANDROID_ENV'', u ''Production'')]"
  have "is_production ?env" by (simp add: is_production_def env_get_def lower_def)
  from production_never_downgrades [OF this, of "\<lambda>_. True" "Inl FileNotFoundError" "Inl FileNotFoundError" "Inl FileNotFoundError"]
  have "\<not> (\<exists>a. get_asr ?env (\<lambda>_. True) (Inl FileNotFoundError) = Inr a)"
    by (auto simp: env_get_def lower_def)
  moreover have "get_asr ?env (\<lambda>_. True) (Inl FileNotFoundError) = Inl FileNotFoundError \<or>
      (\<exists>a. get_asr ?env (\<lambda>_. True) (Inl FileNotFoundError) = Inr a)"
    by (simp add: get_asr_def select_backend_def env_get_def lower_def)
  ultimately show ?thesis by blast
qed

end
