(* ===== verification/Bridge_Server.thy ===== *)
theory Bridge_Server
  imports Bridge_Codec Settings
begin

text \<open>
  The connection handler of the UniMRCP bridge, \<open>BridgeServer\<close> of \<open>adapters/mrcp/bridge.py\<close>. Each
  connection is one channel with its own state; the recogniser runs as a task that takes the
  audio off a queue, and the intent is found by the orchestrator. The queue is modelled by its
  history. Shown here: the invariant of a channel, the discipline of the frames sent, and a
  turn from START to the RESULT document.
\<close>

section \<open>Channels\<close>

text \<open>What has happened to the audio queue: a task starts to take from it, an item, or the end.\<close>

datatype queue_event = TaskStarted | Item bytes | EndOfAudio

record channel =
  ch_channel_id :: pystr
  ch_session_id :: pystr
  ch_sample_rate :: int
  ch_codec :: pystr
  ch_started :: bool
  ch_eos_seen :: bool
  ch_audio_queue :: "queue_event list"
  ch_audio_accum :: bytes
  ch_audio_overflow :: bool
  ch_max_audio_bytes :: int
  ch_asr_task :: bool

definition new_channel :: channel where
  "new_channel =
     \<lparr>ch_channel_id = [], ch_session_id = [], ch_sample_rate = 16000, ch_codec = u ''LPCM'',
      ch_started = False, ch_eos_seen = False, ch_audio_queue = [], ch_audio_accum = [],
      ch_audio_overflow = False, ch_max_audio_bytes = 0, ch_asr_task = False\<rparr>"

text \<open>
  The server and its surroundings: what the recogniser's factory returns or raises; whether the
  recogniser answers a given input within the
  ten seconds it has; which items the newest task gets when a second START has put several tasks
  on one queue (\<open>None\<close> when it never sees the end); the orchestrator, if one could be built, and
  the scene; the audio limit; the recursion limit; and Python's \<open>str\<close> of an exception and of a
  dictionary.
\<close>

record bridge =
  br_asr :: "asr_stream result"
  br_in_time :: "audio_chunk list \<Rightarrow> bool"
  br_sched :: "queue_event list \<Rightarrow> bytes list option"
  br_orchestrator :: "orchestrator option"
  br_default_scene :: "pystr option"
  br_max_audio_bytes :: "int result"
  br_frames :: nat
  br_str_exn :: "exn \<Rightarrow> pystr"
  br_str_dict :: "pyval \<Rightarrow> pystr"

text \<open>\<open>_resolve_max_audio_bytes\<close>: \<open>None\<close> when \<open>api.deps\<close> cannot be imported.\<close>

definition resolve_max_audio_bytes :: "environ option \<Rightarrow> int result" where
  "resolve_max_audio_bytes env =
     (case env of None \<Rightarrow> Inr (8 * 1024 * 1024) | Some e \<Rightarrow> get_max_audio_bytes e)"

text \<open>
  \<open>_default_orchestrator_factory\<close>: the registry and the matcher as their factories return them;
  any error leaves the bridge without intents.
\<close>

definition default_orchestrator_factory ::
  "(scene_registry result \<times> matcher result) option \<Rightarrow> orchestrator option" where
  "default_orchestrator_factory deps =
     (case deps of
        Some (Inr registry, Inr m) \<Rightarrow> Some (Orchestrator_init registry m None None)
      | _ \<Rightarrow> None)"

definition default_asr_factory :: "asr_stream result option \<Rightarrow> asr_stream result" where
  "default_asr_factory deps = (case deps of None \<Rightarrow> Inr (stub_asr_stream None) | Some asr \<Rightarrow> asr)"

section \<open>The recogniser task\<close>

fun items_until_end :: "queue_event list \<Rightarrow> bytes list option" where
  "items_until_end [] = None"
| "items_until_end (EndOfAudio # q) = Some []"
| "items_until_end (Item b # q) = map_option ((#) b) (items_until_end q)"
| "items_until_end (TaskStarted # q) = items_until_end q"

definition task_items :: "bridge \<Rightarrow> queue_event list \<Rightarrow> bytes list option" where
  "task_items br q =
     (case q of
        TaskStarted # rest \<Rightarrow>
          if TaskStarted \<in> set rest then br_sched br q else items_until_end rest
      | _ \<Rightarrow> br_sched br q)"

definition task_chunks :: "bytes list \<Rightarrow> audio_chunk list" where
  "task_chunks items = map (\<lambda>(seq, b). \<lparr>ac_pcm16 = b, ac_sequence = seq\<rparr>) (enumerate 0 items)"

text \<open>\<open>_run_asr\<close> and the wait for it: the last final text, the recogniser's error, or a timeout.\<close>

definition await_asr :: "bridge \<Rightarrow> queue_event list \<Rightarrow> pystr result" where
  "await_asr br q =
     bindE (br_asr br) (\<lambda>asr.
       case task_items br q of
         None \<Rightarrow> Inl (OtherError ''TimeoutError'')
       | Some items \<Rightarrow>
           if \<not> br_in_time br (task_chunks items) then Inl (OtherError ''TimeoutError'')
           else (case asr (task_chunks items) of
                   (partials, Some e) \<Rightarrow> Inl e
                 | (partials, None) \<Rightarrow>
                     (case rev (filter pt_is_final partials) of
                        [] \<Rightarrow> Inr []
                      | final # _ \<Rightarrow> Inr (pt_text final))))"

section \<open>Frames in\<close>

datatype verdict = Continue | Close | Fail exn

text \<open>\<open>_send_error\<close>, followed by the handler's \<open>return False\<close>.\<close>

definition send_error :: "pystr \<Rightarrow> pystr \<Rightarrow> bytes list \<times> verdict" where
  "send_error code message =
     (case bindE (cbor_encode_map [(u ''code'', PStr code), (u ''message'', PStr message)])
             (encode_frame FRAME_ERROR) of
        Inl e \<Rightarrow> ([], Fail e)
      | Inr f \<Rightarrow> ([f], Close))"

definition py_str :: "bridge \<Rightarrow> pyval \<Rightarrow> pystr" where
  "py_str br v =
     (case v of PStr s \<Rightarrow> s | PInt i \<Rightarrow> int_str i | _ \<Rightarrow> br_str_dict br v)"

definition meta_get :: "(pyval, pyval) dict \<Rightarrow> string \<Rightarrow> pyval \<Rightarrow> pyval" where
  "meta_get d key dflt = (case dget d (PStr (u key)) of None \<Rightarrow> dflt | Some v \<Rightarrow> v)"

fun is_cbor_error :: "exn \<Rightarrow> bool" where
  "is_cbor_error (CBORError _) = True"
| "is_cbor_error _ = False"

definition handle_start :: "bridge \<Rightarrow> bytes \<Rightarrow> channel \<Rightarrow> channel \<times> bytes list \<times> verdict" where
  "handle_start br payload ch =
     (case cbor_decode (br_frames br) payload of
        Inl e \<Rightarrow> if is_cbor_error e then (ch, send_error (u ''BAD_START'') (br_str_exn br e)) else (ch, [], Fail e)
      | Inr (PDict meta, _) \<Rightarrow>
          (let ch = ch\<lparr>ch_channel_id := py_str br (meta_get meta ''channel_id'' (PStr [])),
                       ch_session_id := py_str br (meta_get meta ''session_id'' (PStr [])),
                       ch_sample_rate := (case meta_get meta ''sample_rate'' (PInt 16000) of PInt i \<Rightarrow> i | _ \<Rightarrow> 16000),
                       ch_codec := py_str br (meta_get meta ''codec'' (PStr (u ''LPCM''))),
                       ch_started := True\<rparr>
           in case br_max_audio_bytes br of
                Inl e \<Rightarrow> (ch, [], Fail e)
              | Inr n \<Rightarrow>
                  (ch\<lparr>ch_max_audio_bytes := n, ch_asr_task := True,
                      ch_audio_queue := ch_audio_queue ch @ [TaskStarted]\<rparr>, [], Continue))
      | Inr (_, _) \<Rightarrow> (ch, send_error (u ''BAD_START'') (u ''not a map'')))"

definition handle_audio :: "bytes \<Rightarrow> channel \<Rightarrow> channel \<times> bytes list \<times> verdict" where
  "handle_audio payload ch =
     (if \<not> ch_started ch then (ch, send_error (u ''UNEXPECTED_FRAME'') (u ''AUDIO before START''))
      else
        (let ch = (if ch_audio_overflow ch then ch
                   else if ch_max_audio_bytes ch < int (length (ch_audio_accum ch) + length payload)
                   then ch\<lparr>ch_audio_overflow := True, ch_audio_accum := []\<rparr>
                   else ch\<lparr>ch_audio_accum := ch_audio_accum ch @ payload\<rparr>)
         in (ch\<lparr>ch_audio_queue := ch_audio_queue ch @ [Item payload]\<rparr>, [], Continue)))"

text \<open>The default confidence \<open>0.9\<close> is the double nearest to it.\<close>

definition PLACEHOLDER_CONFIDENCE :: pyfloat where "PLACEHOLDER_CONFIDENCE = fl (9 / 10)"

definition match_intent ::
  "bridge \<Rightarrow> pystr \<Rightarrow> pystr \<Rightarrow> channel \<Rightarrow> session_store \<Rightarrow> (pystr \<times> pyfloat) \<times> session_store" where
  "match_intent br uuid transcript ch st =
     (case (br_orchestrator br, br_default_scene br) of
        (Some orch, Some scene) \<Rightarrow>
          (case RecognitionRequest (Some scene) None transcript
                  (if ch_audio_overflow ch then None else Some (ch_audio_accum ch))
                  (if ch_session_id ch = [] then None else Some (ch_session_id ch)) 5 of
             Inl e \<Rightarrow> ((PLACEHOLDER_INTENT, PLACEHOLDER_CONFIDENCE), st)
           | Inr req \<Rightarrow>
               (case recognize (br_frames br) orch uuid req st of
                  (Inl e, st) \<Rightarrow> ((PLACEHOLDER_INTENT, PLACEHOLDER_CONFIDENCE), st)
                | (Inr resp, st) \<Rightarrow>
                    (case rs_top resp of
                       None \<Rightarrow> ((PLACEHOLDER_INTENT, PLACEHOLDER_CONFIDENCE), st)
                     | Some hit \<Rightarrow> ((top_intent_id hit, top_confidence hit), st))))
      | _ \<Rightarrow> ((PLACEHOLDER_INTENT, PLACEHOLDER_CONFIDENCE), st))"

definition handle_eos ::
  "bridge \<Rightarrow> pystr \<Rightarrow> channel \<Rightarrow> session_store \<Rightarrow> channel \<times> session_store \<times> bytes list \<times> verdict" where
  "handle_eos br uuid ch st =
     (if \<not> ch_started ch \<or> ch_eos_seen ch
      then (ch, st, send_error (u ''UNEXPECTED_FRAME'') (u ''bad EOS''))
      else
        (let ch = ch\<lparr>ch_eos_seen := True, ch_audio_queue := ch_audio_queue ch @ [EndOfAudio]\<rparr>
         in if \<not> ch_asr_task ch then (ch, st, send_error (u ''INTERNAL'') (u ''no asr task''))
            else (case await_asr br (ch_audio_queue ch) of
                    Inl e \<Rightarrow>
                      (ch, st, send_error (u ''ASR_FAILED'')
                         (if e = OtherError ''TimeoutError'' then u ''asr timeout'' else br_str_exn br e))
                  | Inr transcript \<Rightarrow>
                      (case match_intent br uuid transcript ch st of
                         ((iid, conf), st) \<Rightarrow>
                           (case bindE (render_nlsml transcript conf iid) (encode_frame FRAME_RESULT) of
                              Inl e \<Rightarrow> (ch, st, [], Fail e)
                            | Inr f \<Rightarrow> (ch, st, [f], Continue))))))"

definition dispatch ::
  "bridge \<Rightarrow> pystr \<Rightarrow> nat \<Rightarrow> bytes \<Rightarrow> channel \<Rightarrow> session_store \<Rightarrow>
     channel \<times> session_store \<times> bytes list \<times> verdict" where
  "dispatch br uuid ftype payload ch st =
     (if ftype = FRAME_START then (case handle_start br payload ch of (ch, r) \<Rightarrow> (ch, st, r))
      else if ftype = FRAME_AUDIO then (case handle_audio payload ch of (ch, r) \<Rightarrow> (ch, st, r))
      else if ftype = FRAME_EOS then handle_eos br uuid ch st
      else if ftype = FRAME_STOP then (ch, st, [], Close)
      else (ch, st, [], Continue))"

section \<open>The connection\<close>

lemma read_frame_shorter:
  assumes "read_frame r = Some (Inr (x, r'))"
  shows "length (rd_pending r') < length (rd_pending r)"
  using assms
  by (auto simp: read_frame_def bindR_def Let_def dest!: readexactly_shorter
      split: option.splits sum.splits prod.splits if_splits)

function bridge_run ::
  "bridge \<Rightarrow> pystr \<Rightarrow> channel \<Rightarrow> session_store \<Rightarrow> tcp_reader \<Rightarrow> session_store \<times> bytes list \<times> conn_end" where
  "bridge_run br uuid ch st r =
     (case read_frame r of
        None \<Rightarrow> (st, [], Waiting)
      | Some (Inl e) \<Rightarrow> (st, [], if e = IncompleteReadError then Closed else Raised e)
      | Some (Inr ((ftype, payload), r')) \<Rightarrow>
          (case dispatch br uuid ftype payload ch st of
             (ch', st', out, Continue) \<Rightarrow>
               (case bridge_run br uuid ch' st' r' of (st'', out', ending) \<Rightarrow> (st'', out @ out', ending))
           | (_, st', out, Close) \<Rightarrow> (st', out, Closed)
           | (_, st', out, Fail e) \<Rightarrow> (st', out, Raised e)))"
  by pat_completeness auto
termination
  by (relation "measure (\<lambda>(_, _, _, _, r). length (rd_pending r))") (auto dest: read_frame_shorter)

declare bridge_run.simps [simp del]

definition bridge_handle :: "bridge \<Rightarrow> pystr \<Rightarrow> session_store \<Rightarrow> tcp_reader \<Rightarrow> session_store \<times> bytes list \<times> conn_end" where
  "bridge_handle br uuid st r = bridge_run br uuid new_channel st r"

section \<open>The invariant of a channel\<close>

fun queue_items :: "queue_event list \<Rightarrow> bytes list" where
  "queue_items [] = []"
| "queue_items (Item b # q) = b # queue_items q"
| "queue_items (_ # q) = queue_items q"

lemma queue_items_append [simp]: "queue_items (p @ q) = queue_items p @ queue_items q"
  by (induction p rule: queue_items.induct) auto

text \<open>The channels a connection can be in between two frames.\<close>

inductive bridge_reach :: "bridge \<Rightarrow> channel \<Rightarrow> bool" for br where
  opened: "bridge_reach br new_channel"
| frame: "bridge_reach br ch \<Longrightarrow> dispatch br uuid ftype payload ch st = (ch', st', out, Continue) \<Longrightarrow>
    bridge_reach br ch'"

text \<open>
  Until it overflows, the audio kept for the end-to-end recogniser is exactly the audio given to
  the speech recogniser, and it never exceeds the limit; after an overflow nothing is kept. A
  started channel has a recogniser task, and the end of audio is on the queue at most once.
\<close>

definition channel_inv :: "bridge \<Rightarrow> channel \<Rightarrow> bool" where
  "channel_inv br ch \<longleftrightarrow>
     (ch_audio_overflow ch \<and> ch_audio_accum ch = [] \<or>
      \<not> ch_audio_overflow ch \<and> ch_audio_accum ch = concat (queue_items (ch_audio_queue ch)) \<and>
        int (length (ch_audio_accum ch)) \<le> max 0 (ch_max_audio_bytes ch)) \<and>
     (if ch_started ch
      then ch_asr_task ch \<and> ch_audio_queue ch \<noteq> [] \<and> hd (ch_audio_queue ch) = TaskStarted \<and>
           br_max_audio_bytes br = Inr (ch_max_audio_bytes ch)
      else ch_audio_queue ch = [] \<and> \<not> ch_eos_seen ch \<and> \<not> ch_audio_overflow ch) \<and>
     count_list (ch_audio_queue ch) EndOfAudio = (if ch_eos_seen ch then 1 else 0)"

lemma send_error_cases:
  "send_error c m = (out, v) \<Longrightarrow> (\<exists>e. out = [] \<and> v = Fail e) \<or> (\<exists>p f. out = [f] \<and> encode_frame FRAME_ERROR p = Inr f \<and> v = Close)"
  by (auto simp: send_error_def result_simps split: sum.splits)

lemma send_error_stops [simp]: "snd (send_error c m) \<noteq> Continue" "send_error c m \<noteq> (out, Continue)"
  using send_error_cases [of c m] by (metis prod.collapse verdict.distinct(1,3))+

lemma handle_start_Continue:
  assumes "handle_start br payload ch = (ch', out, Continue)"
  shows "out = []" and "\<exists>n. br_max_audio_bytes br = Inr n \<and> ch_max_audio_bytes ch' = n"
    and "ch_started ch'" and "ch_asr_task ch'" and "ch_audio_queue ch' = ch_audio_queue ch @ [TaskStarted]"
    and "ch_audio_accum ch' = ch_audio_accum ch" and "ch_audio_overflow ch' = ch_audio_overflow ch"
    and "ch_eos_seen ch' = ch_eos_seen ch"
  using assms by (auto simp: handle_start_def Let_def split: sum.splits pyval.splits if_splits prod.splits)

lemma handle_eos_Continue:
  assumes "handle_eos br uuid ch st = (ch', st', out, Continue)"
  shows "ch_started ch" and "\<not> ch_eos_seen ch"
    and "ch' = ch\<lparr>ch_eos_seen := True, ch_audio_queue := ch_audio_queue ch @ [EndOfAudio]\<rparr>"
    and "\<exists>nlsml f. out = [f] \<and> encode_frame FRAME_RESULT nlsml = Inr f"
  using assms
  by (auto simp: handle_eos_def Let_def result_simps split: sum.splits if_splits prod.splits)

lemma dispatch_inv:
  assumes "channel_inv br ch" and "dispatch br uuid ftype payload ch st = (ch', st', out, Continue)"
  shows "channel_inv br ch'"
proof -
  consider (start) "handle_start br payload ch = (ch', out, Continue)"
    | (audio) "handle_audio payload ch = (ch', out, Continue)"
    | (eos) "handle_eos br uuid ch st = (ch', st', out, Continue)"
    | (same) "ch' = ch"
    using assms(2) by (auto simp: dispatch_def split: if_splits prod.splits)
  then show ?thesis
  proof cases
    case start
    note s = handle_start_Continue [OF start]
    show ?thesis
    proof (cases "ch_started ch")
      case True
      then show ?thesis using assms(1) s by (auto simp: channel_inv_def)
    next
      case False
      then show ?thesis using assms(1) s by (auto simp: channel_inv_def)
    qed
  next
    case audio
    then show ?thesis using assms(1)
      by (auto simp: channel_inv_def handle_audio_def Let_def split: if_splits)
  next
    case eos
    note s = handle_eos_Continue [OF eos]
    then show ?thesis using assms(1) by (auto simp: channel_inv_def)
  qed (use assms(1) in simp)
qed

lemma new_channel_inv: "channel_inv br new_channel"
  by (simp add: channel_inv_def new_channel_def)

lemma reach_inv: "bridge_reach br ch \<Longrightarrow> channel_inv br ch"
  by (induction rule: bridge_reach.induct) (auto intro: new_channel_inv dispatch_inv)

section \<open>The frames sent\<close>

lemma dispatch_out:
  assumes "dispatch br uuid ftype payload ch st = (ch', st', out, v)"
  shows "case v of
      Continue \<Rightarrow> out = [] \<and> (ch_eos_seen ch \<longrightarrow> ch_eos_seen ch') \<or>
        (\<exists>nlsml f. out = [f] \<and> encode_frame FRAME_RESULT nlsml = Inr f \<and> \<not> ch_eos_seen ch \<and> ch_eos_seen ch')
    | Close \<Rightarrow> out = [] \<or> (\<exists>p f. out = [f] \<and> encode_frame FRAME_ERROR p = Inr f)
    | Fail e \<Rightarrow> out = []"
proof (cases v)
  case Continue
  consider (start) "handle_start br payload ch = (ch', out, Continue)"
    | (audio) "handle_audio payload ch = (ch', out, Continue)"
    | (eos) "handle_eos br uuid ch st = (ch', st', out, Continue)"
    | (same) "ch' = ch \<and> out = []"
    using assms Continue by (auto simp: dispatch_def split: if_splits prod.splits)
  then show ?thesis
  proof cases
    case start
    then show ?thesis using handle_start_Continue(1,8) [OF start] Continue by simp
  next
    case audio
    then show ?thesis using Continue by (auto simp: handle_audio_def Let_def split: if_splits)
  next
    case eos
    then show ?thesis using handle_eos_Continue [OF eos] Continue by auto
  qed (use Continue in simp)
next
  case Close
  then show ?thesis using assms
    by (auto simp: dispatch_def handle_start_def handle_audio_def handle_eos_def Let_def
        split: if_splits prod.splits sum.splits pyval.splits dest!: send_error_cases)
next
  case (Fail e)
  then show ?thesis using assms
    by (auto simp: dispatch_def handle_start_def handle_audio_def handle_eos_def Let_def
        split: if_splits prod.splits sum.splits pyval.splits dest!: send_error_cases)
qed

definition result_frame :: "bytes \<Rightarrow> bool" where
  "result_frame f \<longleftrightarrow> (\<exists>nlsml. encode_frame FRAME_RESULT nlsml = Inr f)"

definition error_frame :: "bytes \<Rightarrow> bool" where
  "error_frame f \<longleftrightarrow> (\<exists>p. encode_frame FRAME_ERROR p = Inr f)"

lemma run_discipline:
  "\<exists>st' results errors ending. bridge_run br uuid ch st r = (st', results @ errors, ending) \<and>
     list_all result_frame results \<and> length results \<le> (if ch_eos_seen ch then 0 else 1) \<and>
     list_all error_frame errors \<and> length errors \<le> 1 \<and> (errors = [] \<or> ending = Closed)"
proof (induction br uuid ch st r rule: bridge_run.induct)
  case (1 br uuid ch st r)
  show ?case
  proof (cases "\<exists>t p r'. read_frame r = Some (Inr ((t, p), r'))")
    case False
    then show ?thesis
      by (subst bridge_run.simps) (auto split: option.splits sum.splits)
  next
    case True
    then obtain t p r' where rd: "read_frame r = Some (Inr ((t, p), r'))" by blast
    obtain ch' st' out v where d: "dispatch br uuid t p ch st = (ch', st', out, v)" by (metis prod_cases4)
    note step = dispatch_out [OF d]
    show ?thesis
    proof (cases v)
      case Continue
      then obtain st'' results errors ending where IH: "bridge_run br uuid ch' st' r' = (st'', results @ errors, ending)"
        "list_all result_frame results" "length results \<le> (if ch_eos_seen ch' then 0 else 1)"
        "list_all error_frame errors" "length errors \<le> 1" "errors = [] \<or> ending = Closed"
        using 1 [OF rd refl refl refl d [symmetric] refl refl Continue] by blast
      have "bridge_run br uuid ch st r = (st'', (out @ results) @ errors, ending)"
        by (subst bridge_run.simps) (simp add: rd d Continue IH(1))
      moreover have "list_all result_frame (out @ results) \<and> length (out @ results) \<le> (if ch_eos_seen ch then 0 else 1)"
        using step Continue IH(2,3) by (auto simp: result_frame_def split: if_splits)
      ultimately show ?thesis using IH(4-6) by blast
    next
      case Close
      have "bridge_run br uuid ch st r = (st', [] @ out, Closed)"
        by (subst bridge_run.simps) (simp add: rd d Close)
      moreover have "list_all error_frame out \<and> length out \<le> 1" using step Close by (auto simp: error_frame_def)
      ultimately show ?thesis by (intro exI [of _ st'] exI [of _ "[]"] exI [of _ out] exI [of _ Closed]) simp
    next
      case (Fail e)
      have "bridge_run br uuid ch st r = (st', [] @ [], Raised e)"
        using step Fail by (subst bridge_run.simps) (simp add: rd d)
      then show ?thesis by (intro exI [of _ st'] exI [of _ "[]"] exI [of _ "Raised e"]) simp
    qed
  qed
qed

section \<open>A turn\<close>

lemma run_continue:
  assumes "read_frame r = Some (Inr ((t, p), r'))" and "dispatch br uuid t p ch st = (ch', st', out, Continue)"
    and "bridge_run br uuid ch' st' r' = (st'', out', ending)"
  shows "bridge_run br uuid ch st r = (st'', out @ out', ending)"
  by (subst bridge_run.simps) (simp add: assms)

abbreviation frames_at :: "bytes \<Rightarrow> tcp_reader" where
  "frames_at b \<equiv> \<lparr>rd_pending = b, rd_eof = False\<rparr>"

text \<open>The frames of a list of audio payloads.\<close>

definition audio_frames :: "bytes list \<Rightarrow> bytes result" where
  "audio_frames ps = concat_mapE (encode_frame FRAME_AUDIO) ps"

text \<open>How a channel takes in audio: the overflow test sees the total.\<close>

fun with_audio :: "channel \<Rightarrow> bytes list \<Rightarrow> channel" where
  "with_audio ch [] = ch"
| "with_audio ch (p # ps) = with_audio (fst (handle_audio p ch)) ps"

lemma handle_audio_started:
  "ch_started ch \<Longrightarrow> \<exists>ch'. handle_audio p ch = (ch', [], Continue) \<and> ch_started ch'"
  by (simp add: handle_audio_def Let_def)

lemma run_audio:
  assumes "ch_started ch" and "audio_frames ps = Inr b" and "\<forall>p \<in> set ps. length p \<le> MAX_FRAME_SIZE"
  shows "bridge_run br uuid ch st (frames_at (b @ later)) = bridge_run br uuid (with_audio ch ps) st (frames_at later)"
  using assms
proof (induction ps arbitrary: ch b)
  case (Cons p ps)
  obtain f b' where f: "encode_frame FRAME_AUDIO p = Inr f" and b': "audio_frames ps = Inr b'" and b: "b = f @ b'"
    using Cons.prems(2) by (auto simp: audio_frames_def result_simps)
  obtain ch' where ch': "handle_audio p ch = (ch', [], Continue)" "ch_started ch'"
    using handle_audio_started [OF Cons.prems(1)] by blast
  have "read_frame (frames_at (f @ b' @ later)) = Some (Inr ((FRAME_AUDIO, p), frames_at (b' @ later)))"
    using frame_roundtrip [OF f] Cons.prems(3) by (simp add: frame_types)
  moreover have "dispatch br uuid FRAME_AUDIO p ch st = (ch', st, [], Continue)"
    by (simp add: dispatch_def frame_types ch')
  ultimately have "bridge_run br uuid ch st (frames_at (b @ later)) = bridge_run br uuid ch' st (frames_at (b' @ later))"
    using run_continue b by (metis append_assoc append_Nil prod_cases3)
  then show ?case using Cons.IH [OF ch'(2) b'] Cons.prems(3) ch'(1) by simp
qed (simp add: audio_frames_def)

lemma with_audio_queue:
  "ch_started ch \<Longrightarrow> ch_audio_queue (with_audio ch ps) = ch_audio_queue ch @ map Item ps \<and>
     ch_started (with_audio ch ps) \<and> ch_eos_seen (with_audio ch ps) = ch_eos_seen ch \<and>
     ch_asr_task (with_audio ch ps) = ch_asr_task ch \<and> ch_session_id (with_audio ch ps) = ch_session_id ch"
  by (induction ps arbitrary: ch) (auto simp: handle_audio_def Let_def)

lemma with_audio_accum:
  assumes "ch_started ch" and "\<not> ch_audio_overflow ch"
    and "int (length (ch_audio_accum ch) + length (concat ps)) \<le> ch_max_audio_bytes ch"
  shows "\<not> ch_audio_overflow (with_audio ch ps) \<and> ch_audio_accum (with_audio ch ps) = ch_audio_accum ch @ concat ps"
  using assms
proof (induction ps arbitrary: ch)
  case (Cons p ps)
  then show ?case by (simp add: handle_audio_def Let_def)
qed simp

lemma items_until_end_items: "items_until_end (map Item ps @ [EndOfAudio]) = Some ps"
  by (induction ps) auto

lemma await_asr_turn:
  assumes "br_asr br = Inr asr" and "br_in_time br (task_chunks ps)"
    and "asr (task_chunks ps) = (partials @ [final], None)" and "pt_is_final final"
  shows "await_asr br (TaskStarted # map Item ps @ [EndOfAudio]) = Inr (pt_text final)"
  using assms by (auto simp: await_asr_def task_items_def items_until_end_items)

text \<open>The payload of a START frame as the protocol describes it, and the channel it opens.\<close>

definition start_meta :: "pystr \<Rightarrow> pystr \<Rightarrow> int \<Rightarrow> pystr \<Rightarrow> (pystr, pyval) dict" where
  "start_meta cid sid rate codec =
     [(u ''channel_id'', PStr cid), (u ''session_id'', PStr sid), (u ''sample_rate'', PInt rate), (u ''codec'', PStr codec)]"

definition started_channel :: "pystr \<Rightarrow> pystr \<Rightarrow> int \<Rightarrow> pystr \<Rightarrow> int \<Rightarrow> channel" where
  "started_channel cid sid rate codec limit =
     new_channel\<lparr>ch_channel_id := cid, ch_session_id := sid, ch_sample_rate := rate, ch_codec := codec,
       ch_started := True, ch_max_audio_bytes := limit, ch_asr_task := True, ch_audio_queue := [TaskStarted]\<rparr>"

lemma handle_start_ok:
  assumes "cbor_encode_map (start_meta cid sid rate codec) = Inr payload" and "2 \<le> br_frames br"
    and "br_max_audio_bytes br = Inr limit"
  shows "handle_start br payload new_channel = (started_channel cid sid rate codec limit, [], Continue)"
proof -
  obtain f where f: "br_frames br = Suc (Suc f)" using assms(2) by (metis Suc_le_D numeral_2_eq_2 Suc_le_mono)
  have "cbor_decode (br_frames br) payload =
      Inr (PDict (map (\<lambda>(k, v). (PStr k, v)) (start_meta cid sid rate codec)), length payload)"
    using cbor_map_roundtrip [OF _ _ assms(1), of f "[]"] unfolding f
    by (simp add: start_meta_def wf_dict_def plain_value_def del: cbor_decode.simps)
  then show ?thesis
    using assms(3)
    by (simp add: handle_start_def start_meta_def Let_def meta_get_def py_str_def started_channel_def
        new_channel_def del: cbor_decode.simps)
qed

text \<open>The channel when the recogniser is asked for its answer.\<close>

definition turn_channel :: "pystr \<Rightarrow> pystr \<Rightarrow> int \<Rightarrow> pystr \<Rightarrow> int \<Rightarrow> bytes list \<Rightarrow> channel" where
  "turn_channel cid sid rate codec limit ps =
     (let ch = with_audio (started_channel cid sid rate codec limit) ps
      in ch\<lparr>ch_eos_seen := True, ch_audio_queue := ch_audio_queue ch @ [EndOfAudio]\<rparr>)"

lemma turn_channel_facts:
  "ch_session_id (turn_channel cid sid rate codec limit ps) = sid"
  "int (length (concat ps)) \<le> limit \<Longrightarrow> \<not> ch_audio_overflow (turn_channel cid sid rate codec limit ps) \<and>
     ch_audio_accum (turn_channel cid sid rate codec limit ps) = concat ps"
  using with_audio_queue [of "started_channel cid sid rate codec limit" ps]
    with_audio_accum [of "started_channel cid sid rate codec limit" ps]
  by (simp_all add: turn_channel_def Let_def started_channel_def new_channel_def)

lemma handle_eos_turn:
  assumes "br_asr br = Inr asr" and "br_in_time br (task_chunks ps)"
    and "asr (task_chunks ps) = (partials @ [final], None)" and "pt_is_final final"
    and "match_intent br uuid (pt_text final) (turn_channel cid sid rate codec limit ps) st = ((iid, conf), st')"
    and "render_nlsml (pt_text final) conf iid = Inr nlsml" and "encode_frame FRAME_RESULT nlsml = Inr f"
  shows "handle_eos br uuid (with_audio (started_channel cid sid rate codec limit) ps) st =
    (turn_channel cid sid rate codec limit ps, st', [f], Continue)"
proof -
  let ?ch = "with_audio (started_channel cid sid rate codec limit) ps"
  have q: "ch_started ?ch" "\<not> ch_eos_seen ?ch" "ch_asr_task ?ch" "ch_audio_queue ?ch = TaskStarted # map Item ps"
    using with_audio_queue [of "started_channel cid sid rate codec limit" ps]
    by (simp_all add: started_channel_def new_channel_def)
  have "await_asr br (ch_audio_queue (turn_channel cid sid rate codec limit ps)) = Inr (pt_text final)"
    using await_asr_turn [OF assms(1-4)] q(4) by (simp add: turn_channel_def Let_def)
  then show ?thesis
    using assms(5-7) q by (simp add: handle_eos_def Let_def turn_channel_def)
qed

section \<open>Properties\<close>

text \<open>
  C18. A bridge turn end to end: a START frame with the protocol's four fields, any audio frames, EOS
  and STOP, encoded as the protocol prescribes, are answered with exactly one frame, the RESULT,
  and the connection is closed. The document in it reads back the text of the recogniser's final
  item as its input and, as its instance, the intent matched for that text; the matching sees
  the session of the START frame and exactly the audio sent.
\<close>

theorem bridge_turn:
  assumes "cbor_encode_map (start_meta cid sid rate codec) = Inr meta" and "length meta \<le> MAX_FRAME_SIZE"
    and "encode_frame FRAME_START meta = Inr start" and "audio_frames ps = Inr audio"
    and "encode_frame FRAME_EOS [] = Inr eos" and "encode_frame FRAME_STOP [] = Inr stop"
    and "\<forall>p \<in> set ps. length p \<le> MAX_FRAME_SIZE"
    and "2 \<le> br_frames br" and "br_max_audio_bytes br = Inr limit" and "int (length (concat ps)) \<le> limit"
    and "br_asr br = Inr asr" and "br_in_time br (task_chunks ps)"
    and "asr (task_chunks ps) = (partials @ [final], None)" and "pt_is_final final"
    and "match_intent br uuid (pt_text final) (turn_channel cid sid rate codec limit ps) st = ((iid, conf), st')"
    and "list_all is_scalar (pt_text final)" and "list_all is_scalar iid"
    and "render_nlsml (pt_text final) conf iid = Inr nlsml" and "length nlsml < 0xFFFFFFFF"
  shows "\<exists>f xml. bridge_handle br uuid st (frames_at (start @ audio @ eos @ stop)) = (st', [f], Closed) \<and>
    encode_frame FRAME_RESULT nlsml = Inr f \<and> utf8_decode nlsml = Inr xml \<and>
    xml_text input_tag (u ''</input>'') xml = Some (pt_text final) \<and> xml_element ''instance'' xml = Some iid \<and>
    ch_session_id (turn_channel cid sid rate codec limit ps) = sid \<and>
    ch_audio_accum (turn_channel cid sid rate codec limit ps) = concat ps"
proof -
  let ?ch = "started_channel cid sid rate codec limit" and ?t = "turn_channel cid sid rate codec limit ps"
  have types: "FRAME_START < 256" "FRAME_EOS < 256" "FRAME_STOP < 256" by (simp_all add: frame_types)
  obtain f where f: "encode_frame FRAME_RESULT nlsml = Inr f" using assms(19) by (simp add: encode_frame_def Let_def)
  have "bridge_run br uuid ?t st' (frames_at (stop @ [])) = (st', [], Closed)"
    using frame_roundtrip [OF assms(6) types(3), of "[]" False]
    by (subst bridge_run.simps) (simp add: dispatch_def frame_types)
  moreover have "dispatch br uuid FRAME_EOS [] (with_audio ?ch ps) st = (?t, st', [f], Continue)"
    using handle_eos_turn [OF assms(11-15,18) f] by (simp add: dispatch_def frame_types)
  moreover have "read_frame (frames_at (eos @ stop)) = Some (Inr ((FRAME_EOS, []), frames_at stop))"
    using frame_roundtrip [OF assms(5) types(2)] by simp
  ultimately have "bridge_run br uuid (with_audio ?ch ps) st (frames_at (eos @ stop)) = (st', [f], Closed)"
    using run_continue by fastforce
  then have tail: "bridge_run br uuid ?ch st (frames_at (audio @ eos @ stop)) = (st', [f], Closed)"
    using run_audio [OF _ assms(4,7)] by (simp add: started_channel_def)
  have "dispatch br uuid FRAME_START meta new_channel st = (?ch, st, [], Continue)"
    using handle_start_ok [OF assms(1,8,9)] by (simp add: dispatch_def frame_types)
  moreover have "read_frame (frames_at (start @ audio @ eos @ stop)) =
      Some (Inr ((FRAME_START, meta), frames_at (audio @ eos @ stop)))"
    using frame_roundtrip [OF assms(3) types(1) assms(2)] by simp
  ultimately have "bridge_handle br uuid st (frames_at (start @ audio @ eos @ stop)) = (st', [f], Closed)"
    unfolding bridge_handle_def using run_continue tail by fastforce
  moreover obtain xml where "utf8_decode nlsml = Inr xml"
    "xml_text input_tag (u ''</input>'') xml = Some (pt_text final)" "xml_element ''instance'' xml = Some iid"
    using bridge_nlsml_reads_back [OF assms(16,17), of conf] assms(18) by auto
  ultimately show ?thesis using f turn_channel_facts(2) [OF assms(10)] turn_channel_facts(1) by blast
qed

text \<open>A bridge without intents whose recogniser is the scripted stub.\<close>

definition stub_bridge :: bridge where
  "stub_bridge =
     \<lparr>br_asr = Inr (stub_asr_stream (Some (u ''hi''))), br_in_time = (\<lambda>_. True), br_sched = (\<lambda>_. None),
      br_orchestrator = None, br_default_scene = None, br_max_audio_bytes = Inr DEFAULT_MAX_AUDIO_BYTES,
      br_frames = 9, br_str_exn = (\<lambda>_. []), br_str_dict = (\<lambda>_. [])\<rparr>"

lemma placeholder_confidence_text: "fmt2 PLACEHOLDER_CONFIDENCE = u ''0.90''"
  by code_simp

lemma stub_bridge_document:
  "\<exists>nlsml. render_nlsml (u ''hi'') PLACEHOLDER_CONFIDENCE PLACEHOLDER_INTENT = Inr nlsml \<and> length nlsml < 0xFFFFFFFF"
proof -
  let ?x = "bridge_nlsml_head PLACEHOLDER_CONFIDENCE @ xml_escape (u ''hi'') @ bridge_nlsml_middle @
    xml_escape PLACEHOLDER_INTENT @ nlsml_tail"
  have "\<forall>c \<in> set ?x. c < 128" "length ?x < 1000"
    by (simp_all add: bridge_nlsml_head_def bridge_nlsml_middle_def nlsml_tail_def placeholder_confidence_text
        xml_escape_def replace1_def PLACEHOLDER_INTENT_def)
  then show ?thesis using utf8_encode_ascii [of ?x] by (simp add: render_nlsml_def)
qed

theorem bridge_turn_witness:
  "\<exists>b f nlsml xml. bridge_handle stub_bridge [] [] (frames_at b) = ([], [f], Closed) \<and>
     encode_frame FRAME_RESULT nlsml = Inr f \<and> utf8_decode nlsml = Inr xml \<and>
     xml_text input_tag (u ''</input>'') xml = Some (u ''hi'') \<and> xml_element ''instance'' xml = Some PLACEHOLDER_INTENT"
proof -
  have enc: "utf8_encode s = Inr (ascii s)" if "\<forall>c \<in> set s. c < 128" for s
    using that by (intro utf8_encode_ascii) blast
  obtain meta where meta: "cbor_encode_map (start_meta (u ''c'') (u ''s'') 16000 (u ''LPCM'')) = Inr meta"
      "length meta \<le> MAX_FRAME_SIZE"
    by (simp add: start_meta_def cbor_encode_map_def cbor_encode_str_def cbor_encode_value_def
        cbor_encode_uint_def cbor_encode_head_def enc MAX_FRAME_SIZE_def)
  obtain start audio eos stop where fs: "encode_frame FRAME_START meta = Inr start"
      "audio_frames [[0, 0], [1, 0]] = Inr audio" "encode_frame FRAME_EOS [] = Inr eos" "encode_frame FRAME_STOP [] = Inr stop"
    using meta(2) by (simp add: encode_frame_def audio_frames_def Let_def MAX_FRAME_SIZE_def)
  obtain nlsml where doc: "render_nlsml (u ''hi'') PLACEHOLDER_CONFIDENCE PLACEHOLDER_INTENT = Inr nlsml"
      "length nlsml < 0xFFFFFFFF"
    using stub_bridge_document by blast
  let ?final = "\<lparr>pt_text = u ''hi'', pt_is_final = True, pt_start_ms = 0, pt_end_ms = 0\<rparr>"
  let ?partial = "\<lparr>pt_text = u ''hi'', pt_is_final = False, pt_start_ms = 0, pt_end_ms = 0\<rparr>"
  have "stub_asr_stream (Some (u ''hi'')) (task_chunks [[0, 0], [1, 0]]) = ([?partial, ?partial] @ [?final], None)"
    by (simp add: stub_asr_stream_def task_chunks_def stub_text_def yield_def)
  then show ?thesis
    using bridge_turn [OF meta(1,2) fs, of stub_bridge DEFAULT_MAX_AUDIO_BYTES "stub_asr_stream (Some (u ''hi''))"
        "[?partial, ?partial]" ?final "[]" "[]" PLACEHOLDER_INTENT PLACEHOLDER_CONFIDENCE "[]" nlsml] doc
    by (simp add: stub_bridge_def DEFAULT_MAX_AUDIO_BYTES_def MAX_FRAME_SIZE_def match_intent_def
        PLACEHOLDER_INTENT_def is_scalar_def) blast
qed

text \<open>
  C20. Whatever bytes a peer sends, the handler ends or waits for more of them, and what it has
  written is at most one RESULT frame followed by at most one ERROR frame; after an ERROR frame
  the connection is closed.
\<close>

theorem bridge_frames_discipline:
  "\<exists>st' results errors ending. bridge_handle br uuid st r = (st', results @ errors, ending) \<and>
     list_all result_frame results \<and> length results \<le> 1 \<and>
     list_all error_frame errors \<and> length errors \<le> 1 \<and> (errors = [] \<or> ending = Closed)"
  using run_discipline [of br uuid new_channel st r] by (simp add: bridge_handle_def new_channel_def)

text \<open>
  C19. The invariant of a channel between any two frames: until it overflows, the audio kept for
  the end-to-end recogniser is exactly the audio queued for the speech recogniser and stays
  within the limit; after an overflow nothing is kept. A started channel has a recogniser task
  and the configured limit, and the end of audio is on the queue at most once.
\<close>

theorem bridge_channel_invariant:
  assumes "bridge_reach br ch"
  shows "channel_inv br ch"
  using assms by (rule reach_inv)

lemma start_stub_bridge:
  "dispatch stub_bridge [] FRAME_START [0xA0] new_channel [] =
     (started_channel [] [] 16000 (u ''LPCM'') DEFAULT_MAX_AUDIO_BYTES, [], [], Continue)"
proof -
  have "cbor_decode (Suc n) [0xA0] = Inr (PDict [], 1)" for n by (simp add: cbor_head_def Let_def)
  moreover have "br_frames stub_bridge = Suc 8" by (simp add: stub_bridge_def)
  ultimately have "cbor_decode (br_frames stub_bridge) [0xA0] = Inr (PDict [], 1)" by metis
  moreover have "br_max_audio_bytes stub_bridge = Inr DEFAULT_MAX_AUDIO_BYTES" by (simp add: stub_bridge_def)
  ultimately show ?thesis
    by (simp add: dispatch_def handle_start_def Let_def meta_get_def py_str_def started_channel_def
        new_channel_def frame_types del: cbor_decode.simps)
qed

theorem bridge_channel_invariant_witness:
  "channel_inv stub_bridge (started_channel [] [] 16000 (u ''LPCM'') DEFAULT_MAX_AUDIO_BYTES)"
  by (rule bridge_channel_invariant) (rule bridge_reach.frame [OF bridge_reach.opened start_stub_bridge])

text \<open>
  A START frame that is cut short is not answered with BAD_START: the decoder's
  \<open>IndexError\<close> escapes the handler and no ERROR frame is sent.
\<close>

theorem truncated_start_escapes:
  assumes "encode_frame FRAME_START [0x18] = Inr start" and "0 < br_frames br"
  shows "bridge_handle br uuid st (frames_at (start @ later)) = (st, [], Raised IndexError)"
proof -
  have "read_frame (frames_at (start @ later)) = Some (Inr ((FRAME_START, [0x18]), frames_at later))"
    using frame_roundtrip [OF assms(1)] by (simp add: frame_types MAX_FRAME_SIZE_def)
  moreover have "handle_start br [0x18] new_channel = (new_channel, [], Fail IndexError)"
    using assms(2) by (cases "br_frames br") (simp_all add: handle_start_def Let_def cbor_head_def)
  ultimately show ?thesis
    unfolding bridge_handle_def by (subst bridge_run.simps) (simp add: dispatch_def frame_types)
qed

theorem truncated_start_escapes_witness:
  "bridge_handle stub_bridge [] [] (frames_at ([0, 0, 0, 2, 1, 0x18])) = ([], [], Raised IndexError)"
proof -
  have "be_enc (Suc (Suc (Suc (Suc 0)))) (Suc (Suc 0)) = [0, 0, 0, 2]" by (simp add: byte_of_def)
  moreover have "(4::nat) = Suc (Suc (Suc (Suc 0)))" by simp
  ultimately have "be_enc 4 (Suc (Suc 0)) = [0, 0, 0, 2]" by metis
  then have "encode_frame FRAME_START [0x18] = Inr [0, 0, 0, 2, 1, 0x18]"
    by (simp add: encode_frame_def FRAME_START_def byte_of_def)
  from truncated_start_escapes [OF this, of stub_bridge "[]" "[]" "[]"]
  show ?thesis by (simp add: stub_bridge_def)
qed

end
