(* ===== verification/Rtp.thy ===== *)
theory Rtp
  imports Py_Codec
begin

unbundle bit_operations_syntax

text \<open>
  RTP reception, \<open>adapters/mrcp/rtp.py\<close>: parsing a packet, the reorder buffer with its 16-bit
  serial-number arithmetic, and the byte swap; and the sending side of the client simulator
  (\<open>_send_rtp\<close> and \<open>_swap_bytes\<close> of \<open>adapters/mrcp/client_sim.py\<close>). Sequence numbers are 16-bit
  words, so \<open>& 0xFFFF\<close> is the arithmetic of the type. Dictionaries keep insertion order.
\<close>

section \<open>Packets\<close>

record rtp_packet =
  rtp_sequence :: "16 word"
  rtp_timestamp :: "32 word"
  rtp_ssrc :: "32 word"
  rtp_payload_type :: byte
  rtp_marker :: bool
  rtp_payload :: bytes

definition parse_rtp :: "bytes \<Rightarrow> rtp_packet result" where
  "parse_rtp raw =
     (if length raw < 12 then Inl (RtpParseError ''RTP packet too short'')
      else
        (let byte0 = raw ! 0; byte1 = raw ! 1;
             version = drop_bit 6 (byte0 AND 192)
         in if version \<noteq> 2 then Inl (RtpParseError ''unsupported RTP version'')
            else
              (let csrc_count = unat (byte0 AND 15);
                   payload_start = 12 + csrc_count * 4
               in if length raw < payload_start then Inl (RtpParseError ''truncated CSRC list'')
                  else Inr \<lparr>rtp_sequence = be16 (raw ! 2) (raw ! 3),
                            rtp_timestamp = be32 (raw ! 4) (raw ! 5) (raw ! 6) (raw ! 7),
                            rtp_ssrc = be32 (raw ! 8) (raw ! 9) (raw ! 10) (raw ! 11),
                            rtp_payload_type = byte1 AND 127,
                            rtp_marker = (byte1 AND 128 \<noteq> 0),
                            rtp_payload = drop payload_start raw\<rparr>)))"

section \<open>The reorder buffer\<close>

definition seq_less :: "16 word \<Rightarrow> 16 word \<Rightarrow> bool" where
  "seq_less a b \<longleftrightarrow> 0x8000 < a - b"

definition seq_distance :: "16 word \<Rightarrow> 16 word \<Rightarrow> nat" where
  "seq_distance base s = unat (s - base)"

record jitter_buffer =
  capacity :: nat
  buffered :: "(16 word, bytes) dict"
  next_seq :: "16 word option"

definition JitterBuffer :: "nat \<Rightarrow> jitter_buffer" where
  "JitterBuffer cap = \<lparr>capacity = cap, buffered = [], next_seq = None\<rparr>"

text \<open>\<open>while next in buffered: emitted.append(buffered.pop(next)); next += 1\<close>\<close>

function pop_run ::
  "16 word \<Rightarrow> (16 word, bytes) dict \<Rightarrow> 16 word \<times> (16 word, bytes) dict \<times> bytes list" where
  "pop_run n buf =
     (case dget buf n of
        None \<Rightarrow> (n, buf, [])
      | Some payload \<Rightarrow>
          (case pop_run (n + 1) (dpop n buf) of (n', buf', out) \<Rightarrow> (n', buf', payload # out)))"
  by pat_completeness auto
termination
  by (relation "measure (\<lambda>(n, buf). length buf)") (auto intro: length_dpop_less dest: dget_Some_key)

declare pop_run.simps [simp del]

text \<open>\<open>min(buffered, key=...)\<close>: the first key of least distance.\<close>

fun nearest_key :: "16 word \<Rightarrow> 16 word \<Rightarrow> 16 word list \<Rightarrow> 16 word" where
  "nearest_key base best [] = best"
| "nearest_key base best (k # ks) =
     nearest_key base (if seq_distance base k < seq_distance base best then k else best) ks"

definition jitter_push :: "jitter_buffer \<Rightarrow> rtp_packet \<Rightarrow> jitter_buffer \<times> bytes list" where
  "jitter_push jb packet =
     (let next = (case next_seq jb of None \<Rightarrow> rtp_sequence packet | Some n \<Rightarrow> n)
      in if seq_less (rtp_sequence packet) next then (jb\<lparr>next_seq := Some next\<rparr>, [])
         else
           (let buf = dput (rtp_sequence packet) (rtp_payload packet) (buffered jb);
                (next, buf, emitted) = pop_run next buf
            in if capacity jb < length buf
               then (let near = nearest_key next (hd (dkeys buf)) (tl (dkeys buf));
                         (next, buf, emitted') = pop_run near buf
                     in (jb\<lparr>buffered := buf, next_seq := Some next\<rparr>, emitted @ emitted'))
               else (jb\<lparr>buffered := buf, next_seq := Some next\<rparr>, emitted)))"

definition jitter_flush :: "jitter_buffer \<Rightarrow> jitter_buffer \<times> bytes list" where
  "jitter_flush jb =
     (if buffered jb = [] then (jb, [])
      else (let base = (case next_seq jb of None \<Rightarrow> 0 | Some n \<Rightarrow> n);
                ordered_keys = sort_key (seq_distance base) (dkeys (buffered jb))
            in (jb\<lparr>buffered := []\<rparr>, map (\<lambda>k. the (dget (buffered jb) k)) ordered_keys)))"

section \<open>Sample byte order\<close>

fun byteswap :: "bytes \<Rightarrow> bytes" where
  "byteswap (a # b # rest) = b # a # byteswap rest"
| "byteswap rest = rest"

definition l16_be_to_pcm16_le :: "bytes \<Rightarrow> bytes result" where
  "l16_be_to_pcm16_le payload =
     (if odd (length payload) then Inl (RtpParseError ''L16 payload length must be even'')
      else Inr (byteswap payload))"

text \<open>
  \<open>_swap_bytes\<close> unpacks little-endian samples and packs them big-endian; a buffer of odd length
  does not fit the format string.
\<close>

definition swap_bytes :: "bytes \<Rightarrow> bytes result" where
  "swap_bytes pcm = (if odd (length pcm) then Inl StructError else Inr (byteswap pcm))"

section \<open>The sender\<close>

text \<open>\<open>range(0, len, step)\<close>: a zero step raises.\<close>

function chunk_bytes :: "nat \<Rightarrow> bytes \<Rightarrow> bytes list" where
  "chunk_bytes n data = (if n = 0 \<or> data = [] then [] else take n data # chunk_bytes n (drop n data))"
  by pat_completeness auto
termination
  by (relation "measure (\<lambda>(n, d). length d)") auto

declare chunk_bytes.simps [simp del]

definition rtp_header :: "nat \<Rightarrow> nat \<Rightarrow> 32 word \<Rightarrow> bytes" where
  "rtp_header seq timestamp ssrc =
     [128, 96 AND 127] @ pack16 (of_nat seq) @ pack32 (of_nat timestamp) @ pack32 ssrc"

fun send_packets :: "nat \<Rightarrow> 32 word \<Rightarrow> nat \<Rightarrow> nat \<Rightarrow> bytes list \<Rightarrow> bytes list result" where
  "send_packets samples_per_packet ssrc seq timestamp [] = Inr []"
| "send_packets samples_per_packet ssrc seq timestamp (chunk # chunks) =
     bindE (swap_bytes chunk) (\<lambda>be.
     bindE (send_packets samples_per_packet ssrc (Suc seq) (timestamp + samples_per_packet) chunks)
       (\<lambda>sent. Inr ((rtp_header seq timestamp ssrc @ be) # sent)))"

definition send_rtp :: "bytes \<Rightarrow> 32 word \<Rightarrow> nat \<Rightarrow> bytes list result" where
  "send_rtp pcm ssrc packet_ms =
     (if odd (length pcm) then Inl (ValueError ''pcm16_le length must be even'')
      else
        (let samples_per_packet = 16000 * packet_ms div 1000;
             bytes_per_packet = samples_per_packet * 2
         in if bytes_per_packet = 0 then Inl (ValueError ''range() arg 3 must not be zero'')
            else send_packets samples_per_packet ssrc 0 0 (chunk_bytes bytes_per_packet pcm)))"

section \<open>The receiver\<close>

text \<open>
  \<open>_collect_rtp_until_sentinel\<close> of \<open>adapters/mrcp/server.py\<close>, given the datagrams read before the
  control channel delivers its byte. An empty datagram ends the draining task, and so does an
  odd payload, whose exception is never retrieved: in both cases the audio collected so far is
  returned without flushing the buffer. When the sentinel comes first, the buffer is flushed.
  A datagram is read with \<open>sock_recv(rtp_socket, 4096)\<close>: what lies beyond the bound is discarded
  by the socket, as for every datagram longer than the buffer it is received into.
\<close>

definition sock_recv :: "nat \<Rightarrow> bytes \<Rightarrow> bytes" where
  "sock_recv bufsize datagram = take bufsize datagram"

fun extend_pcm :: "bytes \<Rightarrow> bytes list \<Rightarrow> bytes \<times> exn option" where
  "extend_pcm pcm [] = (pcm, None)"
| "extend_pcm pcm (payload # payloads) =
     (case l16_be_to_pcm16_le payload of
        Inl e \<Rightarrow> (pcm, Some e)
      | Inr le \<Rightarrow> extend_pcm (pcm @ le) payloads)"

fun drain_rtp :: "jitter_buffer \<Rightarrow> bytes \<Rightarrow> bytes list \<Rightarrow> jitter_buffer \<times> bytes \<times> bool" where
  "drain_rtp jb pcm [] = (jb, pcm, False)"
| "drain_rtp jb pcm (datagram # datagrams) =
     (let data = sock_recv 4096 datagram
      in if data = [] then (jb, pcm, True)
         else (case parse_rtp data of
                 Inl e \<Rightarrow> if is_value_error e then drain_rtp jb pcm datagrams else (jb, pcm, True)
               | Inr packet \<Rightarrow>
                   (case jitter_push jb packet of
                      (jb, payloads) \<Rightarrow>
                        (case extend_pcm pcm payloads of
                           (pcm, Some e) \<Rightarrow> (jb, pcm, True)
                         | (pcm, None) \<Rightarrow> drain_rtp jb pcm datagrams))))"

definition collect_rtp :: "bytes list \<Rightarrow> bytes result" where
  "collect_rtp datagrams =
     (case drain_rtp (JitterBuffer 8) [] datagrams of
        (jb, pcm, True) \<Rightarrow> Inr pcm
      | (jb, pcm, False) \<Rightarrow>
          (case extend_pcm pcm (snd (jitter_flush jb)) of
             (pcm, None) \<Rightarrow> Inr pcm
           | (pcm, Some e) \<Rightarrow> Inl e))"

section \<open>Packets round trip\<close>

lemma be16_pack16: "be16 (ucast (drop_bit 8 w)) (ucast w) = w"
  unfolding be16_def by (rule bit_word_eqI) (auto simp: bit_simps)

lemma word_cat_halves: "word_cat (ucast (drop_bit 16 w) :: 16 word) (ucast w :: 16 word) = (w :: 32 word)"
  by (rule bit_word_eqI) (auto simp: bit_simps)

lemma parse_rtp_header:
  "parse_rtp (rtp_header seq ts ssrc @ payload) =
     Inr \<lparr>rtp_sequence = of_nat seq, rtp_timestamp = of_nat ts, rtp_ssrc = ssrc,
          rtp_payload_type = 96, rtp_marker = False, rtp_payload = payload\<rparr>"
  by (simp add: parse_rtp_def rtp_header_def pack16_def pack32_def be32_def be16_pack16 word_cat_halves
      Let_def)

lemma byteswap_involution: "byteswap (byteswap b) = b"
  by (induction b rule: byteswap.induct) auto

lemma length_byteswap [simp]: "length (byteswap b) = length b"
  by (induction b rule: byteswap.induct) auto

section \<open>The reorder buffer over unbounded positions\<close>

text \<open>
  A packet's position in the stream is a natural number; its sequence number is the position
  shifted by the first sequence number, modulo \<open>2 ^ 16\<close>. \<open>holds s0 pay buf B\<close> says that the buffer
  holds exactly the packets at the positions \<open>B\<close>.
\<close>

definition holds :: "16 word \<Rightarrow> (nat \<Rightarrow> bytes) \<Rightarrow> (16 word, bytes) dict \<Rightarrow> nat set \<Rightarrow> bool" where
  "holds s0 pay buf B \<longleftrightarrow> wf_dict buf \<and> finite B \<and>
     (\<forall>w p. dget buf w = Some p \<longleftrightarrow> (\<exists>j \<in> B. w = s0 + of_nat j \<and> p = pay j))"

lemma unat_window: "n \<le> 0x8000 \<Longrightarrow> unat (of_nat n :: 16 word) = n"
  by (simp add: unat_of_nat)

lemma of_nat_window:
  assumes "(s0 :: 16 word) + of_nat j = s0 + of_nat k" and "c \<le> j" and "j \<le> c + 0x8000"
    and "c \<le> k" and "k \<le> c + 0x8000"
  shows "j = k"
proof -
  have "(of_nat j - of_nat c :: 16 word) = of_nat k - of_nat c" using assms(1) by simp
  then have "(of_nat (j - c) :: 16 word) = of_nat (k - c)" using assms by (simp add: of_nat_diff)
  then have "unat (of_nat (j - c) :: 16 word) = unat (of_nat (k - c) :: 16 word)" by simp
  then have "j - c = k - c" using assms by (simp only: unat_window le_diff_conv add.commute)
  then show ?thesis using assms by simp
qed

lemma seq_distance_of_nat:
  "c \<le> j \<Longrightarrow> j \<le> c + 0x8000 \<Longrightarrow> seq_distance (s0 + of_nat c) (s0 + of_nat j) = j - c"
proof -
  assume *: "c \<le> j" "j \<le> c + 0x8000"
  have "s0 + of_nat j - (s0 + of_nat c) = (of_nat (j - c) :: 16 word)" using * by (simp add: of_nat_diff)
  then show ?thesis using * unat_window [of "j - c"] by (simp only: seq_distance_def le_diff_conv add.commute)
qed

lemma not_seq_less_window:
  assumes "c \<le> j" and "j \<le> c + 0x8000"
  shows "\<not> seq_less (s0 + of_nat j) (s0 + of_nat c)"
proof -
  have "unat (s0 + of_nat j - (s0 + of_nat c)) \<le> 0x8000"
    using seq_distance_of_nat [OF assms, of s0] assms by (simp add: seq_distance_def)
  then show ?thesis by (simp add: seq_less_def word_less_nat_alt)
qed

lemma holds_get:
  assumes "holds s0 pay buf B" and "B \<subseteq> {c..c + 0x8000}" and "c \<le> j" and "j \<le> c + 0x8000"
  shows "dget buf (s0 + of_nat j) = (if j \<in> B then Some (pay j) else None)"
proof (cases "j \<in> B")
  case True
  then show ?thesis using assms(1) by (auto simp: holds_def)
next
  case False
  have "dget buf (s0 + of_nat j) \<noteq> Some p" for p
  proof
    assume "dget buf (s0 + of_nat j) = Some p"
    then obtain k where "k \<in> B" "s0 + of_nat j = s0 + of_nat k"
      using assms(1) by (auto simp: holds_def)
    then show False using of_nat_window [of s0 j k c] assms(2-4) False by auto
  qed
  then show ?thesis using False by (cases "dget buf (s0 + of_nat j)") auto
qed

lemma holds_put:
  assumes "holds s0 pay buf B" and "B \<subseteq> {c..c + 0x8000}" and "c \<le> i" and "i \<le> c + 0x8000"
  shows "holds s0 (pay(i := x)) (dput (s0 + of_nat i) x buf) (insert i B)"
proof -
  have "dget (dput (s0 + of_nat i) x buf) w = Some p \<longleftrightarrow>
      (\<exists>j \<in> insert i B. w = s0 + of_nat j \<and> p = (pay(i := x)) j)" for w p
  proof (cases "w = s0 + of_nat i")
    case True
    have "j = i" if "j \<in> insert i B" "w = s0 + of_nat j" for j
      using that True of_nat_window [of s0 j i c] assms(2-4) by auto
    then show ?thesis using True by (auto simp: dict_simps)
  next
    case False
    then have "dget (dput (s0 + of_nat i) x buf) w = dget buf w" by (simp add: dict_simps)
    moreover have "dget buf w = Some p \<longleftrightarrow> (\<exists>j \<in> B. w = s0 + of_nat j \<and> p = pay j)"
      using assms(1) by (auto simp: holds_def)
    ultimately show ?thesis using False by auto
  qed
  then show ?thesis using assms(1) by (auto simp: holds_def)
qed

lemma holds_pop:
  assumes "holds s0 pay buf B" and "B \<subseteq> {c..c + 0x8000}" and "c \<le> i" and "i \<le> c + 0x8000"
  shows "holds s0 pay (dpop (s0 + of_nat i) buf) (B - {i})"
proof -
  have "dget (dpop (s0 + of_nat i) buf) w = Some p \<longleftrightarrow>
      (\<exists>j \<in> B - {i}. w = s0 + of_nat j \<and> p = pay j)" for w p
  proof (cases "w = s0 + of_nat i")
    case True
    have "j = i" if "j \<in> B" "w = s0 + of_nat j" for j
      using that True of_nat_window [of s0 j i c] assms(2-4) by auto
    then show ?thesis using True by (auto simp: dict_simps)
  next
    case False
    then show ?thesis using assms(1) by (auto simp: dict_simps holds_def)
  qed
  then show ?thesis using assms(1) by (auto simp: holds_def)
qed

lemma holds_keys: "holds s0 pay buf B \<Longrightarrow> set (dkeys buf) = (\<lambda>j. s0 + of_nat j) ` B"
proof -
  assume h: "holds s0 pay buf B"
  have "w \<in> set (dkeys buf) \<longleftrightarrow> (\<exists>p. dget buf w = Some p)" for w
    using dget_None_key [of buf w] by (cases "dget buf w") auto
  then show ?thesis using h unfolding holds_def by blast
qed

lemma holds_length:
  assumes "holds s0 pay buf B" and "B \<subseteq> {c..c + 0x8000}"
  shows "length buf = card B"
proof -
  have "inj_on (\<lambda>j. s0 + of_nat j) B"
    using assms(2) by (intro inj_onI) (rule of_nat_window [of s0 _ _ c], auto)
  then have "card (set (dkeys buf)) = card B" by (simp only: holds_keys [OF assms(1)] card_image)
  moreover have "distinct (dkeys buf)" using assms(1) by (simp add: holds_def wf_dict_def)
  ultimately show ?thesis by (metis distinct_card length_map)
qed

lemma pop_run_holds:
  "holds s0 pay buf B \<Longrightarrow> B \<subseteq> {c..c + 0x8000} \<Longrightarrow>
    \<exists>c' buf'. pop_run (s0 + of_nat c) buf = (s0 + of_nat c', buf', map pay [c..<c']) \<and> c \<le> c' \<and>
      {c..<c'} \<subseteq> B \<and> c' \<notin> B \<and> holds s0 pay buf' (B - {c..<c'})"
proof (induction "length buf" arbitrary: buf B c rule: less_induct)
  case less
  show ?case
  proof (cases "c \<in> B")
    case True
    let ?buf = "dpop (s0 + of_nat c) buf"
    have g: "dget buf (s0 + of_nat c) = Some (pay c)"
      using holds_get [OF less.prems, of c] True by simp
    have "length ?buf < length buf" using g by (intro length_dpop_less dget_Some_key)
    moreover have "holds s0 pay ?buf (B - {c})" using less.prems by (intro holds_pop) auto
    moreover have "B - {c} \<subseteq> {Suc c..Suc c + 0x8000}" using less.prems(2) by auto
    ultimately obtain c' buf' where IH: "pop_run (s0 + of_nat (Suc c)) ?buf = (s0 + of_nat c', buf', map pay [Suc c..<c'])"
        "Suc c \<le> c'" "{Suc c..<c'} \<subseteq> B - {c}" "c' \<notin> B - {c}" "holds s0 pay buf' (B - {c} - {Suc c..<c'})"
      using less.hyps by blast
    have set: "{c..<c'} = insert c {Suc c..<c'}" using IH(2) by auto
    have "pop_run (s0 + of_nat c) buf = (s0 + of_nat c', buf', map pay [c..<c'])"
      using IH(1,2) g by (subst pop_run.simps) (simp add: upt_conv_Cons ac_simps)
    moreover have "B - {c..<c'} = B - {c} - {Suc c..<c'}" unfolding set by auto
    ultimately show ?thesis using IH(2-5) True set by (intro exI [of _ c'] exI [of _ buf']) auto
  next
    case False
    then have "dget buf (s0 + of_nat c) = None" using holds_get [OF less.prems, of c] by simp
    then have "pop_run (s0 + of_nat c) buf = (s0 + of_nat c, buf, map pay [c..<c])"
      by (subst pop_run.simps) simp
    then show ?thesis using False less.prems(1) by (intro exI [of _ c] exI [of _ buf]) simp
  qed
qed

section \<open>One push\<close>

definition tracks :: "16 word \<Rightarrow> (nat \<Rightarrow> bytes) \<Rightarrow> jitter_buffer \<Rightarrow> nat \<Rightarrow> nat set \<Rightarrow> bool" where
  "tracks s0 pay jb cur B \<longleftrightarrow> next_seq jb = Some (s0 + of_nat cur) \<and> holds s0 pay (buffered jb) B \<and>
     B \<subseteq> {cur<..cur + 0x8000} \<and> card B \<le> capacity jb"

lemma nearest_key_mem: "nearest_key base best ks \<in> insert best (set ks)"
  by (induction ks arbitrary: best) auto

lemma nearest_key_le:
  "k \<in> insert best (set ks) \<Longrightarrow> seq_distance base (nearest_key base best ks) \<le> seq_distance base k"
proof (induction ks arbitrary: best k)
  case (Cons a ks)
  let ?b = "if seq_distance base a < seq_distance base best then a else best"
  have "seq_distance base (nearest_key base ?b ks) \<le> seq_distance base ?b" by (rule Cons.IH) simp
  then show ?case using Cons.IH [of k ?b] Cons.prems by (auto split: if_splits)
qed simp

text \<open>The overflow guard jumps to the first position that is buffered.\<close>

lemma nearest_key_holds:
  assumes "holds s0 pay buf B" and "B \<subseteq> {c..c + 0x8000}" and "B \<noteq> {}"
  shows "nearest_key (s0 + of_nat c) (hd (dkeys buf)) (tl (dkeys buf)) = s0 + of_nat (Min B)"
proof -
  have fin: "finite B" using assms(1) by (simp add: holds_def)
  have ks: "insert (hd (dkeys buf)) (set (tl (dkeys buf))) = (\<lambda>j. s0 + of_nat j) ` B"
    using holds_keys [OF assms(1)] assms(3) by (cases buf) auto
  obtain j where j: "j \<in> B"
    "nearest_key (s0 + of_nat c) (hd (dkeys buf)) (tl (dkeys buf)) = s0 + of_nat j"
    using nearest_key_mem [of "s0 + of_nat c" "hd (dkeys buf)" "tl (dkeys buf)"] unfolding ks by blast
  have m: "Min B \<in> B" using fin assms(3) by (rule Min_in)
  then have "s0 + of_nat (Min B) \<in> insert (hd (dkeys buf)) (set (tl (dkeys buf)))" unfolding ks by blast
  then have "seq_distance (s0 + of_nat c) (s0 + of_nat j) \<le> seq_distance (s0 + of_nat c) (s0 + of_nat (Min B))"
    using nearest_key_le j(2) by metis
  moreover have "c \<le> j" "j \<le> c + 0x8000" "c \<le> Min B" "Min B \<le> c + 0x8000" using j(1) m assms(2) by auto
  ultimately have "j - c \<le> Min B - c" by (simp only: seq_distance_of_nat)
  then have "j \<le> Min B" using \<open>c \<le> j\<close> \<open>c \<le> Min B\<close> by simp
  then show ?thesis using Min_le [OF fin j(1)] j(2) by simp
qed

definition push_result ::
  "16 word \<Rightarrow> (nat \<Rightarrow> bytes) \<Rightarrow> jitter_buffer \<Rightarrow> nat set \<Rightarrow> jitter_buffer \<times> bytes list \<Rightarrow> nat \<Rightarrow> nat list \<Rightarrow> bool"
where
  "push_result s0 pay jb A r cur' js \<longleftrightarrow>
     snd r = map pay js \<and> sorted_wrt (<) js \<and> set js = {j \<in> A. j < cur'} \<and>
     tracks s0 pay (fst r) cur' (A - set js) \<and> capacity (fst r) = capacity jb"

lemma push_plain:
  assumes "holds s0 pay buf (A - {c..<c1})" and "A \<subseteq> {c..c + 0x8000}" and "c \<le> c1"
    and "{c..<c1} \<subseteq> A" and "c1 \<notin> A" and "card (A - {c..<c1}) \<le> capacity jb"
  shows "push_result s0 pay jb A (jb\<lparr>buffered := buf, next_seq := Some (s0 + of_nat c1)\<rparr>, map pay [c..<c1]) c1 [c..<c1]"
proof -
  have "{j \<in> A. j < c1} = {c..<c1}" using assms(2,4) by auto
  moreover have "x \<in> {c1<..c1 + 0x8000}" if x: "x \<in> A - {c..<c1}" for x
  proof -
    have "c \<le> x" "x \<le> c + 0x8000" "\<not> x < c1" "x \<noteq> c1" using x assms(2,5) by auto
    then show ?thesis using assms(3) by simp
  qed
  then have "A - {c..<c1} \<subseteq> {c1<..c1 + 0x8000}" by blast
  ultimately show ?thesis using assms(1,6) by (simp add: push_result_def tracks_def)
qed

lemma push_jump:
  assumes "A \<subseteq> {c..c + 0x8000}" and "c \<le> c1" and "{c..<c1} \<subseteq> A" and "c1 \<notin> A"
    and "m = Min (A - {c..<c1})" and "A - {c..<c1} \<noteq> {}" and "finite A" and "m < c2"
    and "{m..<c2} \<subseteq> A - {c..<c1}" and "c2 \<notin> A - {c..<c1}"
    and "holds s0 pay buf (A - {c..<c1} - {m..<c2})" and "card A \<le> Suc (capacity jb)"
  shows "push_result s0 pay jb A (jb\<lparr>buffered := buf, next_seq := Some (s0 + of_nat c2)\<rparr>,
      map pay [c..<c1] @ map pay [m..<c2]) c2 ([c..<c1] @ [m..<c2])"
proof -
  have m: "m \<in> A - {c..<c1}" unfolding assms(5) using assms(6,7) by (intro Min_in) auto
  then have c1m: "c1 < m" using assms(1,2,4) by (auto simp: not_less le_less)
  have least: "j \<in> A \<Longrightarrow> j < m \<Longrightarrow> j \<in> {c..<c1}" for j
    using Min_le [of "A - {c..<c1}" j] assms(5,7) by fastforce
  have set: "{j \<in> A. j < c2} = {c..<c1} \<union> {m..<c2}"
    using least assms(3,8,9) c1m by (auto simp: not_less)
  have "m \<in> {c..<c1} \<union> {m..<c2}" using assms(8) by simp
  then have "A - ({c..<c1} \<union> {m..<c2}) \<subset> A" using m by blast
  then have "card (A - ({c..<c1} \<union> {m..<c2})) < card A" using assms(7) by (rule psubset_card_mono [rotated])
  then have card: "card (A - ({c..<c1} \<union> {m..<c2})) \<le> capacity jb" using assms(12) by simp
  have "c2 \<notin> A"
    using assms(8,10) c1m by auto
  have "x \<in> {c2<..c2 + 0x8000}" if x: "x \<in> A - ({c..<c1} \<union> {m..<c2})" for x
  proof -
    have "\<not> x < c2" using x set by blast
    moreover have "x \<le> c + 0x8000" "x \<noteq> c2" using x assms(1) \<open>c2 \<notin> A\<close> by auto
    ultimately show ?thesis using assms(2,8) c1m by simp
  qed
  then have "A - ({c..<c1} \<union> {m..<c2}) \<subseteq> {c2<..c2 + 0x8000}" by blast
  moreover have "sorted_wrt (<) ([c..<c1] @ [m..<c2])" using c1m by (auto simp: sorted_wrt_append)
  ultimately show ?thesis
    using assms(11) card set by (simp add: push_result_def tracks_def set_diff_eq conj_assoc)
qed

definition run_end :: "nat set \<Rightarrow> nat \<Rightarrow> nat \<Rightarrow> bool" where
  "run_end A c c1 \<longleftrightarrow> c \<le> c1 \<and> {c..<c1} \<subseteq> A \<and> c1 \<notin> A"

lemma run_end_unique: "run_end A c x \<Longrightarrow> run_end A c y \<Longrightarrow> x = y"
proof (rule ccontr)
  assume r: "run_end A c x" "run_end A c y" "x \<noteq> y"
  then have "min x y \<in> {c..<max x y}" by (auto simp: run_end_def)
  moreover have "{c..<max x y} \<subseteq> A" "min x y \<notin> A" using r by (auto simp: run_end_def max_def min_def)
  ultimately show False by blast
qed

text \<open>When the buffer overflows, the buffer goes on from the packet nearest to the next one.\<close>

lemma push_overflow:
  assumes "holds s0 pay b1 (A - {c..<c1})" and "A \<subseteq> {c..c + 0x8000}" and "finite A" and "c \<le> c1" and "A - {c..<c1} \<noteq> {}"
  shows "\<exists>c2 b2. nearest_key (s0 + of_nat c1) (hd (dkeys b1)) (tl (dkeys b1)) = s0 + of_nat (Min (A - {c..<c1})) \<and>
    pop_run (s0 + of_nat (Min (A - {c..<c1}))) b1 = (s0 + of_nat c2, b2, map pay [Min (A - {c..<c1})..<c2]) \<and>
    c \<le> Min (A - {c..<c1}) \<and> Min (A - {c..<c1}) < c2 \<and> {Min (A - {c..<c1})..<c2} \<subseteq> A - {c..<c1} \<and>
    c2 \<notin> A - {c..<c1} \<and> holds s0 pay b2 (A - {c..<c1} - {Min (A - {c..<c1})..<c2})"
proof -
  let ?R = "A - {c..<c1}"
  have min: "Min ?R \<in> ?R" using assms(3,5) by (intro Min_in) auto
  then have c: "c \<le> Min ?R" using assms(2) by auto
  have bound: "x \<le> c + 0x8000" "Min ?R \<le> x" "c1 \<le> x" if "x \<in> ?R" for x
  proof -
    show "x \<le> c + 0x8000" using that assms(2) by auto
    show "Min ?R \<le> x" using that assms(3) by (intro Min_le) auto
    show "c1 \<le> x" using that assms(2) by (auto simp: not_less)
  qed
  have "x \<le> Min ?R + 0x8000" if "x \<in> ?R" for x using bound(1) [OF that] c by simp
  then have R: "?R \<subseteq> {Min ?R..Min ?R + 0x8000}" using bound(2) by auto
  obtain c2 b2 where r2: "pop_run (s0 + of_nat (Min ?R)) b1 = (s0 + of_nat c2, b2, map pay [Min ?R..<c2])"
      "Min ?R \<le> c2" "{Min ?R..<c2} \<subseteq> ?R" "c2 \<notin> ?R" "holds s0 pay b2 (?R - {Min ?R..<c2})"
    using pop_run_holds [OF assms(1) R] by blast
  have "Min ?R < c2" using min r2(2,4) by (cases "Min ?R = c2") auto
  moreover have "x \<le> c1 + 0x8000" if "x \<in> ?R" for x using bound(1) [OF that] assms(4) by simp
  then have "?R \<subseteq> {c1..c1 + 0x8000}" using bound(3) by auto
  then have "nearest_key (s0 + of_nat c1) (hd (dkeys b1)) (tl (dkeys b1)) = s0 + of_nat (Min ?R)"
    by (rule nearest_key_holds [OF assms(1) _ assms(5)])
  ultimately show ?thesis using r2 c by blast
qed

lemma push_tracks:
  assumes t: "tracks s0 pay jb c B" and i: "c \<le> i" "i \<le> c + 0x8000"
    and p: "rtp_sequence p = s0 + of_nat i"
  shows "\<exists>c' js. push_result s0 (pay(i := rtp_payload p)) jb (insert i B) (jitter_push jb p) c' js \<and> c \<le> c' \<and>
    (\<forall>c1. run_end (insert i B) c c1 \<and> card (insert i B - {c..<c1}) \<le> capacity jb \<longrightarrow> c' = c1)"
proof -
  let ?A = "insert i B" and ?pay = "pay(i := rtp_payload p)"
  let ?buf = "dput (s0 + of_nat i) (rtp_payload p) (buffered jb)"
  have B: "holds s0 pay (buffered jb) B" "B \<subseteq> {c..c + 0x8000}" "next_seq jb = Some (s0 + of_nat c)"
      "card B \<le> capacity jb"
    using t by (auto simp: tracks_def)
  have A: "?A \<subseteq> {c..c + 0x8000}" using B(2) i by auto
  have fin: "finite ?A" using B(1) by (simp add: holds_def)
  have h: "holds s0 ?pay ?buf ?A" by (rule holds_put [OF B(1,2) i])
  obtain c1 b1 where r1: "pop_run (s0 + of_nat c) ?buf = (s0 + of_nat c1, b1, map ?pay [c..<c1])"
      "c \<le> c1" "{c..<c1} \<subseteq> ?A" "c1 \<notin> ?A" "holds s0 ?pay b1 (?A - {c..<c1})"
    using pop_run_holds [OF h A] by blast
  have re: "run_end ?A c c1" using r1 by (simp add: run_end_def)
  have len: "length b1 = card (?A - {c..<c1})"
    using A by (intro holds_length [OF r1(5), of c]) auto
  have ns: "\<not> seq_less (rtp_sequence p) (s0 + of_nat c)" unfolding p by (rule not_seq_less_window [OF i])
  show ?thesis
  proof (cases "capacity jb < length b1")
    case False
    then have "jitter_push jb p = (jb\<lparr>buffered := b1, next_seq := Some (s0 + of_nat c1)\<rparr>, map ?pay [c..<c1])"
      using ns r1(1) B(3) p by (simp add: jitter_push_def)
    then have "push_result s0 ?pay jb ?A (jitter_push jb p) c1 [c..<c1]"
      using push_plain [OF r1(5) A r1(2-4)] False len by simp
    then show ?thesis using r1(2) run_end_unique [OF re] by blast
  next
    case True
    let ?R = "?A - {c..<c1}"
    have ne: "?R \<noteq> {}" using True len by (intro notI) simp
    obtain c2 b2 where near: "nearest_key (s0 + of_nat c1) (hd (dkeys b1)) (tl (dkeys b1)) = s0 + of_nat (Min ?R)"
      and r2: "pop_run (s0 + of_nat (Min ?R)) b1 = (s0 + of_nat c2, b2, map ?pay [Min ?R..<c2])" "c \<le> Min ?R" "Min ?R < c2"
        "{Min ?R..<c2} \<subseteq> ?R" "c2 \<notin> ?R" "holds s0 ?pay b2 (?R - {Min ?R..<c2})"
      using push_overflow [OF r1(5) A fin r1(2) ne] by blast
    have card: "card ?A \<le> Suc (capacity jb)" using B(4) fin by (simp add: card_insert_if)
    have "jitter_push jb p = (jb\<lparr>buffered := b2, next_seq := Some (s0 + of_nat c2)\<rparr>,
        map ?pay [c..<c1] @ map ?pay [Min ?R..<c2])"
      using ns r1(1) B(3) p True near r2(1) by (simp add: jitter_push_def)
    then have "push_result s0 ?pay jb ?A (jitter_push jb p) c2 ([c..<c1] @ [Min ?R..<c2])"
      using push_jump [OF A r1(2-4) refl ne fin r2(3-6) card] by simp
    moreover have "c \<le> c2" using r2(2,3) by simp
    moreover have "c2 = c3" if "run_end ?A c c3" "card (?A - {c..<c3}) \<le> capacity jb" for c3
      using that run_end_unique [OF re that(1)] True len by simp
    ultimately show ?thesis by blast
  qed
qed

lemma push_first: "next_seq jb = None \<Longrightarrow> jitter_push jb p = jitter_push (jb\<lparr>next_seq := Some (rtp_sequence p)\<rparr>) p"
  by (simp add: jitter_push_def Let_def split: prod.split)

lemma tracks_init: "tracks s0 pay (JitterBuffer cap\<lparr>next_seq := Some (s0 + of_nat c)\<rparr>) c {}"
  by (simp add: tracks_def JitterBuffer_def holds_def)

section \<open>The invariant of the buffer\<close>

definition jb_ok :: "jitter_buffer \<Rightarrow> bool" where
  "jb_ok jb \<longleftrightarrow> wf_dict (buffered jb) \<and> length (buffered jb) \<le> capacity jb \<and>
     (case next_seq jb of
        None \<Rightarrow> buffered jb = []
      | Some n \<Rightarrow> (\<forall>w \<in> set (dkeys (buffered jb)). 1 \<le> seq_distance n w \<and> seq_distance n w \<le> 0x8000))"

lemma tracks_jb_ok:
  assumes "tracks s0 pay jb c B"
  shows "jb_ok jb"
proof -
  have h: "holds s0 pay (buffered jb) B" and B: "B \<subseteq> {c..c + 0x8000}" "B \<subseteq> {c<..c + 0x8000}"
    and n: "next_seq jb = Some (s0 + of_nat c)" "card B \<le> capacity jb"
    using assms by (auto simp: tracks_def)
  have "1 \<le> seq_distance (s0 + of_nat c) w \<and> seq_distance (s0 + of_nat c) w \<le> 0x8000"
    if w: "w \<in> set (dkeys (buffered jb))" for w
  proof -
    obtain j where j: "j \<in> B" "w = s0 + of_nat j" using w unfolding holds_keys [OF h] by blast
    then have "c < j" "j \<le> c + 0x8000" using B(2) by auto
    then show ?thesis using seq_distance_of_nat [of c j s0] j(2) by (auto simp: le_diff_conv)
  qed
  then show ?thesis using h n holds_length [OF h B(1)] by (simp add: jb_ok_def holds_def)
qed

lemma jb_ok_tracks:
  assumes "jb_ok jb" and "next_seq jb = Some n"
  shows "\<exists>pay B. tracks n pay jb 0 B"
proof -
  let ?B = "seq_distance n ` set (dkeys (buffered jb))"
  let ?pay = "\<lambda>j. the (dget (buffered jb) (n + of_nat j))"
  have w: "n + of_nat (seq_distance n w) = w" for w by (simp add: seq_distance_def)
  have "dget (buffered jb) v = Some p \<longleftrightarrow> (\<exists>j \<in> ?B. v = n + of_nat j \<and> p = ?pay j)" for v p
  proof
    assume g: "dget (buffered jb) v = Some p"
    then show "\<exists>j \<in> ?B. v = n + of_nat j \<and> p = ?pay j"
      using dget_Some_key [OF g] w [of v] by (intro bexI [of _ "seq_distance n v"]) auto
  next
    assume "\<exists>j \<in> ?B. v = n + of_nat j \<and> p = ?pay j"
    then have "v \<in> set (dkeys (buffered jb))" "p = the (dget (buffered jb) v)" using w by auto
    then show "dget (buffered jb) v = Some p"
      using dget_None_key [of "buffered jb" v] by (cases "dget (buffered jb) v") auto
  qed
  then have h: "holds n ?pay (buffered jb) ?B" using assms(1) by (simp add: holds_def jb_ok_def)
  have B: "?B \<subseteq> {0<..0 + 0x8000}" using assms by (auto simp: jb_ok_def)
  then have "?B \<subseteq> {0..0 + 0x8000}" by (rule order.trans) auto
  then have "card ?B \<le> capacity jb"
    using holds_length [OF h, of 0] assms(1) by (simp add: jb_ok_def)
  then show ?thesis using h B assms(2) by (intro exI [of _ ?pay] exI [of _ ?B]) (simp add: tracks_def)
qed

lemma jitter_push_ok_Some:
  assumes "jb_ok jb" and "next_seq jb = Some n"
  shows "jb_ok (fst (jitter_push jb p))"
proof (cases "seq_less (rtp_sequence p) n")
  case True
  then have "jitter_push jb p = (jb, [])" using assms(2) by (simp add: jitter_push_def)
  then show ?thesis using assms(1) by simp
next
  case False
  let ?i = "seq_distance n (rtp_sequence p)"
  obtain pay B where t: "tracks n pay jb 0 B" using jb_ok_tracks [OF assms] by blast
  have "?i \<le> 0x8000" using False by (simp add: seq_less_def seq_distance_def word_less_nat_alt)
  moreover have "rtp_sequence p = n + of_nat ?i" by (simp add: seq_distance_def)
  ultimately obtain c' js where "push_result n (pay(?i := rtp_payload p)) jb (insert ?i B) (jitter_push jb p) c' js"
    using push_tracks [OF t, of ?i p] by auto
  then show ?thesis unfolding push_result_def by (blast intro: tracks_jb_ok)
qed

lemma jitter_push_ok:
  assumes "jb_ok jb"
  shows "jb_ok (fst (jitter_push jb p))"
proof (cases "next_seq jb")
  case None
  let ?jb = "jb\<lparr>next_seq := Some (rtp_sequence p)\<rparr>"
  have "jb_ok ?jb" using assms None by (simp add: jb_ok_def)
  then show ?thesis unfolding push_first [OF None] by (rule jitter_push_ok_Some) simp
next
  case (Some n)
  then show ?thesis using jitter_push_ok_Some [OF assms] by blast
qed

section \<open>Bounded reordering\<close>

text \<open>
  The packets \<open>0 ..< n\<close> arrive in the order \<open>order\<close>, the first one first and every packet at most
  \<open>d\<close> places from where it was sent.
\<close>

definition displaced :: "nat \<Rightarrow> nat \<Rightarrow> nat list \<Rightarrow> bool" where
  "displaced n d order \<longleftrightarrow> distinct order \<and> set order = {..<n} \<and> (n = 0 \<or> hd order = 0) \<and>
     (\<forall>k < n. order ! k \<le> k + d \<and> k \<le> order ! k + d)"

lemma displaced_length: "displaced n d order \<Longrightarrow> length order = n"
  by (metis card_lessThan displaced_def distinct_card)

lemma displaced_gap:
  assumes "displaced n d order" and "k \<le> n" and "c \<notin> set (take k order)"
  shows "k \<le> c + d"
proof (rule ccontr)
  assume gap: "\<not> k \<le> c + d"
  then have "c \<in> set order" using assms(1,2) by (simp add: displaced_def)
  then obtain q where q: "q < n" "order ! q = c"
    using displaced_length [OF assms(1)] by (metis in_set_conv_nth)
  then have "q \<le> c + d" using assms(1) by (auto simp: displaced_def)
  then have "q < k" using gap by simp
  then have "c \<in> set (take k order)"
    using q assms(2) displaced_length [OF assms(1)] by (auto simp: in_set_conv_nth intro!: exI [of _ q])
  then show False using assms(3) by simp
qed

text \<open>After \<open>k\<close> arrivals the buffer waits for the least missing position \<open>c\<close>.\<close>

definition arrived :: "16 word \<Rightarrow> (nat \<Rightarrow> bytes) \<Rightarrow> nat list \<Rightarrow> nat \<Rightarrow> jitter_buffer \<Rightarrow> nat \<Rightarrow> bool" where
  "arrived s0 pay order k jb c \<longleftrightarrow> tracks s0 pay jb c (set (take k order) - {..<c}) \<and>
     {..<c} \<subseteq> set (take k order) \<and> c \<notin> set (take k order)"

lemma arrived_step:
  assumes a: "arrived s0 pay order k jb c" and d: "displaced n d order" "d \<le> capacity jb" "2 * d \<le> 0x8000"
    and k: "k < n" and p: "rtp_sequence p = s0 + of_nat (order ! k)" "rtp_payload p = pay (order ! k)"
  shows "\<exists>c'. c \<le> c' \<and> arrived s0 pay order (Suc k) (fst (jitter_push jb p)) c' \<and>
    snd (jitter_push jb p) = map pay [c..<c'] \<and> capacity (fst (jitter_push jb p)) = capacity jb"
proof -
  let ?i = "order ! k" and ?P = "set (take k order)" and ?P' = "set (take (Suc k) order)"
  let ?B = "?P - {..<c}" and ?A = "insert (order ! k) (set (take k order) - {..<c})"
  have len: "length order = n" using displaced_length [OF d(1)] .
  have P': "?P' = insert ?i ?P" using k len by (simp add: take_Suc_conv_app_nth)
  have new: "?i \<notin> ?P"
    using d(1) k len by (auto simp: displaced_def in_set_conv_nth nth_eq_iff_index_eq)
  have t: "tracks s0 pay jb c ?B" "{..<c} \<subseteq> ?P" "c \<notin> ?P" using a by (auto simp: arrived_def)
  have ci: "c \<le> ?i" using new t(2) by (meson lessThan_iff not_less subsetD)
  have "k \<le> c + d" using displaced_gap [OF d(1) _ t(3)] k by simp
  moreover have "?i \<le> k + d" using d(1) k by (simp add: displaced_def)
  ultimately have iw: "?i \<le> c + 0x8000" using d(3) by linarith
  have A: "?A = ?P' - {..<c}" using P' ci by auto
  have fin: "finite ?P'" by simp
  obtain c' js where r: "push_result s0 (pay(?i := rtp_payload p)) jb ?A (jitter_push jb p) c' js" "c \<le> c'"
    and plain: "\<And>c1. run_end ?A c c1 \<Longrightarrow> card (?A - {c..<c1}) \<le> capacity jb \<Longrightarrow> c' = c1"
    using push_tracks [OF t(1) ci iw p(1)] by blast
  have pay: "pay(?i := rtp_payload p) = pay" using p(2) by auto
  obtain c1 where c1: "run_end ?A c c1"
  proof -
    obtain m where "\<forall>x \<in> ?A. x < m" using finite_nat_set_iff_bounded [of ?A] A fin by auto
    then have "max c m \<notin> ?A" by (metis max.cobounded2 not_less)
    then have "\<exists>x. c \<le> x \<and> x \<notin> ?A" using max.cobounded1 by blast
    define x where "x = (LEAST x. c \<le> x \<and> x \<notin> ?A)"
    have "c \<le> x \<and> x \<notin> ?A" unfolding x_def by (rule LeastI_ex) fact
    moreover have "y \<in> ?A" if "c \<le> y" "y < x" for y using not_less_Least [of y] that unfolding x_def by blast
    ultimately have "run_end ?A c x" unfolding run_end_def by (metis atLeastLessThan_iff subsetI)
    then show thesis by (rule that)
  qed
  have c1': "c1 \<notin> ?P'" "c \<le> c1" using c1 unfolding A run_end_def by auto
  have "{..<c1} = {..<c} \<union> {c..<c1}" using c1'(2) by auto
  then have low: "{..<c1} \<subseteq> ?P'" using c1 t(2) unfolding A run_end_def P' by blast
  have rest: "?A - {c..<c1} = ?P' - {..<c1}" unfolding A using c1'(2) by auto
  have "card ?P' = Suc k" using d(1) k len by (simp add: displaced_def distinct_card)
  then have "card (?P' - {..<c1}) = Suc k - c1" using low by (simp add: card_Diff_subset)
  moreover have "Suc k \<le> c1 + d" using displaced_gap [OF d(1) _ c1'(1)] k by simp
  ultimately have "card (?A - {c..<c1}) \<le> capacity jb" using d(2) rest by simp
  then have eq: "c' = c1" by (rule plain [OF c1])
  have "set js = {c..<c1}" using r(1) c1 unfolding push_result_def eq run_end_def A by auto
  moreover have "sorted_wrt (<) js" using r(1) by (simp add: push_result_def)
  ultimately have js: "js = [c..<c1]"
    by (intro sorted_distinct_set_unique) (auto simp: strict_sorted_iff)
  have "arrived s0 pay order (Suc k) (fst (jitter_push jb p)) c1"
    using r(1) low c1' rest unfolding push_result_def js eq pay arrived_def by simp
  then show ?thesis using r c1'(2) js pay unfolding push_result_def by auto
qed

section \<open>The receiver on a reordered stream\<close>

definition carries :: "16 word \<Rightarrow> bytes \<Rightarrow> bytes \<Rightarrow> nat \<Rightarrow> bool" where
  "carries s0 payload data j \<longleftrightarrow> even (length payload) \<and>
     (\<exists>p. parse_rtp (sock_recv 4096 data) = Inr p \<and> rtp_sequence p = s0 + of_nat j \<and> rtp_payload p = payload)"

lemma parse_rtp_nonempty: "parse_rtp data = Inr p \<Longrightarrow> data \<noteq> []"
  by (auto simp: parse_rtp_def)

lemma extend_pcm_even:
  "(\<And>j. j \<in> set js \<Longrightarrow> even (length (pay j))) \<Longrightarrow>
     extend_pcm pcm (map pay js) = (pcm @ concat (map (byteswap \<circ> pay) js), None)"
  by (induction js arbitrary: pcm) (auto simp: l16_be_to_pcm16_le_def)

lemma drain_displaced:
  assumes d: "displaced n d order" "d \<le> 8" and dg: "\<And>j. j < n \<Longrightarrow> carries s0 (pay j) (dg j) j"
    and start: "arrived s0 pay order 0 jb0 0" "capacity jb0 = 8" and k: "k \<le> n"
  shows "\<exists>jb c. arrived s0 pay order k jb c \<and> capacity jb = 8 \<and>
    drain_rtp jb0 [] (map dg order) =
      drain_rtp jb (concat (map (byteswap \<circ> pay) [0..<c])) (map dg (drop k order))"
  using k
proof (induction k)
  case 0
  then show ?case using start by (intro exI [of _ jb0] exI [of _ 0]) simp
next
  case (Suc k)
  then obtain jb c where a: "arrived s0 pay order k jb c" "capacity jb = 8"
    and eq: "drain_rtp jb0 [] (map dg order) =
      drain_rtp jb (concat (map (byteswap \<circ> pay) [0..<c])) (map dg (drop k order))"
    using Suc_leD by blast
  have len: "length order = n" using displaced_length [OF d(1)] .
  have kn: "k < n" using Suc.prems by simp
  have mem: "order ! k < n" using d(1) kn len nth_mem [of k order] by (auto simp: displaced_def)
  obtain p where p: "parse_rtp (sock_recv 4096 (dg (order ! k))) = Inr p" "rtp_sequence p = s0 + of_nat (order ! k)"
      "rtp_payload p = pay (order ! k)"
    using dg [OF mem] by (auto simp: carries_def)
  obtain c' where c': "c \<le> c'" "arrived s0 pay order (Suc k) (fst (jitter_push jb p)) c'"
      "snd (jitter_push jb p) = map pay [c..<c']" "capacity (fst (jitter_push jb p)) = capacity jb"
    using arrived_step [OF a(1) d(1) _ _ kn p(2,3)] d(2) a(2) by auto
  have "{..<c'} \<subseteq> set order"
    using c'(2) set_take_subset [of "Suc k" order] unfolding arrived_def by blast
  then have "c' \<le> n" using d(1) by (auto simp: displaced_def)
  then have "even (length (pay j))" if "j \<in> set [c..<c']" for j using dg [of j] that by (simp add: carries_def)
  note ev = this
  have ext: "extend_pcm (concat (map (byteswap \<circ> pay) [0..<c])) (map pay [c..<c']) =
      (concat (map (byteswap \<circ> pay) [0..<c']), None)"
    using c'(1) upt_add_eq_append [of 0 c "c' - c"] extend_pcm_even [of "[c..<c']" pay, OF ev] by simp
  have "drop k order = order ! k # drop (Suc k) order" using kn len by (simp add: Cons_nth_drop_Suc)
  then have "drain_rtp jb (concat (map (byteswap \<circ> pay) [0..<c])) (map dg (drop k order)) =
      drain_rtp (fst (jitter_push jb p)) (concat (map (byteswap \<circ> pay) [0..<c'])) (map dg (drop (Suc k) order))"
    using p(1) parse_rtp_nonempty [OF p(1)] c'(3) ext by (simp add: case_prod_unfold Let_def)
  then show ?case using eq c' a(2) by (intro exI [of _ "fst (jitter_push jb p)"] exI [of _ c']) (simp add: comp_def)
qed

lemma collect_displaced:
  assumes d: "displaced n d order" "d \<le> 8" and dg: "\<And>j. j < n \<Longrightarrow> carries s0 (pay j) (dg j) j"
  shows "collect_rtp (map dg order) = Inr (concat (map (byteswap \<circ> pay) [0..<n]))"
proof (cases "n = 0")
  case True
  then have "order = []" using displaced_length [OF d(1)] by simp
  then show ?thesis using True by (simp add: collect_rtp_def jitter_flush_def JitterBuffer_def)
next
  case False
  let ?jb = "JitterBuffer 8\<lparr>next_seq := Some s0\<rparr>"
  obtain js where order: "order = 0 # js"
    using False d(1) displaced_length [OF d(1)] by (cases order) (auto simp: displaced_def)
  obtain p where p: "parse_rtp (sock_recv 4096 (dg 0)) = Inr p" "rtp_sequence p = s0"
    using dg [of 0] False by (auto simp: carries_def)
  have "jitter_push (JitterBuffer 8) p = jitter_push ?jb p"
    using push_first [of "JitterBuffer 8" p] p(2) by (simp add: JitterBuffer_def)
  then have first: "drain_rtp (JitterBuffer 8) [] (map dg order) = drain_rtp ?jb [] (map dg order)"
    using p(1) parse_rtp_nonempty [OF p(1)] by (simp add: order Let_def)
  have "arrived s0 pay order 0 ?jb 0" using tracks_init [where cap = 8 and c = 0 and pay = pay] by (simp add: arrived_def)
  then obtain jb c where r: "arrived s0 pay order n jb c"
      "drain_rtp ?jb [] (map dg order) =
        drain_rtp jb (concat (map (byteswap \<circ> pay) [0..<c])) (map dg (drop n order))"
    using drain_displaced [OF d dg, where ?jb0.0 = ?jb and k = n] by (auto simp: JitterBuffer_def comp_def)
  have all: "set (take n order) = {..<n}" using d(1) displaced_length [OF d(1)] by (simp add: displaced_def)
  have c: "c = n" using r(1) unfolding arrived_def all by auto
  then have "holds s0 pay (buffered jb) {}" using r(1) unfolding arrived_def all tracks_def by auto
  then have "buffered jb = []" using holds_keys [of s0 pay "buffered jb" "{}"] by simp
  then show ?thesis
    using first r(2) c displaced_length [OF d(1)] by (simp add: collect_rtp_def jitter_flush_def)
qed

section \<open>The sender\<close>

lemma chunk_bytes_concat: "0 < n \<Longrightarrow> concat (chunk_bytes n data) = data"
proof (induction n data rule: chunk_bytes.induct)
  case (1 n data)
  then show ?case by (subst chunk_bytes.simps) auto
qed

lemma chunk_bytes_even:
  "even n \<Longrightarrow> even (length data) \<Longrightarrow> c \<in> set (chunk_bytes n data) \<Longrightarrow> even (length c)"
proof (induction n data rule: chunk_bytes.induct)
  case (1 n data)
  then show ?case
    by (subst (asm) (2) chunk_bytes.simps) (auto split: if_splits simp: min_def)
qed

lemma chunk_bytes_length: "c \<in> set (chunk_bytes n data) \<Longrightarrow> length c \<le> n"
proof (induction n data rule: chunk_bytes.induct)
  case (1 n data)
  then show ?case by (subst (asm) (2) chunk_bytes.simps) (auto split: if_splits)
qed

lemma length_rtp_header [simp]: "length (rtp_header seq ts ssrc) = 12"
  by (simp add: rtp_header_def pack16_def pack32_def)

lemma send_packets_eq:
  "(\<And>c. c \<in> set chunks \<Longrightarrow> even (length c)) \<Longrightarrow>
     send_packets spp ssrc seq ts chunks =
       Inr (map (\<lambda>i. rtp_header (seq + i) (ts + i * spp) ssrc @ byteswap (chunks ! i)) [0..<length chunks])"
proof (induction chunks arbitrary: seq ts)
  case (Cons c chunks)
  have "[0..<length (c # chunks)] = 0 # map Suc [0..<length chunks]"
    by (simp add: map_Suc_upt upt_conv_Cons del: upt_Suc)
  then show ?case using Cons by (simp add: swap_bytes_def comp_def algebra_simps)
qed simp

lemma sent_collected:
  assumes "even (length pcm)" and "1 \<le> packet_ms \<and> packet_ms \<le> 127" and "send_rtp pcm ssrc packet_ms = Inr sent"
    and "displaced (length sent) d order" and "d \<le> 8"
  shows "collect_rtp (map (\<lambda>i. sent ! i) order) = Inr pcm"
proof -
  let ?spp = "16000 * packet_ms div 1000"
  let ?chunks = "chunk_bytes (?spp * 2) pcm"
  have spp: "?spp = 16 * packet_ms" by simp
  have pos: "0 < ?spp * 2" using assms(2) spp by simp
  have ev: "even (length c)" if "c \<in> set ?chunks" for c
    using chunk_bytes_even [OF _ assms(1) that] by simp
  have sent: "sent = map (\<lambda>i. rtp_header i (i * ?spp) ssrc @ byteswap (?chunks ! i)) [0..<length ?chunks]"
    using assms(1,3) pos send_packets_eq [of ?chunks ?spp ssrc 0 0] ev
    by (simp add: send_rtp_def Let_def del: spp)
  have small: "length c \<le> 4084" if "c \<in> set ?chunks" for c
    using chunk_bytes_length [OF that] assms(2) by simp
  have "carries 0 (byteswap (?chunks ! j)) (sent ! j) j" if "j < length sent" for j
    using that ev [of "?chunks ! j"] small [of "?chunks ! j"] sent
    by (auto simp: carries_def parse_rtp_header sock_recv_def)
  then have "collect_rtp (map (\<lambda>i. sent ! i) order) =
      Inr (concat (map (byteswap \<circ> (\<lambda>j. byteswap (?chunks ! j))) [0..<length sent]))"
    by (rule collect_displaced [OF assms(4,5)])
  also have "map (byteswap \<circ> (\<lambda>j. byteswap (?chunks ! j))) [0..<length sent] = map (\<lambda>j. ?chunks ! j) [0..<length ?chunks]"
    using sent by (simp add: byteswap_involution comp_def)
  also have "\<dots> = ?chunks" by (rule map_nth)
  finally show ?thesis using chunk_bytes_concat [OF pos] by simp
qed

lemma send_rtp_succeeds:
  assumes "even (length pcm)" and "1 \<le> packet_ms"
  obtains sent where "send_rtp pcm ssrc packet_ms = Inr sent"
proof -
  let ?spp = "16000 * packet_ms div 1000"
  have "even (length c)" if "c \<in> set (chunk_bytes (?spp * 2) pcm)" for c
    using chunk_bytes_even [OF _ assms(1) that] by simp
  then show thesis
    using that assms send_packets_eq [of "chunk_bytes (?spp * 2) pcm" ?spp ssrc 0 0] by (simp add: send_rtp_def Let_def)
qed

section \<open>Properties\<close>

text \<open>
  C5. RTP end to end: the audio the simulator sends is exactly the audio the server collects,
  for any even-length audio, any packet duration from 1 to 127 milliseconds (a datagram of 12 +
  32 bytes per millisecond then fits into the 4096 bytes the server receives; the simulator's
  default is 20), any number of packets (so across wrap-arounds of the 16-bit sequence number),
  and any arrival order of all the packets in which the first packet comes first and no packet is
  more than eight places out of order.
\<close>

theorem rtp_roundtrip:
  assumes "even (length pcm)" and "1 \<le> packet_ms \<and> packet_ms \<le> 127" and "send_rtp pcm ssrc packet_ms = Inr sent"
    and "displaced (length sent) d order" and "d \<le> 8"
  shows "collect_rtp (map (\<lambda>i. sent ! i) order) = Inr pcm"
  using assms by (rule sent_collected)

theorem rtp_roundtrip_witness:
  "collect_rtp (map (\<lambda>i. [rtp_header 0 0 7 @ [2, 1]] ! i) [0]) = Inr [1, 2]"
proof (rule rtp_roundtrip [of "[1, 2]" 20 7 _ 0])
  show "send_rtp [1, 2] 7 20 = Inr [rtp_header 0 0 7 @ [2, 1]]"
    by (simp add: send_rtp_def chunk_bytes.simps swap_bytes_def)
qed (simp_all add: displaced_def lessThan_Suc)

text \<open>
  C36. The reorder buffer stays bounded and ahead: whatever packet arrives, at most \<open>capacity\<close>
  packets are held, no sequence number twice, and each of them lies strictly after the number
  waited for, by at most half the number space.
\<close>

theorem jitter_push_invariant:
  assumes "jb_ok jb"
  shows "jb_ok (fst (jitter_push jb p))"
  using assms by (rule jitter_push_ok)

theorem jitter_push_invariant_witness:
  "jb_ok (fst (jitter_push (JitterBuffer 8) \<lparr>rtp_sequence = 65535, rtp_timestamp = 0, rtp_ssrc = 0,
     rtp_payload_type = 96, rtp_marker = False, rtp_payload = [1, 2]\<rparr>))"
  by (rule jitter_push_invariant) (simp add: jb_ok_def JitterBuffer_def)

text \<open>
  A packet with an odd payload is not skipped like other malformed packets: as the first
  packet of a turn it ends the collection at once, with no audio, whatever follows it.
\<close>

theorem odd_payload_ends_turn:
  assumes "parse_rtp (sock_recv 4096 data) = Inr p" and "odd (length (rtp_payload p))"
  shows "collect_rtp (data # datagrams) = Inr []"
proof -
  have "jitter_push (JitterBuffer 8) p = (JitterBuffer 8\<lparr>next_seq := Some (rtp_sequence p + 1)\<rparr>, [rtp_payload p])"
    by (simp add: jitter_push_def JitterBuffer_def seq_less_def pop_run.simps)
  then have "drain_rtp (JitterBuffer 8) [] (data # datagrams) =
      (JitterBuffer 8\<lparr>next_seq := Some (rtp_sequence p + 1)\<rparr>, [], True)"
    using assms parse_rtp_nonempty [OF assms(1)] by (simp add: l16_be_to_pcm16_le_def Let_def)
  then show ?thesis by (simp add: collect_rtp_def)
qed

theorem odd_payload_ends_turn_witness:
  "collect_rtp [rtp_header 0 0 7 @ [1, 2, 3], rtp_header 1 320 7 @ [1, 2]] = Inr []"
proof (rule odd_payload_ends_turn)
  show "parse_rtp (sock_recv 4096 (rtp_header 0 0 7 @ [1, 2, 3])) =
      Inr \<lparr>rtp_sequence = 0, rtp_timestamp = 0, rtp_ssrc = 7, rtp_payload_type = 96, rtp_marker = False,
        rtp_payload = [1, 2, 3]\<rparr>"
    by (simp add: sock_recv_def parse_rtp_header)
qed simp

text \<open>
  The bound on the packet duration is needed: audio of more than 4084 bytes sent as one packet (so
  of at least 128 milliseconds) arrives cut off after 4084 bytes, and nothing reports the loss.
\<close>

lemma byteswap_take: "even n \<Longrightarrow> byteswap (take n b) = take n (byteswap b)"
proof (induction b arbitrary: n rule: byteswap.induct)
  case (1 a b rest)
  then show ?case by (cases n; cases "n - 1") auto
qed (simp_all add: take_Cons')

lemma chunk_bytes_single: "data \<noteq> [] \<Longrightarrow> length data \<le> n \<Longrightarrow> chunk_bytes n data = [data]"
  by (cases n) (auto simp: chunk_bytes.simps)

theorem long_packet_truncated:
  assumes "even (length pcm)" and "4084 \<le> length pcm" and "length pcm \<le> 32 * packet_ms"
    and "send_rtp pcm ssrc packet_ms = Inr sent"
  shows "collect_rtp sent = Inr (take 4084 pcm)"
proof -
  have "pcm \<noteq> []" using assms(2) by auto
  then have "chunk_bytes (16000 * packet_ms div 1000 * 2) pcm = [pcm]"
    using assms(3) by (intro chunk_bytes_single) auto
  then have sent: "sent = [rtp_header 0 0 ssrc @ byteswap pcm]"
    using assms(1-4) by (auto simp: send_rtp_def swap_bytes_def split: if_splits)
  have "carries 0 (take 4084 (byteswap pcm)) (sent ! 0) 0"
    using assms(1,2) sent by (simp add: carries_def sock_recv_def parse_rtp_header)
  then have "collect_rtp (map (\<lambda>i. sent ! i) [0]) = Inr (concat (map (byteswap \<circ> (\<lambda>j. take 4084 (byteswap pcm))) [0..<1]))"
    by (intro collect_displaced [where d = 0]) (auto simp: displaced_def lessThan_Suc)
  then show ?thesis using sent by (simp add: byteswap_take byteswap_involution)
qed

theorem long_packet_truncated_witness:
  "collect_rtp [rtp_header 0 0 7 @ byteswap (replicate 4096 1)] = Inr (take 4084 (replicate 4096 1))"
proof (rule long_packet_truncated)
  show "send_rtp (replicate 4096 1) 7 128 = Inr [rtp_header 0 0 7 @ byteswap (replicate 4096 1)]"
    by (simp add: send_rtp_def chunk_bytes_single swap_bytes_def)
qed simp_all

end
