(* ===== verification/Mrcp_Server.thy ===== *)
theory Mrcp_Server
  imports Mrcp_Messages Py_Stream Rtp Asr
begin

text \<open>
  One MRCPv2 session: the connection handler of \<open>adapters/mrcp/server.py\<close> and the simulator that
  drives it, \<open>recognize_once\<close> of \<open>adapters/mrcp/client_sim.py\<close>. A connection is the list of messages written and how the handler ended: the writer closed, an exception
  that escaped with the connection left open, or still waiting for the peer.
\<close>

section \<open>The server\<close>

definition read_request :: "tcp_reader \<Rightarrow> mrcp_request read" where
  "read_request r =
     bindR (readuntil CRLF r) (\<lambda>start r.
       (case bytes_tokens start of
          version # len # _ \<Rightarrow>
            if version \<noteq> u ''MRCP/2.0'' then Some (Inl (MrcpParseError ''bad start line''))
            else bindR (lift_read (parse_int ascii_space len) r) (\<lambda>message_length r.
                 bindR (readexactly (message_length - int (length start)) r) (\<lambda>rest r.
                   lift_read (parse_request (start @ rest)) r))
        | _ \<Rightarrow> Some (Inl (MrcpParseError ''bad start line''))))"

type_synonym connection = "bytes list \<times> conn_end"

text \<open>\<open>_send\<close>: write a message and go on; an exception while building it ends the handler.\<close>

definition send :: "bytes result option \<Rightarrow> connection option \<Rightarrow> connection option" where
  "send payload k =
     (case payload of
        None \<Rightarrow> None
      | Some (Inl e) \<Rightarrow> Some ([], Raised e)
      | Some (Inr b) \<Rightarrow> map_option (\<lambda>(out, ending). (b # out, ending)) k)"

definition emit_complete :: "int \<Rightarrow> pystr \<Rightarrow> pyfloat \<Rightarrow> bytes result option" where
  "emit_complete request_id text confidence =
     (case nlsml_transcript text confidence of
        Inl e \<Rightarrow> Some (Inl e)
      | Inr body \<Rightarrow> serialize_event
          \<lparr>ev_event_name = u ''RECOGNITION-COMPLETE'', ev_request_id = request_id,
           ev_request_state = u ''COMPLETE'',
           ev_headers = [(u ''Completion-Cause'',
                          if text \<noteq> [] then u ''000 success'' else u ''001 no-input-timeout''),
                         (u ''Content-Type'', u ''application/nlsml+xml'')],
           ev_body = body\<rparr>)"

text \<open>
  \<open>_run_asr\<close>: 200 ms slices through the recogniser; the last final item counts.
\<close>

definition asr_slices :: "bytes \<Rightarrow> audio_chunk list" where
  "asr_slices pcm =
     map (\<lambda>(seq, c). \<lparr>ac_pcm16 = c, ac_sequence = seq\<rparr>) (enumerate 0 (chunk_bytes (16000 div 5 * 2) pcm))"

definition run_asr :: "asr_stream \<Rightarrow> bytes \<Rightarrow> (pystr \<times> pyfloat) result" where
  "run_asr asr pcm =
     (case asr (asr_slices pcm) of
        (partials, Some e) \<Rightarrow> Inl e
      | (partials, None) \<Rightarrow>
          (case rev (filter pt_is_final partials) of
             [] \<Rightarrow> Inr ([], 0)
           | final # _ \<Rightarrow> Inr (pt_text final, 1)))"

text \<open>
  The audio of the turn, given the datagrams the draining task reads. When it is still draining,
  the turn ends with the next byte of the control channel; with the peer gone the read of that
  byte raises; otherwise the turn times out, and what was collected is dropped.
\<close>

definition collect_turn :: "tcp_reader \<Rightarrow> bytes list \<Rightarrow> bytes result" where
  "collect_turn r datagrams =
     (if rd_pending r \<noteq> [] then collect_rtp datagrams
      else (case drain_rtp (JitterBuffer 8) [] datagrams of
              (_, pcm, True) \<Rightarrow> Inr pcm
            | (_, pcm, False) \<Rightarrow> if rd_eof r then Inl IncompleteReadError else Inr []))"

fun is_parse_error :: "exn \<Rightarrow> bool" where
  "is_parse_error (MrcpParseError _) = True"
| "is_parse_error _ = False"

definition status_response :: "int \<Rightarrow> int \<Rightarrow> string \<Rightarrow> bytes result option" where
  "status_response status request_id state =
     serialize_response \<lparr>resp_status_code = status, resp_request_id = request_id,
       resp_request_state = u state, resp_headers = [], resp_body = []\<rparr>"

definition start_of_input :: "int \<Rightarrow> bytes result option" where
  "start_of_input request_id =
     serialize_event \<lparr>ev_event_name = u ''START-OF-INPUT'', ev_request_id = request_id,
       ev_request_state = u ''IN-PROGRESS'', ev_headers = [], ev_body = []\<rparr>"

text \<open>The turn of an accepted request, from binding the RTP socket to the close.\<close>

definition serve_turn ::
  "asr_stream \<Rightarrow> unit result \<Rightarrow> int \<Rightarrow> tcp_reader \<Rightarrow> bytes list \<Rightarrow> connection option" where
  "serve_turn asr bind_rtp_socket rid reader datagrams =
     (case bind_rtp_socket of
        Inl e \<Rightarrow> Some ([], Raised e)
      | Inr _ \<Rightarrow>
          (case collect_turn reader datagrams of
             Inl e \<Rightarrow> Some ([], Raised e)
           | Inr pcm \<Rightarrow>
               if pcm = [] then send (emit_complete rid [] 0) (Some ([], Closed))
               else send (start_of_input rid)
                 (case run_asr asr pcm of
                    Inl e \<Rightarrow> Some ([], Raised e)
                  | Inr (text, confidence) \<Rightarrow>
                      send (emit_complete rid text confidence) (Some ([], Closed)))))"

definition handle_connection ::
  "asr_stream \<Rightarrow> unit result \<Rightarrow> tcp_reader \<Rightarrow> bytes list \<Rightarrow> connection option" where
  "handle_connection asr bind_rtp_socket reader datagrams =
     (case read_request reader of
        None \<Rightarrow> Some ([], Waiting)
      | Some (Inl e) \<Rightarrow> Some ([], if is_parse_error e then Closed else Raised e)
      | Some (Inr (request, reader)) \<Rightarrow>
          (let rid = req_request_id request
           in if req_method request \<noteq> u ''RECOGNIZE''
              then send (status_response 405 rid ''COMPLETE'') (Some ([], Closed))
              else send (status_response 200 rid ''IN-PROGRESS'')
                (serve_turn asr bind_rtp_socket rid reader datagrams)))"

section \<open>The simulator\<close>

definition drain_message_tail :: "bytes \<Rightarrow> tcp_reader \<Rightarrow> bytes read" where
  "drain_message_tail start r =
     (case bytes_tokens start of
        _ # len # _ \<Rightarrow>
          bindR (lift_read (parse_int ascii_space len) r) (\<lambda>message_length r.
            readexactly (message_length - int (length start)) r)
      | _ \<Rightarrow> Some (Inl (MrcpParseError ''bad MRCP start line'')))"

definition read_message :: "tcp_reader \<Rightarrow> bytes read" where
  "read_message r =
     bindR (readuntil CRLF r) (\<lambda>line r. bindR (drain_message_tail line r) (\<lambda>tail r. Some (Inr (line @ tail, r))))"

record recognize_result =
  rr_start_of_input_seen :: bool
  rr_complete :: mrcp_event
  rr_raw_events :: "mrcp_event list"

text \<open>
  The event loop. Every round takes at least a line end off the stream; a stream that runs dry
  before the completion event raises or waits.
\<close>

lemma read_message_shorter:
  assumes "read_message r = Some (Inr (msg, r'))"
  shows "length (rd_pending r') < length (rd_pending r)"
proof -
  have "rd_pending r \<noteq> []" if "py_find CRLF (rd_pending r) = Some i" for i
    using that by (cases "rd_pending r") (auto simp: CRLF_def)
  then show ?thesis
    using assms
    by (auto simp: read_message_def bindR_def readuntil_def drain_message_tail_def readexactly_def CRLF_def
        lift_read_def bindE_def split: option.splits sum.splits list.splits prod.splits if_splits)
qed

function read_events ::
  "mrcp_event list \<Rightarrow> bool \<Rightarrow> tcp_reader \<Rightarrow> recognize_result read" where
  "read_events evs start_seen r =
     (case read_message r of
        None \<Rightarrow> None
      | Some (Inl e) \<Rightarrow> Some (Inl e)
      | Some (Inr (msg, r')) \<Rightarrow>
          (case parse_event_frame msg of
             Inl e \<Rightarrow> Some (Inl e)
           | Inr event \<Rightarrow>
               (let evs = evs @ [event]
                in if ev_event_name event = u ''START-OF-INPUT'' then read_events evs True r'
                   else if ev_event_name event = u ''RECOGNITION-COMPLETE''
                   then Some (Inr (\<lparr>rr_start_of_input_seen = start_seen, rr_complete = event,
                                    rr_raw_events = evs\<rparr>, r'))
                   else read_events evs start_seen r')))"
  by pat_completeness auto
termination
  by (relation "measure (\<lambda>(_, _, r). length (rd_pending r))") (auto dest: read_message_shorter)

declare read_events.simps [simp del]

text \<open>
  \<open>recognize_once\<close>: what the simulator writes first, the datagrams it sends once the server has
  acknowledged, and what it makes of the server's output.
\<close>

definition client_request :: "bytes result option" where
  "client_request =
     serialize_request (u ''RECOGNIZE'') 1
       [(u ''Channel-Identifier'', u ''sandroid-sim@speechrecog''),
        (u ''Content-Type'', u ''text/uri-list''),
        (u ''Content-Length'', u ''23'')]
       (ascii (u ''builtin:dictation'') @ CRLF)"

definition recognize_once ::
  "bytes \<Rightarrow> 32 word \<Rightarrow> nat \<Rightarrow> tcp_reader \<Rightarrow> (bytes list \<times> recognize_result) read" where
  "recognize_once pcm ssrc packet_ms r =
     bindR (read_message r) (\<lambda>in_progress r.
     bindR (lift_read (send_rtp pcm ssrc packet_ms) r) (\<lambda>datagrams r.
     bindR (read_events [] False r) (\<lambda>res r. Some (Inr ((datagrams, res), r)))))"

section \<open>Reading what was serialised\<close>

lemma words_aux_snoc: "p d \<Longrightarrow> words_aux p acc (s @ [d]) = words_aux p acc s"
  by (induction s arbitrary: acc) auto

lemma words_strip: "words_by p (strip_by p s) = words_by p s"
proof -
  have tail: "words_by p (rev (dropWhile p (rev s))) = words_by p s" for s
    by (induction s rule: rev_induct) (auto simp: words_by_def words_aux_snoc)
  have "words_by p (dropWhile p s) = words_by p s" by (induction s) (auto simp: words_by_def)
  then show ?thesis by (simp add: strip_by_def tail)
qed

lemma codes_ascii: "(\<And>c. c \<in> set s \<Longrightarrow> c < 256) \<Longrightarrow> codes (ascii s) = s"
  by (induction s) auto

lemma codes_dec: "codes (ascii (dec n)) = dec n"
  using dec_digits digit_facts by (intro codes_ascii) (fastforce simp: is_digit_def)

lemma tokens_first_line:
  "\<exists>ts. bytes_tokens (MRCP_VERSION @ 32 # ascii (dec n) @ 32 # rest) = u ''MRCP/2.0'' # dec n # ts"
proof -
  have "codes MRCP_VERSION = u ''MRCP/2.0''" unfolding MRCP_VERSION_def by (rule codes_ascii) auto
  moreover have "words_by ascii_space (u ''MRCP/2.0'' @ 32 # s) = u ''MRCP/2.0'' # words_by ascii_space s" for s
    by (rule words_by_token) (auto simp: ascii_space_def)
  moreover have "words_by ascii_space (dec n @ 32 # s) = dec n # words_by ascii_space s" for s
    using dec_digits digit_not_space by (intro words_by_token) (auto simp: ascii_space_def)
  ultimately show ?thesis by (simp add: bytes_tokens_def words_strip codes_dec [unfolded map_map])
qed

lemma fits_reads:
  assumes "fits msg"
  obtains line tail ts where "msg = line @ tail"
    and "readuntil CRLF \<lparr>rd_pending = msg @ later, rd_eof = e\<rparr> = Some (Inr (line, \<lparr>rd_pending = tail @ later, rd_eof = e\<rparr>))"
    and "bytes_tokens line = u ''MRCP/2.0'' # dec (length msg) # ts"
proof -
  obtain line tail brest where line: "line = MRCP_VERSION @ 32 # ascii (dec (length msg)) @ 32 # brest"
    and b: "13 \<notin> set brest" and msg: "msg = line @ CRLF @ tail" and len: "length line \<le> 65536"
    using assms unfolding fits_def first_line_def by blast
  have "13 \<notin> set (ascii (dec n))" for n
    using text_line_bytes [of "dec n" "ascii (dec n)"] utf8_encode_dec [of n] wire_token_text [OF wire_token_dec [of n]]
    by (simp add: text_line_def)
  moreover have "13 \<notin> set MRCP_VERSION" by (simp add: MRCP_VERSION_def byte_of_def)
  ultimately have "13 \<notin> set line" using b line by simp
  then have "py_find CRLF (line @ CRLF @ tail @ later) = Some (length line)"
    by (simp add: CRLF_def py_find_skip)
  then have "readuntil CRLF \<lparr>rd_pending = msg @ later, rd_eof = e\<rparr> =
      Some (Inr (line @ CRLF, \<lparr>rd_pending = tail @ later, rd_eof = e\<rparr>))"
    using len by (simp add: readuntil_def msg CRLF_def)
  moreover obtain ts where "bytes_tokens (line @ CRLF) = u ''MRCP/2.0'' # dec (length msg) # ts"
    using tokens_first_line [of "length msg" "brest @ CRLF"] line by auto
  ultimately show thesis using msg by (intro that [of "line @ CRLF" tail ts]) simp_all
qed

lemma read_rest:
  "readexactly (int (length (line @ tail)) - int (length line)) \<lparr>rd_pending = tail @ later, rd_eof = e\<rparr> =
     Some (Inr (tail, \<lparr>rd_pending = later, rd_eof = e\<rparr>))"
  by (simp add: readexactly_def)

lemma parse_dec: "parse_int ascii_space (dec n) = Inr (int n)"
  by (rule dec_parse) (rule digit_not_space)

lemma read_message_fits:
  assumes "fits msg"
  shows "read_message \<lparr>rd_pending = msg @ later, rd_eof = e\<rparr> = Some (Inr (msg, \<lparr>rd_pending = later, rd_eof = e\<rparr>))"
proof -
  from assms obtain line tail ts where "msg = line @ tail"
    "readuntil CRLF \<lparr>rd_pending = msg @ later, rd_eof = e\<rparr> = Some (Inr (line, \<lparr>rd_pending = tail @ later, rd_eof = e\<rparr>))"
    "bytes_tokens line = u ''MRCP/2.0'' # dec (length msg) # ts" by (rule fits_reads)
  then show ?thesis
    using read_rest [of line tail later e]
    by (simp add: read_message_def drain_message_tail_def parse_dec lift_read_def)
qed

lemma read_request_fits:
  assumes "fits msg" and "parse_request msg = Inr rq"
  shows "read_request \<lparr>rd_pending = msg @ later, rd_eof = e\<rparr> = Some (Inr (rq, \<lparr>rd_pending = later, rd_eof = e\<rparr>))"
proof -
  from assms(1) obtain line tail ts where "msg = line @ tail"
    "readuntil CRLF \<lparr>rd_pending = msg @ later, rd_eof = e\<rparr> = Some (Inr (line, \<lparr>rd_pending = tail @ later, rd_eof = e\<rparr>))"
    "bytes_tokens line = u ''MRCP/2.0'' # dec (length msg) # ts" by (rule fits_reads)
  then show ?thesis
    using read_rest [of line tail later e] assms(2)
    by (simp add: read_request_def parse_dec lift_read_def)
qed

section \<open>The messages of the server\<close>

lemma status_response_sent:
  assumes "wire_token (u state)"
  shows "\<exists>msg. status_response status rid state = Some (Inr msg) \<and>
    (length (int_str status) + length (int_str rid) + length state \<le> 1000 \<longrightarrow> fits msg)"
proof -
  let ?third = "int_str status" and ?fourth = "int_str rid @ 32 # u state"
  obtain bt where bt: "utf8_encode ?third = Inr bt" "37 \<notin> set bt"
    using wire_token_int_str by (rule wire_token_bytes)
  obtain bi where bi: "utf8_encode (int_str rid) = Inr bi" "37 \<notin> set bi"
    using wire_token_int_str by (rule wire_token_bytes)
  obtain bs where bs: "utf8_encode (u state) = Inr bs" "37 \<notin> set bs"
    using assms by (rule wire_token_bytes)
  have "utf8_encode ?fourth = Inr (bi @ 32 # bs)" "37 \<notin> set (bi @ 32 # bs)"
    using bi(2) bs(2) by (simp_all add: utf8_encode_append utf8_encode_low_Cons bi(1) bs(1) byte_of_def)
  moreover have "list_all wire_header (merged_headers [] [])" by (simp add: merged_headers_def)
  ultimately obtain msg lines where msg: "serialize ?third ?fourth [] [] = Some (Inr msg)"
    and lines: "list_all2 (\<lambda>w b. utf8_encode w = Inr b)
      (start_line (length msg) (?third @ 32 # ?fourth) # map header_line (merged_headers [] [])) lines"
    and eq: "msg = py_join CRLF lines @ CRLF @ CRLF @ []"
    using serialize_wire [OF bt] by blast
  have "fits msg" if "length ?third + length (int_str rid) + length state \<le> 1000"
  proof (rule joined_fits [OF lines eq])
    show "text_line (?third @ 32 # ?fourth)"
      using wire_token_text [OF wire_token_int_str [of status]] wire_token_text [OF wire_token_int_str [of rid]]
        wire_token_text [OF assms] by (simp add: text_line_def is_scalar_def)
  qed (use that in \<open>simp_all add: merged_headers_def\<close>)
  then show ?thesis using msg by (auto simp: status_response_def serialize_response_def)
qed

lemma server_tokens:
  "wire_token (u ''IN-PROGRESS'')" "wire_token (u ''COMPLETE'')" "wire_token (u ''START-OF-INPUT'')"
  "wire_token (u ''RECOGNITION-COMPLETE'')" "wire_token (u ''RECOGNIZE'')"
  by (simp_all add: wire_token_def is_scalar_def is_space_def)

definition start_event :: "int \<Rightarrow> mrcp_event" where
  "start_event rid = \<lparr>ev_event_name = u ''START-OF-INPUT'', ev_request_id = rid,
     ev_request_state = u ''IN-PROGRESS'', ev_headers = [], ev_body = []\<rparr>"

definition complete_headers :: "pystr \<Rightarrow> headers" where
  "complete_headers text =
     [(u ''Completion-Cause'', if text \<noteq> [] then u ''000 success'' else u ''001 no-input-timeout''),
      (u ''Content-Type'', u ''application/nlsml+xml'')]"

definition complete_event :: "int \<Rightarrow> pystr \<Rightarrow> bytes \<Rightarrow> mrcp_event" where
  "complete_event rid text body = \<lparr>ev_event_name = u ''RECOGNITION-COMPLETE'', ev_request_id = rid,
     ev_request_state = u ''COMPLETE'', ev_headers = complete_headers text, ev_body = body\<rparr>"

lemma wire_start: "wire_event (start_event rid)"
  by (simp add: wire_event_def start_event_def server_tokens [simplified])

lemma wire_complete: "wire_event (complete_event rid text body)"
  using server_tokens(2,4)
  by (simp add: wire_event_def complete_event_def complete_headers_def wire_header_def wf_dict_def
      is_scalar_def is_space_def strip_by_def)

lemma start_of_input_sent:
  "\<exists>msg. start_of_input rid = Some (Inr msg) \<and> parse_event_frame msg = Inr (start_event rid) \<and>
     (length (int_str rid) \<le> 1000 \<longrightarrow> fits msg)"
proof -
  have "start_of_input rid = serialize_event (start_event rid)" by (simp add: start_of_input_def start_event_def)
  moreover have "merged_headers (ev_headers (start_event rid)) (ev_body (start_event rid)) = []"
    by (simp add: merged_headers_def start_event_def)
  then have "event_small (start_event rid)" if "length (int_str rid) \<le> 1000"
    using that by (simp add: event_small_def start_event_def)
  moreover have "start_event rid\<lparr>ev_headers := []\<rparr> = start_event rid" by (simp add: start_event_def)
  ultimately show ?thesis using event_survives [OF wire_start [of rid]]
    by (metis \<open>merged_headers (ev_headers (start_event rid)) (ev_body (start_event rid)) = []\<close>)
qed

lemma escape_length: "length (nlsml_escape s) \<le> 5 * length s"
  by (induction s) (auto simp: nlsml_escape_Cons nlsml_escape_Nil)

lemma nlsml_length:
  assumes "nlsml_transcript text confidence = Inr body"
  shows "length body \<le> 4 * (300 + length (fmt2 confidence) + 5 * length text)"
  using utf8_encode_length [OF assms [unfolded nlsml_transcript_def]] escape_length [of "text"]
  by (simp add: nlsml_head_def nlsml_tail_def)

lemma complete_event_small:
  assumes "length (int_str rid) \<le> 1000" and "length body < 10 ^ 16"
  shows "event_small (complete_event rid text body)"
proof -
  have "length (dec (length body)) \<le> length body div 10 + 1" by (rule length_dec_div)
  then have "sum_list (map (\<lambda>w. 4 * length w + 2) (map header_line (merged_headers (complete_headers text) body))) \<le>
      1000 + 4 * (length body div 10 + 1)"
    by (simp add: merged_headers_def complete_headers_def header_line_def dput_new)
  then show ?thesis using assms
    by (simp add: event_small_def complete_event_def)
qed

lemma emit_complete_sent:
  assumes "list_all is_scalar text"
  shows "\<exists>msg body. emit_complete rid text confidence = Some (Inr msg) \<and>
    parse_event_frame msg =
      Inr (complete_event rid text body\<lparr>ev_headers := merged_headers (complete_headers text) body\<rparr>) \<and>
    bindE (utf8_decode body) (\<lambda>xml. Inr (xml_element ''instance'' xml)) = Inr (Some text) \<and>
    (length (int_str rid) \<le> 1000 \<longrightarrow> length (fmt2 confidence) + length text < 10 ^ 14 \<longrightarrow> fits msg)"
proof -
  obtain body where body: "nlsml_transcript text confidence = Inr body"
    "bindE (utf8_decode body) (\<lambda>xml. Inr (xml_element ''instance'' xml)) = Inr (Some text)"
    using nlsml_reads_back [OF assms] by blast
  have ev: "emit_complete rid text confidence = serialize_event (complete_event rid text body)"
    by (simp add: emit_complete_def body(1) complete_event_def complete_headers_def)
  obtain msg where msg: "serialize_event (complete_event rid text body) = Some (Inr msg)"
    "parse_event_frame msg =
      Inr (complete_event rid text body\<lparr>ev_headers := merged_headers (complete_headers text) body\<rparr>)"
    "event_small (complete_event rid text body) \<longrightarrow> fits msg"
    using event_survives [OF wire_complete [of rid "text" body]] by (auto simp: complete_event_def)
  have "fits msg" if "length (int_str rid) \<le> 1000" "length (fmt2 confidence) + length text < 10 ^ 14"
  proof -
    have "length body < 10 ^ 16" using nlsml_length [OF body(1)] that(2) by simp
    then show ?thesis using msg(3) complete_event_small [OF that(1)] by blast
  qed
  then show ?thesis using ev msg(1,2) body(2) by auto
qed

section \<open>The handler\<close>

lemma send_simps [simp]:
  "send (Some (Inr b)) (Some (out, ending)) = Some (b # out, ending)"
  "send (Some (Inl e)) k = Some ([], Raised e)"
  by (simp_all add: send_def)

lemma emit_complete_returns:
  "(\<exists>e. emit_complete rid text confidence = Some (Inl e)) \<or> (\<exists>msg. emit_complete rid text confidence = Some (Inr msg))"
proof (cases "nlsml_transcript text confidence")
  case (Inl e)
  then show ?thesis by (simp add: emit_complete_def)
next
  case (Inr body)
  then have "emit_complete rid text confidence = serialize_event (complete_event rid text body)"
    by (simp add: emit_complete_def complete_event_def complete_headers_def)
  then show ?thesis using event_survives [OF wire_complete [of rid "text" body]] by auto
qed

text \<open>
  The turn of an accepted request, after the acknowledgement: it either completes, with the
  start event before the completion event when there was audio, or it ends in an exception.
\<close>

inductive turn_log :: "int \<Rightarrow> bytes list \<Rightarrow> conn_end \<Rightarrow> bool" for rid where
  failed: "turn_log rid [] (Raised e)"
| no_input: "emit_complete rid [] 0 = Some (Inr done_msg) \<Longrightarrow> turn_log rid [done_msg] Closed"
| asr_failed: "start_of_input rid = Some (Inr start) \<Longrightarrow> turn_log rid [start] (Raised e)"
| recognised: "start_of_input rid = Some (Inr start) \<Longrightarrow>
    emit_complete rid text confidence = Some (Inr done_msg) \<Longrightarrow> turn_log rid [start, done_msg] Closed"

lemma turn_logs:
  "\<exists>out ending. serve_turn asr bind_rtp rid r datagrams = Some (out, ending) \<and> turn_log rid out ending"
proof (cases bind_rtp)
  case (Inl e)
  then show ?thesis by (auto simp: serve_turn_def intro: failed)
next
  case bound: (Inr _)
  show ?thesis
  proof (cases "collect_turn r datagrams")
    case (Inl e)
    then show ?thesis using bound by (auto simp: serve_turn_def intro: failed)
  next
    case pcm: (Inr pcm)
    obtain start where start: "start_of_input rid = Some (Inr start)" using start_of_input_sent by blast
    show ?thesis
    proof (cases "pcm = []")
      case True
      then show ?thesis
        using bound pcm emit_complete_returns [of rid "[]" 0] by (auto simp: serve_turn_def intro: failed no_input)
    next
      case audio: False
      show ?thesis
      proof (cases "run_asr asr pcm")
        case (Inl e)
        then show ?thesis using bound pcm audio start by (auto simp: serve_turn_def intro: asr_failed)
      next
        case (Inr tc)
        then show ?thesis
          using bound pcm audio start emit_complete_returns [of rid "fst tc" "snd tc"]
          by (cases tc) (auto simp: serve_turn_def intro: asr_failed recognised)
      qed
    qed
  qed
qed

lemma run_asr_contract:
  assumes "asr_backend asr" and "asr (asr_slices pcm) = (ps, None)"
  shows "run_asr asr pcm = Inr (pt_text (last ps), 1)"
  using asr_backend.finals_of_stream [OF assms(1), of "asr_slices pcm"] assms(2) by (simp add: run_asr_def)

lemma client_request_accepted:
  "\<exists>request rq. client_request = Some (Inr request) \<and> parse_request request = Inr rq \<and>
     req_method rq = u ''RECOGNIZE'' \<and> req_request_id rq = 1 \<and> fits request"
proof -
  let ?hs = "[(u ''Channel-Identifier'', u ''sandroid-sim@speechrecog''), (u ''Content-Type'', u ''text/uri-list''),
    (u ''Content-Length'', u ''23'')]"
  have "list_all wire_header ?hs"
    by (simp add: wire_header_def is_scalar_def is_space_def strip_by_def)
  then obtain block where block: "header_block ?hs = Inr block"
    "length block \<le> sum_list (map (\<lambda>w. 4 * length w + 2) (map header_line ?hs))" by (rule header_block_total)
  have "length (u ''RECOGNIZE'' @ 32 # int_str 1) \<le> 20" by (simp add: int_str_def dec.simps)
  moreover have "length block \<le> 10000" using block(2) by (simp add: header_line_def)
  ultimately show ?thesis
    using request_loses_headers [OF server_tokens(5) block(1), of 1 "ascii (u ''builtin:dictation'') @ CRLF"]
    by (auto simp: client_request_def CRLF_def)
qed

section \<open>Properties\<close>

text \<open>
  C7. The protocol of a connection: whatever the peer sends, the handler comes to an end or waits
  for the peer, never looping; it answers nothing before a request has been read, a foreign
  method with one 405 response, and a recognition request with the 200 acknowledgement followed
  by the log of one turn; and it has sent the completion event whenever it closes an accepted
  connection.
\<close>

theorem connection_protocol:
  "\<exists>out ending. handle_connection asr bind_rtp reader datagrams = Some (out, ending) \<and>
     (case read_request reader of
        None \<Rightarrow> out = [] \<and> ending = Waiting
      | Some (Inl e) \<Rightarrow> out = [] \<and> ending = (if is_parse_error e then Closed else Raised e)
      | Some (Inr (request, _)) \<Rightarrow>
          if req_method request = u ''RECOGNIZE''
          then (\<exists>ack log. status_response 200 (req_request_id request) ''IN-PROGRESS'' = Some (Inr ack) \<and>
                  out = ack # log \<and> turn_log (req_request_id request) log ending)
          else (\<exists>refusal. status_response 405 (req_request_id request) ''COMPLETE'' = Some (Inr refusal) \<and>
                  out = [refusal] \<and> ending = Closed))"
proof (cases "read_request reader")
  case None
  then show ?thesis by (simp add: handle_connection_def)
next
  case (Some res)
  show ?thesis
  proof (cases res)
    case (Inl e)
    then show ?thesis using Some by (simp add: handle_connection_def)
  next
    case (Inr rq)
    let ?rid = "req_request_id (fst rq)"
    obtain ack where ack: "status_response 200 ?rid ''IN-PROGRESS'' = Some (Inr ack)"
      using status_response_sent [OF server_tokens(1)] by blast
    obtain refusal where refusal: "status_response 405 ?rid ''COMPLETE'' = Some (Inr refusal)"
      using status_response_sent [OF server_tokens(2)] by blast
    show ?thesis
    proof (cases "req_method (fst rq) = u ''RECOGNIZE''")
      case True
      then show ?thesis
        using Some Inr ack turn_logs [of asr bind_rtp ?rid "snd rq" datagrams]
        by (cases rq) (auto simp: handle_connection_def Let_def)
    next
      case False
      then show ?thesis using Some Inr refusal by (cases rq) (simp add: handle_connection_def)
    qed
  qed
qed

text \<open>
  C6. A recognition end to end: the simulator's request is accepted, the audio it sends (in
  packets of 1 to 127 milliseconds, all of which arrive, the first one first and none more than
  eight places out of order) reaches a recogniser that keeps its contract, the server closes after
  the completion event, and the simulator, reading what the server wrote, sees the start of input
  and a successful completion of its request whose NLSML body carries the recogniser's final
  transcript.
\<close>

theorem recognition_end_to_end:
  assumes "asr_backend asr" and "asr (asr_slices pcm) = (ps, None)" and "pt_text (last ps) = text"
    and "text \<noteq> []" and "list_all is_scalar text" and "length text < 10 ^ 13"
    and "pcm \<noteq> []" and "even (length pcm)" and "1 \<le> packet_ms \<and> packet_ms \<le> 127"
    and "send_rtp pcm ssrc packet_ms = Inr sent" and "displaced (length sent) d order" and "d \<le> 8"
  shows "\<exists>request out res rest xml.
    client_request = Some (Inr request) \<and>
    handle_connection asr (Inr ()) \<lparr>rd_pending = request @ [81], rd_eof = False\<rparr> (map ((!) sent) order) =
      Some (out, Closed) \<and>
    recognize_once pcm ssrc packet_ms \<lparr>rd_pending = concat out, rd_eof = True\<rparr> = Some (Inr ((sent, res), rest)) \<and>
    rr_start_of_input_seen res \<and> ev_request_id (rr_complete res) = 1 \<and>
    dget (ev_headers (rr_complete res)) (u ''Completion-Cause'') = Some (u ''000 success'') \<and>
    utf8_decode (ev_body (rr_complete res)) = Inr xml \<and> xml_element ''instance'' xml = Some text"
proof -
  let ?r = "\<lambda>b e. \<lparr>rd_pending = b, rd_eof = e\<rparr>"
  obtain request rq where request: "client_request = Some (Inr request)" "parse_request request = Inr rq"
    "req_method rq = u ''RECOGNIZE''" "req_request_id rq = 1" "fits request"
    using client_request_accepted by blast
  have id: "length (int_str 1) \<le> 10" "length (int_str 200) \<le> 10" by (simp_all add: int_str_def dec.simps)
  have "length (fmt2 1) \<le> 10" by (simp add: fmt2_def round_half_even_def dec.simps)
  note req = read_request_fits [OF request(5,2), of "[81]" False]
  have audio: "collect_turn (?r [81] False) (map ((!) sent) order) = Inr pcm"
    using sent_collected [OF assms(8-12)] by (simp add: collect_turn_def)
  note final = run_asr_contract [OF assms(1,2)]
  obtain ack where ack: "status_response 200 1 ''IN-PROGRESS'' = Some (Inr ack)" "fits ack"
    using status_response_sent [OF server_tokens(1), of 200 1] id by auto
  obtain start where start: "start_of_input 1 = Some (Inr start)" "parse_event_frame start = Inr (start_event 1)" "fits start"
    using start_of_input_sent [of 1] id by auto
  obtain msg body where done_msg: "emit_complete 1 text 1 = Some (Inr msg)"
    "parse_event_frame msg = Inr (complete_event 1 text body\<lparr>ev_headers := merged_headers (complete_headers text) body\<rparr>)"
    "bindE (utf8_decode body) (\<lambda>xml. Inr (xml_element ''instance'' xml)) = Inr (Some text)" "fits msg"
    using emit_complete_sent [OF assms(5), of 1 1] id \<open>length (fmt2 1) \<le> 10\<close> assms(6) by auto
  have "handle_connection asr (Inr ()) (?r (request @ [81]) False) (map ((!) sent) order) = Some ([ack, start, msg], Closed)"
    using req request(3,4) ack start done_msg audio final assms(3,7) by (simp add: handle_connection_def serve_turn_def)
  moreover have "\<exists>res rest. recognize_once pcm ssrc packet_ms (?r (concat [ack, start, msg]) True) = Some (Inr ((sent, res), rest)) \<and>
      rr_start_of_input_seen res \<and> rr_complete res = complete_event 1 text body\<lparr>ev_headers := merged_headers (complete_headers text) body\<rparr>"
    using read_message_fits [OF ack(2), of "start @ msg" True] read_message_fits [OF start(3), of msg True]
      read_message_fits [OF done_msg(4), of "[]" True] start(2) done_msg(2) assms(10)
    by (simp add: recognize_once_def lift_read_def read_events.simps start_event_def complete_event_def)
  then obtain res rest where "recognize_once pcm ssrc packet_ms (?r (concat [ack, start, msg]) True) = Some (Inr ((sent, res), rest))"
    "rr_start_of_input_seen res"
    "rr_complete res = complete_event 1 text body\<lparr>ev_headers := merged_headers (complete_headers text) body\<rparr>" by blast
  moreover have "dget (merged_headers (complete_headers text) body) (u ''Completion-Cause'') = Some (u ''000 success'')"
    using assms(4) by (simp add: merged_headers_def complete_headers_def)
  moreover obtain xml where "utf8_decode body = Inr xml" "xml_element ''instance'' xml = Some text"
    using done_msg(3) by (auto simp: result_simps)
  ultimately show ?thesis using request(1)
    by (intro exI [of _ request] exI [of _ "[ack, start, msg]"] exI [of _ res] exI [of _ rest] exI [of _ xml])
      (simp add: complete_event_def)
qed

theorem recognition_end_to_end_witness:
  "\<exists>request out res rest xml.
    client_request = Some (Inr request) \<and>
    handle_connection (stub_asr_stream (Some (u ''hi''))) (Inr ())
      \<lparr>rd_pending = request @ [81], rd_eof = False\<rparr> (map ((!) [rtp_header 0 0 7 @ [2, 1]]) [0]) = Some (out, Closed) \<and>
    recognize_once [1, 2] 7 20 \<lparr>rd_pending = concat out, rd_eof = True\<rparr> =
      Some (Inr (([rtp_header 0 0 7 @ [2, 1]], res), rest)) \<and>
    rr_start_of_input_seen res \<and> ev_request_id (rr_complete res) = 1 \<and>
    dget (ev_headers (rr_complete res)) (u ''Completion-Cause'') = Some (u ''000 success'') \<and>
    utf8_decode (ev_body (rr_complete res)) = Inr xml \<and> xml_element ''instance'' xml = Some (u ''hi'')"
proof (rule recognition_end_to_end)
  show "asr_backend (stub_asr_stream (Some (u ''hi'')))" by (rule stub_asr.asr_backend_axioms)
  show "stub_asr_stream (Some (u ''hi'')) (asr_slices [1, 2]) =
      ([\<lparr>pt_text = u ''hi'', pt_is_final = False, pt_start_ms = 0, pt_end_ms = 0\<rparr>,
        \<lparr>pt_text = u ''hi'', pt_is_final = True, pt_start_ms = 0, pt_end_ms = 0\<rparr>], None)"
    by (simp add: stub_asr_stream_def asr_slices_def chunk_bytes.simps stub_text_def yield_def)
  show "send_rtp [1, 2] 7 20 = Inr [rtp_header 0 0 7 @ [2, 1]]"
    by (simp add: send_rtp_def chunk_bytes.simps swap_bytes_def)
  show "displaced (length [rtp_header 0 0 7 @ [2, 1]]) 0 [0]" by (simp add: displaced_def lessThan_Suc)
qed (simp_all add: is_scalar_def)

end
