(* ===== verification/Audio.thy ===== *)
theory Audio
  imports Py_Wave
begin

text \<open>
  The audio front end, \<open>core/audio.py\<close>, and \<open>_wrap_pcm_as_wav\<close> of \<open>api/routes.py\<close>: decoding a WAV
  upload to 16 kHz mono samples. NumPy's arithmetic is written out: 16-bit samples are integers,
  the channel mean is exact and truncated, and the resampler computes in rounded float64.
  Shown here: what is wrapped is decoded unchanged, and resampling stays inside the array and
  inside the range of the samples.
\<close>

section \<open>Sample arrays\<close>

text \<open>\<open>np.frombuffer(..., dtype=np.int16)\<close> and \<open>tobytes\<close>.\<close>

fun int16_array :: "bytes \<Rightarrow> int list" where
  "int16_array (lo # hi # rest) = sint (word_cat hi lo :: 16 word) # int16_array rest"
| "int16_array _ = []"

definition int16_bytes :: "int \<Rightarrow> bytes" where
  "int16_bytes x = (let w = word_of_int x :: 16 word in [ucast w, ucast (drop_bit 8 w)])"

definition frombuffer_int16 :: "bytes \<Rightarrow> int list result" where
  "frombuffer_int16 b =
     (if odd (length b) then Inl (ValueError ''buffer size must be a multiple of element size'')
      else Inr (int16_array b))"

text \<open>\<open>astype(np.int16)\<close> of a float truncates towards zero and keeps sixteen bits.\<close>

definition trunc :: "pyfloat \<Rightarrow> int" where
  "trunc x = (if x < 0 then \<lceil>x\<rceil> else \<lfloor>x\<rfloor>)"

definition astype_int16 :: "pyfloat \<Rightarrow> int" where
  "astype_int16 x = sint (word_of_int (trunc x) :: 16 word)"

text \<open>\<open>reshape(-1, 2).mean(axis=1).astype(np.int16)\<close>\<close>

fun stereo_mean :: "int list \<Rightarrow> int list result" where
  "stereo_mean [] = Inr []"
| "stereo_mean [x] = Inl (ValueError ''cannot reshape array'')"
| "stereo_mean (a # b # rest) =
     bindE (stereo_mean rest) (\<lambda>ms. Inr (astype_int16 (fdiv (of_int a + of_int b) 2) # ms))"

section \<open>Resampling\<close>

text \<open>\<open>np.linspace(0.0, stop, num)\<close>\<close>

definition linspace :: "pyfloat \<Rightarrow> nat \<Rightarrow> pyfloat list" where
  "linspace stop num =
     (let divs = num - 1;
          step = fdiv stop (of_nat divs);
          y = map (\<lambda>i. if divs = 0 then fmul (of_nat i) stop
                       else if step = 0 then fmul (fdiv (of_nat i) (of_nat divs)) stop
                       else fmul (of_nat i) step) [0..<num]
      in if 1 < num then y[num - 1 := stop] else y)"

definition array_get :: "'a list \<Rightarrow> int \<Rightarrow> 'a result" where
  "array_get xs i =
     (if 0 \<le> i \<and> i < int (length xs) then Inr (xs ! nat i)
      else if - int (length xs) \<le> i \<and> i < 0 then Inr (xs ! nat (int (length xs) + i))
      else Inl IndexError)"

definition resample_at :: "int list \<Rightarrow> pyfloat \<Rightarrow> int result" where
  "resample_at samples src_position =
     (let fl_idx = \<lfloor>src_position\<rfloor>;
          frac = fl (src_position - of_int fl_idx);
          high = min (fl_idx + 1) (int (length samples) - 1)
      in bindE (array_get samples fl_idx) (\<lambda>lo.
         bindE (array_get samples high) (\<lambda>hi.
           Inr (astype_int16 (fadd (fmul (of_int lo) (fl (1 - frac))) (fmul (of_int hi) frac))))))"

definition resample_linear :: "int list \<Rightarrow> nat \<Rightarrow> nat \<Rightarrow> int list result" where
  "resample_linear samples src_rate dst_rate =
     (if src_rate = dst_rate then Inr samples
      else if samples = [] then Inr samples
      else if src_rate = 0 then Inl (OtherError ''ZeroDivisionError'')
      else
        (let duration = fdiv (of_nat (length samples)) (of_nat src_rate);
             dst_count = max 1 (round_half_even (fmul duration (of_nat dst_rate)))
         in mapE (resample_at samples) (linspace (of_nat (length samples - 1)) (nat dst_count))))"

section \<open>Decoding\<close>

record audio_buffer =
  ab_pcm16 :: bytes
  ab_sample_rate :: nat
  ab_channels :: nat

definition buffer_duration_ms :: "audio_buffer \<Rightarrow> nat" where
  "buffer_duration_ms b =
     (let frame_bytes = ab_channels b * 2; frames = length (ab_pcm16 b) div frame_bytes
      in frames * 1000 div ab_sample_rate b)"

definition decode_wav :: "bytes \<Rightarrow> audio_buffer result" where
  "decode_wav data =
     (if data = [] then Inl (AudioFormatError ''empty audio payload'')
      else case wave_open data of
        Inl e \<Rightarrow> Inl (if is_wave_error e then AudioFormatError ''invalid WAV payload'' else e)
      | Inr w \<Rightarrow>
          if wav_sampwidth w \<noteq> 2 then Inl (AudioFormatError ''unsupported sample width'')
          else if wav_channels w \<noteq> 1 \<and> wav_channels w \<noteq> 2
          then Inl (AudioFormatError ''unsupported channel count'')
          else
            bindE (frombuffer_int16 (wav_frames w)) (\<lambda>samples.
            bindE (if wav_channels w = 2 then stereo_mean samples else Inr samples) (\<lambda>samples.
            bindE (if wav_framerate w \<noteq> 16000 then resample_linear samples (wav_framerate w) 16000 else Inr samples)
              (\<lambda>samples.
              Inr \<lparr>ab_pcm16 = concat (map int16_bytes samples), ab_sample_rate = 16000, ab_channels = 1\<rparr>))))"

definition wrap_pcm_as_wav :: "bytes \<Rightarrow> int \<Rightarrow> bytes result" where
  "wrap_pcm_as_wav pcm16 sample_rate = wave_write_mono16 sample_rate pcm16"

section \<open>Sixteen-bit samples\<close>

lemma int16_bytes_cat: "int16_bytes (sint (word_cat hi lo :: 16 word)) = [lo, hi]" for hi lo :: byte
proof -
  have "ucast (word_cat hi lo :: 16 word) = lo"
    by (rule bit_word_eqI) (simp add: bit_ucast_iff bit_word_cat_iff)
  moreover have "ucast (drop_bit 8 (word_cat hi lo :: 16 word)) = hi"
    by (rule bit_word_eqI) (auto simp: bit_ucast_iff bit_drop_bit_eq bit_word_cat_iff)
  ultimately show ?thesis by (simp add: int16_bytes_def Let_def)
qed

lemma array_bytes: "even (length b) \<Longrightarrow> concat (map int16_bytes (int16_array b)) = b"
  by (induction b rule: int16_array.induct) (auto simp: int16_bytes_cat)

lemma astype_int16_id: "- 32768 \<le> trunc x \<Longrightarrow> trunc x < 32768 \<Longrightarrow> astype_int16 x = trunc x"
  by (simp add: astype_int16_def sint_sbintrunc' signed_take_bit_int_eq_self)

section \<open>The resampler stays inside the array\<close>

lemma rounded_quotient:
  assumes "0 < n" and "0 < d" and "d \<le> 2 ^ 50"
  shows "fl (of_nat n / of_nat d) \<le> of_nat n / of_nat d * (1 + 1 / 2 ^ 52)"
proof -
  let ?q = "of_nat n / of_nat d :: rat"
  have "(of_nat d :: rat) \<le> of_nat (2 ^ 50)" using assms(3) by (simp only: of_nat_le_iff)
  then have "1 / 2 ^ 50 \<le> ?q" using assms(1,2) by (intro frac_le) auto
  then have "(1 / 2 ^ 50) / 2 ^ 53 \<le> ?q / 2 ^ 53" by (rule divide_right_mono) simp
  moreover have "fl ?q \<le> ?q + (?q / 2 ^ 53 + 1 / 2 ^ 103)" using fl_error_bounds(1) [of ?q] by simp
  moreover have "?q * (1 + 1 / 2 ^ 52) = ?q + (?q / 2 ^ 53 + ?q / 2 ^ 53)" by (simp add: field_simps)
  moreover have "(1 / 2 ^ 50) / 2 ^ 53 = (1 :: rat) / 2 ^ 103" by simp
  ultimately show ?thesis by linarith
qed

text \<open>A multiple of the rounded step that is not the last one stays below the end.\<close>

lemma step_multiple:
  assumes "i < d" and "d \<le> 2 ^ 50" and "is_double (of_nat n)"
  shows "0 \<le> fl (of_nat i * fdiv (of_nat n) (of_nat d)) \<and> fl (of_nat i * fdiv (of_nat n) (of_nat d)) \<le> of_nat n"
proof (cases "n = 0")
  case False
  let ?q = "of_nat n / of_nat d :: rat"
  have d: "0 < d" and "(of_nat d :: rat) \<le> of_nat (2 ^ 50)" using assms(1,2) by (auto simp only: of_nat_le_iff)
  then have small: "(of_nat d - 1) * (1 + 1 / 2 ^ 52) \<le> (of_nat d :: rat)" by (simp add: field_simps)
  have nonneg: "0 \<le> fl ?q" by (intro fl_ge_double) auto
  have "(of_nat i :: rat) \<le> of_nat d - 1" using assms(1) by (simp add: of_nat_diff flip: of_nat_Suc)
  then have "of_nat i * fl ?q \<le> (of_nat d - 1) * (?q * (1 + 1 / 2 ^ 52))"
    using rounded_quotient [of n d] False d assms(2) nonneg by (intro mult_mono) auto
  also have "\<dots> = of_nat n * ((of_nat d - 1) * (1 + 1 / 2 ^ 52) / of_nat d)"
    by (simp only: times_divide_eq_left times_divide_eq_right mult_ac)
  also have "\<dots> \<le> of_nat n * 1"
    using small d by (intro mult_left_mono) (simp_all add: divide_le_eq_1)
  finally show ?thesis using assms(3) nonneg by (simp add: fdiv_def fl_le_double fl_ge_double)
qed (simp add: fdiv_def)

lemma linspace_position:
  assumes "n \<le> 2 ^ 52" and "num \<le> 2 ^ 50" and "x \<in> set (linspace (of_nat n) num)"
  shows "0 \<le> x \<and> x \<le> of_nat n"
proof -
  let ?d = "num - 1"
  have dbl: "is_double (of_nat n)" using is_double_int [of "int n"] assms(1) by simp
  have main: "0 \<le> fl (of_nat i * fdiv (of_nat n) (of_nat ?d)) \<and> fl (of_nat i * fdiv (of_nat n) (of_nat ?d)) \<le> of_nat n"
    if "i < ?d" for i using that assms(2) dbl by (intro step_multiple) auto
  have frac: "0 \<le> fl (fl (of_nat i / of_nat ?d) * of_nat n) \<and> fl (fl (of_nat i / of_nat ?d) * of_nat n) \<le> of_nat n"
    if "i < num" for i
  proof -
    have "0 \<le> fl (of_nat i / of_nat ?d) \<and> fl (of_nat i / of_nat ?d) \<le> 1"
      using that by (intro fl_unit) (auto simp: divide_le_eq_1)
    then have "fl (of_nat i / of_nat ?d) * of_nat n \<le> of_nat n" "0 \<le> fl (of_nat i / of_nat ?d) * of_nat n"
      by (simp_all add: mult_left_le_one_le)
    then show ?thesis using dbl by (simp add: fl_le_double fl_ge_double)
  qed
  from assms(3) obtain i where i: "i < num" "x = linspace (of_nat n) num ! i"
    by (auto simp: in_set_conv_nth linspace_def Let_def split: if_splits)
  show ?thesis
  proof (cases "1 < num")
    case True
    show ?thesis
    proof (cases "i = ?d")
      case False
      then show ?thesis using True i main [of i] frac [of i]
        by (auto simp: linspace_def Let_def float_ops)
    qed (use True i in \<open>simp add: linspace_def Let_def\<close>)
  next
    case False
    then have num: "num = 1" and i0: "i = 0" using i(1) by simp_all
    show ?thesis using i(2) unfolding i0 num by (simp add: linspace_def Let_def float_ops)
  qed
qed

lemma length_linspace [simp]: "length (linspace stop num) = num"
  by (simp add: linspace_def Let_def)

section \<open>The resampler stays inside the range of the samples\<close>

text \<open>Truncation is towards zero: it can leave a range that does not contain zero by one.\<close>

lemma trunc_le: "x < of_int h + 1 \<Longrightarrow> trunc x \<le> (if h < 0 then h + 1 else h)"
  unfolding trunc_def by (auto simp: ceiling_le_iff floor_le_iff intro: order_trans [of _ 0])

lemma trunc_ge: "of_int l - 1 < x \<Longrightarrow> (if 0 < l then l - 1 else l) \<le> trunc x"
  unfolding trunc_def by (auto simp: le_ceiling_iff le_floor_iff intro: order_trans [of _ 0])

text \<open>
  A weighted mean of two samples in rounded arithmetic stays less than one above an upper bound of
  both.
\<close>

lemma blend_upper:
  fixes a b f U :: rat
  assumes "a \<le> U" and "b \<le> U" and "\<bar>U\<bar> \<le> 2 ^ 15" and "0 \<le> f" and "f \<le> 1"
  shows "fadd (fmul a (fl (1 - f))) (fmul b f) < U + 1"
proof -
  let ?g = "fl (1 - f)"
  have g: "0 \<le> ?g" "?g \<le> 1" using assms(4,5) fl_unit [of "1 - f"] by auto
  have "?g \<le> 1 - f + 1 / 2 ^ 50" "1 - f - 1 / 2 ^ 50 \<le> ?g"
    using fl_error_bounds [of "1 - f"] assms(4,5) by (simp_all add: field_simps)
  then have "\<bar>?g - (1 - f)\<bar> \<le> 1 / 2 ^ 50" unfolding abs_le_iff by linarith
  then have "\<bar>U\<bar> * \<bar>?g - (1 - f)\<bar> \<le> 2 ^ 15 * (1 / 2 ^ 50)" using assms(3) by (intro mult_mono) auto
  then have "\<bar>U * (?g - (1 - f))\<bar> \<le> 1 / 2 ^ 30" by (simp add: abs_mult)
  then have Ug: "U * ?g + U * f \<le> U + 1 / 2 ^ 30" unfolding abs_le_iff by (simp add: algebra_simps)
  have up: "fl x \<le> x + 1 / 2 ^ 30" if "\<bar>x\<bar> \<le> 2 ^ 17" for x
    using fl_error_bounds(1) [of x] that by (simp add: field_simps)
  have "a * ?g \<le> U * ?g" "b * f \<le> U * f" using assms g by (auto intro: mult_right_mono)
  then have "fmul a ?g \<le> fl (U * ?g)" "fmul b f \<le> fl (U * f)" by (simp_all add: fmul_def fl_mono)
  moreover have "\<bar>U\<bar> * ?g \<le> 2 ^ 15 * 1" using assms(3) g by (intro mult_mono) auto
  moreover have "\<bar>U\<bar> * f \<le> 2 ^ 15 * 1" using assms(3-5) by (intro mult_mono) auto
  ultimately have "fmul a ?g \<le> U * ?g + 1 / 2 ^ 30" "fmul b f \<le> U * f + 1 / 2 ^ 30"
    using up [of "U * ?g"] up [of "U * f"] assms(4) g by (simp_all add: abs_mult)
  then have sum: "fmul a ?g + fmul b f \<le> U + 3 / 2 ^ 30" using Ug by simp
  then have "fadd (fmul a ?g) (fmul b f) \<le> fl (U + 3 / 2 ^ 30)" by (simp add: fadd_def fl_mono)
  also have "\<dots> \<le> (U + 3 / 2 ^ 30) + 1 / 2 ^ 30" using assms(3) by (intro up) (simp add: abs_le_iff)
  finally show ?thesis by simp
qed

lemma fl_minus: "fl (- x) = - fl x"
  by (cases "x = 0") (auto simp: fl_def)

lemma blend_lower:
  fixes a b f L :: rat
  assumes "L \<le> a" and "L \<le> b" and "\<bar>L\<bar> \<le> 2 ^ 15" and "0 \<le> f" and "f \<le> 1"
  shows "L - 1 < fadd (fmul a (fl (1 - f))) (fmul b f)"
proof -
  have "fadd (fmul (- a) (fl (1 - f))) (fmul (- b) f) = - fadd (fmul a (fl (1 - f))) (fmul b f)"
    by (simp add: float_ops fl_minus flip: fl_minus)
  then show ?thesis using blend_upper [of "- a" "- L" "- b" f] assms by simp
qed

lemma array_get_in: "0 \<le> i \<Longrightarrow> i < int (length xs) \<Longrightarrow> \<exists>a \<in> set xs. array_get xs i = Inr a"
  by (simp add: array_get_def nat_less_iff)

lemma resample_at_range:
  assumes "0 \<le> x" and "x \<le> of_nat (length samples - 1)" and "samples \<noteq> []"
    and "\<forall>s \<in> set samples. l \<le> s \<and> s \<le> h" and "- 32768 \<le> l" and "h < 32768"
  shows "\<exists>y. resample_at samples x = Inr y \<and>
    (if 0 < l then l - 1 else l) \<le> y \<and> y \<le> (if h < 0 then h + 1 else h)"
proof -
  let ?i = "\<lfloor>x\<rfloor>"
  have i: "0 \<le> ?i" "?i < int (length samples)"
  proof -
    have "length samples - 1 < length samples" using assms(3) by simp
    then have "(of_nat (length samples - 1) :: rat) < of_nat (length samples)" by (simp only: of_nat_less_iff)
    then show "0 \<le> ?i" "?i < int (length samples)" using assms(1,2) by (simp_all add: floor_less_iff)
  qed
  then obtain a b where ab: "array_get samples ?i = Inr a" "a \<in> set samples"
      "array_get samples (min (?i + 1) (int (length samples) - 1)) = Inr b" "b \<in> set samples"
    using array_get_in [of ?i samples] array_get_in [of "min (?i + 1) (int (length samples) - 1)" samples] assms(3)
    by fastforce
  have f: "0 \<le> fl (x - of_int ?i)" "fl (x - of_int ?i) \<le> 1"
    using fl_unit [of "x - of_int ?i"] by linarith+
  let ?v = "fadd (fmul (of_int a) (fl (1 - fl (x - of_int ?i)))) (fmul (of_int b) (fl (x - of_int ?i)))"
  have lh: "\<bar>l\<bar> \<le> 2 ^ 15" "\<bar>h\<bar> \<le> 2 ^ 15" using assms(4-6) ab(2) by force+
  then have lh': "\<bar>of_int l\<bar> \<le> (2 :: rat) ^ 15" "\<bar>of_int h\<bar> \<le> (2 :: rat) ^ 15"
    by (simp_all add: abs_le_iff)
  have "?v < of_int h + 1" using ab assms(4) f lh' by (intro blend_upper) auto
  moreover have "of_int l - 1 < ?v" using ab assms(4) f lh' by (intro blend_lower) auto
  ultimately have "(if 0 < l then l - 1 else l) \<le> trunc ?v" "trunc ?v \<le> (if h < 0 then h + 1 else h)"
    using trunc_ge [of l ?v] trunc_le [of ?v h] by blast+
  moreover from this have "astype_int16 ?v = trunc ?v"
    using assms(5,6) by (intro astype_int16_id) (auto split: if_splits)
  ultimately show ?thesis using ab by (simp add: resample_at_def Let_def)
qed

section \<open>Properties\<close>

text \<open>
  C29. Resampling is safe: for up to \<open>2 ^ 32\<close> sixteen-bit samples, any positive source rate and a
  target rate of at most 65536, no index leaves the array and no sample overflows sixteen bits;
  every sample stays in the range \<open>l .. h\<close> of the input, except that the truncation towards zero may
  put it one below a range of positive samples or one above a range of negative ones; and the
  number of samples is the rounded duration times the target rate, at least one.
\<close>

theorem resample_in_range:
  assumes "length samples \<le> 2 ^ 32" and "0 < src_rate" and "dst_rate \<le> 2 ^ 16"
    and "\<forall>s \<in> set samples. l \<le> s \<and> s \<le> h" and "- 32768 \<le> l" and "h < 32768"
  shows "\<exists>ys. resample_linear samples src_rate dst_rate = Inr ys \<and>
    (\<forall>y \<in> set ys. (if 0 < l then l - 1 else l) \<le> y \<and> y \<le> (if h < 0 then h + 1 else h)) \<and>
    (samples \<noteq> [] \<longrightarrow> src_rate \<noteq> dst_rate \<longrightarrow>
       int (length ys) = max 1 (round_half_even (fmul (fdiv (of_nat (length samples)) (of_nat src_rate)) (of_nat dst_rate))))"
proof (cases "src_rate = dst_rate \<or> samples = []")
  case True
  then show ?thesis using assms(4) by (auto simp: resample_linear_def)
next
  case False
  let ?n = "length samples"
  let ?count = "max 1 (round_half_even (fmul (fdiv (of_nat ?n) (of_nat src_rate)) (of_nat dst_rate)))"
  have dbl: "is_double (of_nat ?n)" "is_double (of_nat (?n * dst_rate))"
    using is_double_int [of "int ?n"] is_double_int [of "int (?n * dst_rate)"] mult_le_mono [OF assms(1,3)] assms(1)
    by (simp_all del: of_nat_mult)
  have "(of_nat ?n :: rat) / of_nat src_rate \<le> of_nat ?n" using assms(2) by (simp add: divide_le_eq mult_le_cancel_left1)
  then have "fdiv (of_nat ?n) (of_nat src_rate) \<le> of_nat ?n" using dbl(1) by (simp add: fdiv_def fl_le_double)
  then have "fdiv (of_nat ?n) (of_nat src_rate) * of_nat dst_rate \<le> of_nat (?n * dst_rate)"
    by (simp add: mult_right_mono)
  then have "fmul (fdiv (of_nat ?n) (of_nat src_rate)) (of_nat dst_rate) \<le> of_nat (?n * dst_rate)"
    using dbl(2) unfolding fmul_def by (rule fl_le_double [rotated])
  then have "round_half_even (fmul (fdiv (of_nat ?n) (of_nat src_rate)) (of_nat dst_rate)) \<le> int (?n * dst_rate)"
    by (intro round_half_even_le_int) simp
  moreover have "?n * dst_rate \<le> 2 ^ 48" using mult_le_mono [OF assms(1,3)] by simp
  then have "int (?n * dst_rate) \<le> 2 ^ 48" by (simp only: of_nat_le_numeral_power_cancel_iff)
  ultimately have "?count \<le> 2 ^ 50" by (simp del: of_nat_mult)
  then have "nat ?count \<le> 2 ^ 50" by simp
  then have "0 \<le> x \<and> x \<le> of_nat (?n - 1)" if "x \<in> set (linspace (of_nat (?n - 1)) (nat ?count))" for x
    using that assms(1) by (intro linspace_position) auto
  then have each: "\<exists>y. resample_at samples x = Inr y \<and>
      (if 0 < l then l - 1 else l) \<le> y \<and> y \<le> (if h < 0 then h + 1 else h)"
    if "x \<in> set (linspace (of_nat (?n - 1)) (nat ?count))" for x
    using that False assms(4-6) by (intro resample_at_range) auto
  then obtain g where g: "\<forall>x \<in> set (linspace (of_nat (?n - 1)) (nat ?count)). resample_at samples x = Inr (g x) \<and>
      (if 0 < l then l - 1 else l) \<le> g x \<and> g x \<le> (if h < 0 then h + 1 else h)"
    by metis
  then have "mapE (resample_at samples) (linspace (of_nat (?n - 1)) (nat ?count)) =
      Inr (map g (linspace (of_nat (?n - 1)) (nat ?count)))"
    by (intro mapE_Inr) simp
  then show ?thesis using False assms(2) g by (simp add: resample_linear_def Let_def)
qed

theorem resample_in_range_witness:
  "\<exists>ys. resample_linear [1000, 2000, 3000] 8000 16000 = Inr ys \<and> set ys \<subseteq> {999 .. 3000}"
  using resample_in_range [of "[1000, 2000, 3000]" 8000 16000 1000 3000] by fastforce

text \<open>
  A WAV round trip: sixteen-bit mono audio at 16 kHz that is wrapped as a WAV file is decoded
  to exactly the same samples.
\<close>

theorem wav_roundtrip:
  assumes "wrap_pcm_as_wav pcm 16000 = Inr wav" and "even (length pcm)"
  shows "decode_wav wav = Inr \<lparr>ab_pcm16 = pcm, ab_sample_rate = 16000, ab_channels = 1\<rparr>"
proof -
  have "wave_open wav = Inr \<lparr>wav_channels = 1, wav_sampwidth = 2, wav_framerate = 16000, wav_frames = pcm\<rparr>"
    using wave_roundtrip [of 16000 pcm wav] assms by (simp add: wrap_pcm_as_wav_def dvd_div_mult_self)
  moreover have "wav \<noteq> []"
    using assms(1) by (auto simp: wrap_pcm_as_wav_def wave_write_mono16_def Let_def RIFF_ID_def split: if_splits)
  ultimately show ?thesis using assms(2) by (simp add: decode_wav_def frombuffer_int16_def array_bytes)
qed

theorem wav_roundtrip_witness:
  "\<exists>wav. wrap_pcm_as_wav [1, 2, 3, 4] 16000 = Inr wav \<and>
     decode_wav wav = Inr \<lparr>ab_pcm16 = [1, 2, 3, 4], ab_sample_rate = 16000, ab_channels = 1\<rparr>"
proof -
  obtain wav where wav: "wrap_pcm_as_wav [1, 2, 3, 4] 16000 = Inr wav"
    by (simp add: wrap_pcm_as_wav_def wave_write_mono16_def)
  then show ?thesis using wav_roundtrip [OF wav] by simp
qed

text \<open>An upload too short for a RIFF header raises \<open>EOFError\<close>, which is not an \<open>AudioFormatError\<close>.\<close>

lemma short_upload: "data \<noteq> [] \<Longrightarrow> length data < 8 \<Longrightarrow> decode_wav data = Inl EOFError"
  by (simp add: decode_wav_def wave_open_def)

end
