(* ===== verification/Http_Api.thy ===== *)
theory Http_Api
  imports Settings Audio
begin

text \<open>
  The REST endpoints of \<open>api/routes.py\<close>, \<open>/recognize/text\<close> and \<open>/recognize/file\<close>, with the API-key
  dependency of their router, and the probes of \<open>api/app.py\<close>. A handler returns the response, an
  \<open>HTTPException\<close>, or the exception that escapes it and becomes a 500; with it the session store
  it leaves behind and the metric observations it makes. The detail of an error that quotes an
  exception is that exception. Shown here: which requests can fail with a 500, and that a file
  request is the text request of its transcript.
\<close>

section \<open>Outcomes\<close>

datatype detail = Detail string | StrOf exn

datatype 'a http = Ok 'a | HttpError nat detail | ServerError exn

text \<open>Path, scene label and result of \<open>recognize_requests_total\<close>.\<close>

type_synonym observation = "string \<times> pystr \<times> string"

definition scene_label :: "pystr option \<Rightarrow> pystr option \<Rightarrow> pystr" where
  "scene_label scene_id category_path =
     (case scene_id of
        Some s \<Rightarrow> if s \<noteq> [] then s
                  else (case category_path of Some p \<Rightarrow> if p \<noteq> [] then u ''path'' else u ''unknown'' | None \<Rightarrow> u ''unknown'')
      | None \<Rightarrow> (case category_path of Some p \<Rightarrow> if p \<noteq> [] then u ''path'' else u ''unknown'' | None \<Rightarrow> u ''unknown''))"

definition observe_recognize_result :: "string \<Rightarrow> pystr \<Rightarrow> string \<Rightarrow> observation list" where
  [simp]: "observe_recognize_result path scene outcome = [(path, scene, outcome)]"

text \<open>The \<open>try\<close> around \<open>orchestrator.recognize\<close> both handlers share.\<close>

definition respond ::
  "string \<Rightarrow> pystr \<Rightarrow> 'a result \<times> session_store \<Rightarrow> 'a http \<times> session_store \<times> observation list" where
  "respond path scene r =
     (case r of
        (Inr response, st) \<Rightarrow> (Ok response, st, observe_recognize_result path scene ''ok'')
      | (Inl e, st) \<Rightarrow>
          if is_key_error e then (HttpError 404 (StrOf e), st, observe_recognize_result path scene ''error'')
          else if is_value_error e then (HttpError 422 (StrOf e), st, observe_recognize_result path scene ''error'')
          else (ServerError e, st, []))"

section \<open>Handlers\<close>

definition recognize_text ::
  "nat \<Rightarrow> orchestrator \<Rightarrow> pystr \<Rightarrow> recognition_request \<Rightarrow> session_store \<Rightarrow>
     recognition_response http \<times> session_store \<times> observation list" where
  "recognize_text frames orc uuid req st =
     (let scene = scene_label (rq_scene_id req) (rq_category_path req)
      in if rq_scene_id req = None \<and> rq_category_path req = None
         then (HttpError 422 (Detail ''either scene_id or category_path is required''), st, observe_recognize_result ''text'' scene ''error'')
         else respond ''text'' scene (recognize frames orc uuid req st))"

record upload =
  up_audio :: bytes
  up_scene_id :: "pystr option"
  up_category_path :: "category_path option"
  up_session_id :: "pystr option"
  up_n_best :: int

type_synonym file_recogniser = "bytes \<Rightarrow> final_transcript result"
type_synonym file_detector = "bytes \<Rightarrow> int \<Rightarrow> speech_segment list result"

definition recognize_file ::
  "nat \<Rightarrow> environ \<Rightarrow> orchestrator \<Rightarrow> file_recogniser \<Rightarrow> file_detector \<Rightarrow> pystr \<Rightarrow> upload \<Rightarrow> session_store \<Rightarrow>
     recognition_response http \<times> session_store \<times> observation list" where
  "recognize_file frames env orc transcribe_file detect uuid form st =
     (let scene = scene_label (up_scene_id form) (up_category_path form); raw = up_audio form
      in if up_scene_id form = None \<and> up_category_path form = None
         then (HttpError 422 (Detail ''either scene_id or category_path is required''), st, observe_recognize_result ''file'' scene ''error'')
         else case get_max_audio_bytes env of
           Inl e \<Rightarrow> (ServerError e, st, [])
         | Inr max_bytes \<Rightarrow>
             if max_bytes < int (length raw)
             then (HttpError 413 (Detail ''audio payload too large''), st, observe_recognize_result ''file'' scene ''error'')
             else case decode_wav raw of
               Inl (AudioFormatError m) \<Rightarrow>
                 (HttpError 400 (StrOf (AudioFormatError m)), st, observe_recognize_result ''file'' scene ''error'')
             | Inl e \<Rightarrow> (ServerError e, st, [])
             | Inr buffer \<Rightarrow>
                 (case detect (ab_pcm16 buffer) (int (ab_sample_rate buffer)) of
                    Inl e \<Rightarrow> (ServerError e, st, [])
                  | Inr [] \<Rightarrow> (HttpError 422 (Detail ''no speech detected in audio''), st, observe_recognize_result ''file'' scene ''no_speech'')
                  | Inr _ \<Rightarrow>
                      (case bindE (transcribe_file raw) (\<lambda>transcript.
                              RecognitionRequest (up_scene_id form) (up_category_path form) (ft_text transcript)
                                (Some (ab_pcm16 buffer)) (up_session_id form) (up_n_best form)) of
                         Inl e \<Rightarrow> (ServerError e, st, [])
                       | Inr req \<Rightarrow> respond ''file'' scene (recognize frames orc uuid req st))))"

text \<open>The router's dependency runs before either handler.\<close>

definition authorized :: "environ \<Rightarrow> pystr option \<Rightarrow> 'a http \<times> session_store \<times> observation list \<Rightarrow> session_store \<Rightarrow>
    'a http \<times> session_store \<times> observation list" where
  "authorized env x_api_key handled st =
     (case require_api_key env x_api_key of
        Inl _ \<Rightarrow> (HttpError 401 (Detail ''missing or invalid X-API-Key''), st, [])
      | Inr _ \<Rightarrow> handled)"

section \<open>Probes\<close>

definition healthz :: "nat \<times> string" where
  "healthz = (200, ''ok'')"

text \<open>\<open>None\<close> is the check \<open>ok\<close>, otherwise the error it reports.\<close>

fun readiness_checks :: "(string \<times> unit result) list \<Rightarrow> (string \<times> exn option) list \<times> bool" where
  "readiness_checks [] = ([], True)"
| "readiness_checks ((name, probe) # rest) =
     (case readiness_checks rest of (checks, overall_ok) \<Rightarrow>
        (case probe of
           Inr _ \<Rightarrow> ((name, None) # checks, overall_ok)
         | Inl e \<Rightarrow> ((name, Some e) # checks, False)))"

definition probe_of :: "'a result \<Rightarrow> unit result" where
  "probe_of r = bindE r (\<lambda>_. Inr ())"

definition readiness_probes ::
  "scene_registry result \<Rightarrow> matcher result \<Rightarrow> vad_backend result \<Rightarrow> asr_stream result \<Rightarrow> (string \<times> unit result) list" where
  "readiness_probes reg m vad asr =
     [(''registry'', probe_of reg), (''session_store'', Inr ()), (''matcher'', probe_of m),
      (''vad'', probe_of vad), (''asr'', probe_of asr)]"

definition readyz :: "(string \<times> unit result) list \<Rightarrow> nat \<times> string \<times> (string \<times> exn option) list" where
  "readyz probes =
     (case readiness_checks probes of (checks, overall_ok) \<Rightarrow>
        (if overall_ok then 200 else 503, if overall_ok then ''ok'' else ''error'', checks))"

text \<open>\<open>_lifespan\<close>: the same factories in the same order, stopping at the first error.\<close>

definition lifespan :: "bool \<Rightarrow> (string \<times> unit result) list \<Rightarrow> unit result" where
  "lifespan dependency_overrides probes = (if dependency_overrides then Inr () else forE snd probes)"

lemma readiness_ok_iff: "snd (readiness_checks ps) \<longleftrightarrow> (\<forall>p \<in> set ps. snd p = Inr ())"
  by (induction ps rule: readiness_checks.induct) (auto split: prod.splits sum.splits)

lemma readiness_names: "map fst (fst (readiness_checks ps)) = map fst ps"
  by (induction ps rule: readiness_checks.induct) (auto split: prod.splits sum.splits)

lemma ready_iff_boots: "fst (readyz ps) = 200 \<longleftrightarrow> lifespan False ps = Inr ()"
  using readiness_ok_iff [of ps]
  by (auto simp: readyz_def lifespan_def forE_Inr_iff split: prod.splits)

section \<open>Which requests can fail with a 500\<close>

lemma single_match_error:
  "(case ms of [] \<Rightarrow> Inl a | [m] \<Rightarrow> f m | m # n # ns \<Rightarrow> Inl b) = Inl e \<Longrightarrow> e = a \<or> e = b \<or> (\<exists>m. ms = [m] \<and> f m = Inl e)"
  by (auto split: list.splits)

lemma tree_get_error: "tree_get t k = Inl e \<Longrightarrow> is_key_error e"
  by (auto simp: tree_get_def split: option.splits)

lemma children_named_error: "children_named t name ids = Inl e \<Longrightarrow> is_key_error e"
  by (induction ids) (auto simp: result_simps dest: tree_get_error)

lemma resolve_step_error: "resolve_step t c name = Inl e \<Longrightarrow> is_key_error e"
  by (auto simp: resolve_step_def bindE_Inl_iff dest: children_named_error dest!: single_match_error)

lemma resolve_steps_error: "foldE (resolve_step t) c names = Inl e \<Longrightarrow> is_key_error e"
  by (induction names arbitrary: c) (auto simp: result_simps dest: resolve_step_error)

text \<open>The errors the \<open>except\<close> clauses of the endpoints handle.\<close>

definition handled :: "exn \<Rightarrow> bool" where
  "handled e \<longleftrightarrow> is_key_error e \<or> is_value_error e"

lemma resolve_path_error: "resolve_path t p = Inl e \<Longrightarrow> handled e"
  by (auto simp: resolve_path_def result_simps handled_def dest: tree_get_error resolve_steps_error
      split: list.splits if_splits)

lemma registry_get_error: "registry_get reg s = Inl e \<Longrightarrow> handled e"
  by (auto simp: registry_get_def handled_def split: option.splits)

lemma root_names_error: "scenes_with_root_name reg name = Inl e \<Longrightarrow> handled e"
  by (induction reg) (auto simp: result_simps handled_def dest: tree_get_error split: if_splits)

lemma registry_resolve_error: "registry_resolve reg s p = Inl e \<Longrightarrow> handled e"
proof (cases p)
  case None
  then show "registry_resolve reg s p = Inl e \<Longrightarrow> handled e"
    by (auto simp: registry_resolve_def bindE_Inl_iff handled_def dest: registry_get_error split: option.splits)
next
  case (Some path)
  assume *: "registry_resolve reg s p = Inl e"
  show "handled e"
  proof (cases "path_parts path")
    case (Cons root rest)
    then show ?thesis using * Some
      by (auto simp: registry_resolve_def bindE_Inl_iff handled_def dest!: single_match_error
          dest: root_names_error [unfolded handled_def] registry_get_error [unfolded handled_def]
            resolve_path_error [unfolded handled_def])
  qed (use * Some in \<open>auto simp: registry_resolve_def handled_def\<close>)
qed

text \<open>
  A service in order: the scenes are loaded ones whose enum pointers do not nest, the recursion
  limit covers them, the matcher answers within its contract, and there is no Path B, which is
  how \<open>get_orchestrator\<close> builds it.
\<close>

definition service_in_order :: "nat \<Rightarrow> orchestrator \<Rightarrow> bool" where
  "service_in_order frames orc \<longleftrightarrow>
     valid_registry (o_registry orc) \<and>
     (\<forall>s t. dget (o_registry orc) s = Some t \<longrightarrow> enum_closed t \<and> 2 * length (categories t) < frames) \<and>
     intent_matcher (o_matcher orc) \<and> (\<forall>t pool n. \<exists>cs. o_matcher orc t pool n = Inr cs) \<and> o_slu orc = None"

lemma scope_error:
  assumes "service_in_order frames orc" and "dget (o_registry orc) s = Some t" and "k \<in> set (dkeys (categories t))"
    and "scope frames t k = Inl e"
  shows "handled e"
proof -
  obtain c where c: "dget (categories t) k = Some c" using assms(3) by (metis dget_None_key not_None_eq)
  have "cat_mode c = ENUM"
    using assms(1,2,4) scope_total [of t k c frames] c by (auto simp: service_in_order_def valid_registry_def)
  then show ?thesis using assms(4) c by (auto simp: scope_def tree_get_def handled_def)
qed

lemma recognize_error:
  assumes "service_in_order frames orc" and "recognize frames orc uuid rq st = (Inl e, st')"
  shows "handled e"
proof (cases "registry_resolve (o_registry orc) (rq_scene_id rq) (rq_category_path rq)")
  case (Inl e')
  then show ?thesis using assms(2) registry_resolve_error by (auto simp: recognize_def)
next
  case (Inr p)
  obtain s k where p: "p = (s, k)" by force
  have reg: "valid_registry (o_registry orc)" using assms(1) by (simp add: service_in_order_def)
  obtain t where t: "dget (o_registry orc) s = Some t" "k \<in> set (dkeys (categories t))"
    using registry_resolve_Inr [OF reg Inr [unfolded p]] by (auto dest: dget_Some_key)
  let ?x = "start_session uuid rq k st"
  have turn: "answer_turn frames orc rq s t ?x = Inl e"
    using assms(2) unfolding recognize_unfold [OF Inr [unfolded p] t(1)] by (auto split: sum.splits prod.splits)
  show ?thesis
  proof (cases "scope frames t k")
    case (Inl e')
    then show ?thesis using turn scope_error [OF assms(1) t Inl] by (simp add: answer_turn_def)
  next
    case (Inr pool)
    obtain cs where cs: "o_matcher orc (rq_text rq) pool (rq_n_best rq) = Inr cs"
      using assms(1) unfolding service_in_order_def by blast
    have ranked: "ranked_list pool (rq_n_best rq) (py_prefix (rq_n_best rq) cs)"
      using assms(1) cs intent_matcher.score_ranked ranked_list_prefix by (fastforce simp: service_in_order_def)
    obtain hit fu where hit: "resolve_top (py_prefix (rq_n_best rq) cs) pool = Inr (hit, fu)"
      using resolve_top_total [OF ranked] by auto
    have "apply_follow_up t fu ?x = Inl e"
      using turn Inr cs hit assms(1)
      by (auto simp: answer_turn_def run_dual_paths_def service_in_order_def fuse_inactive b_hypothesis_def Let_def
          result_simps split: option.splits)
    then show ?thesis
      by (auto simp: apply_follow_up_def dest: resolve_path_error split: option.splits sum.splits if_splits)
  qed
qed

text \<open>
  C26. A text request never ends in a 500 on a service in order: whatever the request and the
  sessions, the outcome is a response, a 404 or a 422, and it is counted exactly once.
\<close>

theorem text_never_server_error:
  assumes "service_in_order frames orc"
  shows "\<exists>outcome st' ob. recognize_text frames orc uuid req st = (outcome, st', [ob]) \<and>
    (case outcome of Ok _ \<Rightarrow> True | HttpError code _ \<Rightarrow> code = 404 \<or> code = 422 | ServerError _ \<Rightarrow> False)"
proof (cases "rq_scene_id req = None \<and> rq_category_path req = None")
  case True
  then show ?thesis by (simp add: recognize_text_def)
next
  case False
  obtain r st' where run: "recognize frames orc uuid req st = (r, st')" by force
  show ?thesis
  proof (cases r)
    case (Inl e)
    then have "handled e" using recognize_error [OF assms] run by simp
    then show ?thesis using False run Inl by (auto simp: recognize_text_def respond_def handled_def Let_def)
  qed (use False run in \<open>simp add: recognize_text_def respond_def Let_def\<close>)
qed

lemma bank_in_order: "service_in_order 9 bank_orc"
proof -
  have "intent_matcher (stub_score 2)" by (rule stub.intent_matcher_axioms)
  moreover have "\<exists>cs. stub_score 2 t pool n = Inr cs" for t pool n by (simp add: stub_score_eq)
  moreover have "enum_closed t \<and> 2 * length (categories t) < 9" if "dget bank_registry s = Some t" for s t
    using that bank_enum_closed by (auto simp: bank_registry_def bank_tree_def split: if_splits)
  ultimately show ?thesis
    using bank_registry_valid by (simp add: service_in_order_def bank_orc_def Orchestrator_init_def)
qed

theorem text_never_server_error_witness:
  "\<exists>outcome st' ob. recognize_text 9 bank_orc (u ''s2'') bank_rq [] = (outcome, st', [ob]) \<and>
    (case outcome of Ok _ \<Rightarrow> True | HttpError code _ \<Rightarrow> code = 404 \<or> code = 422 | ServerError _ \<Rightarrow> False)"
  by (rule text_never_server_error [OF bank_in_order])

section \<open>A file request is the text request of its transcript\<close>

lemma recognize_ignores_audio:
  assumes "o_slu orc = None"
  shows "recognize frames orc uuid (rq\<lparr>rq_audio := a\<rparr>) st = recognize frames orc uuid rq st"
proof -
  have fields: "rq_session_id (rq\<lparr>rq_audio := a\<rparr>) = rq_session_id rq" "rq_scene_id (rq\<lparr>rq_audio := a\<rparr>) = rq_scene_id rq"
    "rq_category_path (rq\<lparr>rq_audio := a\<rparr>) = rq_category_path rq"
    by simp_all
  have turn: "answer_turn frames orc (rq\<lparr>rq_audio := a\<rparr>) = answer_turn frames orc rq"
    using assms by (simp add: fun_eq_iff answer_turn_def run_dual_paths_def)
  show ?thesis unfolding recognize_def fields turn ..
qed

text \<open>
  The transcript of an upload that is accepted: within the size limit, a WAV file the decoder reads,
  in which the detector finds speech, and which the recogniser transcribes.
\<close>

definition heard_text :: "int \<Rightarrow> file_recogniser \<Rightarrow> file_detector \<Rightarrow> bytes \<Rightarrow> pystr option" where
  "heard_text limit transcribe_file detect raw =
     (if limit < int (length raw) then None
      else case decode_wav raw of
        Inl _ \<Rightarrow> None
      | Inr buffer \<Rightarrow>
          (case detect (ab_pcm16 buffer) (int (ab_sample_rate buffer)) of
             Inr (_ # _) \<Rightarrow> (case transcribe_file raw of Inl _ \<Rightarrow> None | Inr t \<Rightarrow> Some (ft_text t))
           | _ \<Rightarrow> None))"

lemma rejected_upload:
  assumes "get_max_audio_bytes env = Inr limit" and "heard_text limit transcribe_file detect (up_audio form) = None"
  shows "\<exists>outcome obs. recognize_file frames env orc transcribe_file detect uuid form st = (outcome, st, obs) \<and>
    (case outcome of Ok _ \<Rightarrow> False | HttpError code _ \<Rightarrow> code \<in> {400, 413, 422} \<and> length obs = 1
     | ServerError _ \<Rightarrow> obs = [])"
  using assms
  by (auto simp: recognize_file_def heard_text_def Let_def split: if_splits sum.splits exn.splits list.splits)

lemma accepted_upload:
  assumes "get_max_audio_bytes env = Inr limit" and "heard_text limit transcribe_file detect (up_audio form) = Some tx"
    and "o_slu orc = None" and "RecognitionRequest (up_scene_id form) (up_category_path form) tx None
      (up_session_id form) (up_n_best form) = Inr req"
  shows "\<exists>outcome st' obs. recognize_text frames orc uuid req st = (outcome, st', obs) \<and>
    recognize_file frames env orc transcribe_file detect uuid form st =
      (outcome, st', map (\<lambda>(_, scene, counted). (''file'', scene, counted)) obs)"
proof -
  from assms(2) obtain buffer seg segs t where up: "\<not> limit < int (length (up_audio form))"
      "decode_wav (up_audio form) = Inr buffer" "detect (ab_pcm16 buffer) (int (ab_sample_rate buffer)) = Inr (seg # segs)"
      "transcribe_file (up_audio form) = Inr t" "tx = ft_text t"
    by (auto simp: heard_text_def split: if_splits sum.splits list.splits)
  let ?req = "req\<lparr>rq_audio := Some (ab_pcm16 buffer)\<rparr>"
  have req: "RecognitionRequest (up_scene_id form) (up_category_path form) (ft_text t) (Some (ab_pcm16 buffer))
      (up_session_id form) (up_n_best form) = Inr ?req"
    "rq_scene_id req = up_scene_id form" "rq_category_path req = up_category_path form"
    using assms(4) up(5) by (auto simp: RecognitionRequest_def split: if_splits)
  have run: "recognize frames orc uuid ?req st = recognize frames orc uuid req st"
    using assms(3) by (rule recognize_ignores_audio)
  obtain r st' where r: "recognize frames orc uuid req st = (r, st')" by force
  show ?thesis
    using assms(1) up(1-4) req run r
    by (auto simp: recognize_file_def recognize_text_def respond_def Let_def split: sum.splits)
qed

text \<open>
  C25. What a file request comes to, in a deployment without Path B and for a number of answers from
  1 to 20. An upload within the size limit that decodes as a WAV file, in which the detector finds
  speech and which the recogniser transcribes, gets the response or the error that a text
  request with that transcript gets, leaves the same sessions behind, and is counted alike under its
  own path. Any other upload leaves the sessions as they were and is answered with 400, 413 or 422,
  counted once, or ends in a 500 that is not counted.
\<close>

theorem file_request_is_text_request:
  assumes "o_slu orc = None" and "get_max_audio_bytes env = Inr limit" and "1 \<le> up_n_best form \<and> up_n_best form \<le> 20"
  shows "\<exists>outcome st' obs. recognize_file frames env orc transcribe_file detect uuid form st = (outcome, st', obs) \<and>
    (case heard_text limit transcribe_file detect (up_audio form) of
       Some tx \<Rightarrow> \<exists>req obs'. RecognitionRequest (up_scene_id form) (up_category_path form) tx None
           (up_session_id form) (up_n_best form) = Inr req \<and>
         recognize_text frames orc uuid req st = (outcome, st', obs') \<and>
         obs = map (\<lambda>(_, scene, counted). (''file'', scene, counted)) obs'
     | None \<Rightarrow> st' = st \<and>
         (case outcome of Ok _ \<Rightarrow> False | HttpError code _ \<Rightarrow> code \<in> {400, 413, 422} \<and> length obs = 1
          | ServerError _ \<Rightarrow> obs = []))"
proof (cases "heard_text limit transcribe_file detect (up_audio form)")
  case None
  then show ?thesis using rejected_upload [OF assms(2) None, of frames orc uuid st] by auto
next
  case (Some tx)
  obtain req where "RecognitionRequest (up_scene_id form) (up_category_path form) tx None
      (up_session_id form) (up_n_best form) = Inr req"
    using assms(3) by (simp add: RecognitionRequest_def)
  then show ?thesis using accepted_upload [OF assms(2) Some assms(1), of req frames uuid st] Some by fastforce
qed

theorem file_request_is_text_request_witness:
  "\<exists>wav req outcome st' obs obs'. wrap_pcm_as_wav (replicate 32 0) 16000 = Inr wav \<and>
    RecognitionRequest (Some (u ''bank'')) None (u ''card'') None None 5 = Inr req \<and>
    recognize_file 9 [] bank_orc (\<lambda>w. Inr (stub_transcribe_file (Some (u ''card'')) w)) mock_detect (u ''s2'')
      \<lparr>up_audio = wav, up_scene_id = Some (u ''bank''), up_category_path = None, up_session_id = None, up_n_best = 5\<rparr> [] =
      (outcome, st', obs) \<and>
    recognize_text 9 bank_orc (u ''s2'') req [] = (outcome, st', obs')"
proof -
  let ?pcm = "replicate 32 0 :: bytes"
  let ?asr = "\<lambda>w. Inr (stub_transcribe_file (Some (u ''card'')) w)"
  obtain wav where wav: "wrap_pcm_as_wav ?pcm 16000 = Inr wav" "int (length wav) \<le> DEFAULT_MAX_AUDIO_BYTES"
    by (simp add: wrap_pcm_as_wav_def wave_write_mono16_def DEFAULT_MAX_AUDIO_BYTES_def Let_def)
  let ?form = "\<lparr>up_audio = wav, up_scene_id = Some (u ''bank''), up_category_path = None, up_session_id = None, up_n_best = 5\<rparr>"
  have "mock_detect ?pcm 16000 = Inr [\<lparr>sp_start_ms = 0, sp_end_ms = 1\<rparr>]"
    by (simp add: mock_detect_def mock_duration_def)
  then have heard: "heard_text DEFAULT_MAX_AUDIO_BYTES ?asr mock_detect (up_audio ?form) = Some (u ''card'')"
    using wav wav_roundtrip [OF wav(1)] by (simp add: heard_text_def stub_transcribe_file_def stub_text_def)
  have "get_max_audio_bytes [] = Inr DEFAULT_MAX_AUDIO_BYTES" by (simp add: get_max_audio_bytes_def)
  moreover have "o_slu bank_orc = None" by (simp add: bank_orc_def Orchestrator_init_def)
  ultimately show ?thesis
    using file_request_is_text_request [of bank_orc "[]" DEFAULT_MAX_AUDIO_BYTES ?form 9 ?asr mock_detect "u ''s2''" "[]"]
      wav(1) heard by auto
qed

text \<open>
  An upload that is too short to hold a RIFF header is not answered with 400: the \<open>EOFError\<close> of
  the WAV reader is not an \<open>AudioFormatError\<close>, so the request ends in a 500 and is not counted.
\<close>

theorem short_upload_is_server_error:
  assumes "up_audio form \<noteq> []" and "length (up_audio form) < 8" and "up_scene_id form \<noteq> None"
    and "get_max_audio_bytes env = Inr limit" and "7 \<le> limit"
  shows "recognize_file frames env orc transcribe_file detect uuid form st = (ServerError EOFError, st, [])"
  using assms short_upload [OF assms(1,2)] by (simp add: recognize_file_def Let_def)

theorem short_upload_is_server_error_witness:
  "recognize_file 9 [] bank_orc (\<lambda>_. Inl EOFError) mock_detect (u ''s'')
     \<lparr>up_audio = [1, 2, 3], up_scene_id = Some (u ''bank''), up_category_path = None, up_session_id = None, up_n_best = 5\<rparr> [] =
     (ServerError EOFError, [], [])"
  by (rule short_upload_is_server_error [where limit = DEFAULT_MAX_AUDIO_BYTES]) (simp_all add: get_max_audio_bytes_def DEFAULT_MAX_AUDIO_BYTES_def)

end
