(* ===== verification/Embedder.thy ===== *)
theory Embedder
  imports Matcher "HOL-Library.Multiset"
begin

text \<open>
  The sentence-embedding matcher, \<open>models/nlu/onnx_embedder.py\<close>. The tokenizer, the ONNX session and
  float32 arithmetic on vectors (the norm, the division, the scalar product as the float that
  enters the ranking) are fields of \<open>embedder\<close>. The rest is the program's own: the constructor, the
  choice and the normalisation of the sentence vectors, the batch of texts, the slice of each
  intent, the clamped confidence.
\<close>

section \<open>The matcher\<close>

text \<open>The batch of texts and, for each intent, the slice its questions occupy.\<close>

fun embed_batch :: "intent list \<Rightarrow> pystr list \<Rightarrow> (nat \<times> nat) list \<Rightarrow> pystr list \<times> (nat \<times> nat) list" where
  "embed_batch [] texts offsets = (texts, offsets)"
| "embed_batch (i # is) texts offsets =
     (let start = length texts;
          questions = map strip (filter (\<lambda>q. strip q \<noteq> []) (question i))
      in embed_batch is (texts @ questions) (offsets @ [(start, start + length questions)]))"

text \<open>\<open>similarities.max()\<close> of an empty array raises.\<close>

definition array_max :: "pyfloat list \<Rightarrow> pyfloat result" where
  "array_max xs =
     (case xs of [] \<Rightarrow> Inl (ValueError ''zero-size array to reduction operation'') | y # ys \<Rightarrow> Inr (fold max ys y))"

definition cosine_confidence :: "pyfloat \<Rightarrow> pyfloat" where
  "cosine_confidence best_cosine = max 0 (min 1 (fdiv (fadd best_cosine 1) 2))"

fun embed_scored ::
  "('v \<Rightarrow> 'v \<Rightarrow> pyfloat) \<Rightarrow> 'v list \<Rightarrow> 'v \<Rightarrow> (intent \<times> nat \<times> nat) list \<Rightarrow> match_candidate list result" where
  "embed_scored dot vectors transcript_vec [] = Inr []"
| "embed_scored dot vectors transcript_vec ((i, start, end) # rest) =
     (if end \<le> start then embed_scored dot vectors transcript_vec rest
      else
        bindE (array_max (map (\<lambda>v. dot v transcript_vec) (take (end - start) (drop start vectors)))) (\<lambda>best_cosine.
        bindE (MatchCandidate (intent_id i) (cosine_confidence best_cosine)) (\<lambda>c.
        bindE (embed_scored dot vectors transcript_vec rest) (\<lambda>cs. Inr (c # cs)))))"

definition embedder_score ::
  "(pystr list \<Rightarrow> 'v list result) \<Rightarrow> ('v \<Rightarrow> 'v \<Rightarrow> pyfloat) \<Rightarrow>
     pystr \<Rightarrow> intent list \<Rightarrow> int \<Rightarrow> match_candidate list result" where
  "embedder_score emb dot transcript candidates n_best =
     (let transcript = strip transcript
      in if transcript = [] \<or> candidates = [] then Inr []
         else
           (let (texts, offsets) = embed_batch candidates [transcript] []
            in bindE (emb texts) (\<lambda>vectors.
                 case vectors of
                   [] \<Rightarrow> Inl IndexError
                 | transcript_vec # _ \<Rightarrow>
                     bindE (embed_scored dot vectors transcript_vec (zip candidates offsets)) (\<lambda>scored.
                       Inr (py_prefix n_best (sort_key rank_key scored))))))"

section \<open>Embedding\<close>

record encoding =
  enc_ids :: "int list"
  enc_attention_mask :: "int list"
  enc_type_ids :: "int list"

text \<open>The hidden states of a batch: for every text, for every token, a vector.\<close>

type_synonym onnx_session = "int list list \<Rightarrow> int list list \<Rightarrow> int list list \<Rightarrow> pyfloat list list list result"

record embedder =
  em_encode_batch :: "pystr list \<Rightarrow> encoding list"
  em_run :: onnx_session
  em_norm :: "pyfloat list \<Rightarrow> pyfloat"
  em_div :: "pyfloat \<Rightarrow> pyfloat \<Rightarrow> pyfloat"
  em_dot :: "pyfloat list \<Rightarrow> pyfloat list \<Rightarrow> pyfloat"

text \<open>\<open>np.array\<close> of rows that do not have one length raises.\<close>

definition rectangular :: "int list list \<Rightarrow> bool" where
  "rectangular rows \<longleftrightarrow> list_all (\<lambda>r. length r = length (hd rows)) rows"

definition int64_array :: "int list list \<Rightarrow> int list list result" where
  "int64_array rows =
     (if rectangular rows then Inr rows else Inl (ValueError ''setting an array element with a sequence''))"

text \<open>\<open>last_hidden_state[:, 0, :]\<close>\<close>

definition cls_row :: "pyfloat list list \<Rightarrow> pyfloat list result" where
  "cls_row states = (case states of [] \<Rightarrow> Inl IndexError | v # _ \<Rightarrow> Inr v)"

definition normalize :: "embedder \<Rightarrow> pyfloat list \<Rightarrow> pyfloat list" where
  "normalize em v = (let n = em_norm em v; n = (if n = 0 then 1 else n) in map (\<lambda>x. em_div em x n) v)"

definition embed :: "embedder \<Rightarrow> pystr list \<Rightarrow> pyfloat list list result" where
  "embed em texts =
     (let encodings = em_encode_batch em texts
      in bindE (int64_array (map enc_ids encodings)) (\<lambda>input_ids.
         bindE (int64_array (map enc_attention_mask encodings)) (\<lambda>attention_mask.
         bindE (int64_array (map enc_type_ids encodings)) (\<lambda>token_type_ids.
         bindE (em_run em input_ids attention_mask token_type_ids) (\<lambda>last_hidden_state.
         bindE (mapE cls_row last_hidden_state) (\<lambda>cls. Inr (map (normalize em) cls)))))))"

definition onnx_score :: "embedder \<Rightarrow> pystr \<Rightarrow> intent list \<Rightarrow> int \<Rightarrow> match_candidate list result" where
  "onnx_score em = embedder_score (embed em) (em_dot em)"

text \<open>
  \<open>__init__\<close>: the files are looked for before anything is loaded. \<open>open_session\<close> and \<open>open_tokenizer\<close>
  are what the libraries make of them.
\<close>

definition ONNXEmbedderMatcher ::
  "bool \<Rightarrow> bool \<Rightarrow> onnx_session result \<Rightarrow> (pystr list \<Rightarrow> encoding list) result \<Rightarrow>
     (pyfloat list \<Rightarrow> pyfloat) \<Rightarrow> (pyfloat \<Rightarrow> pyfloat \<Rightarrow> pyfloat) \<Rightarrow> (pyfloat list \<Rightarrow> pyfloat list \<Rightarrow> pyfloat) \<Rightarrow>
     embedder result" where
  "ONNXEmbedderMatcher model_exists tokenizer_exists open_session open_tokenizer l2_norm div32 dot =
     (if \<not> model_exists then Inl (ONNXEmbedderError ''NLU embedder model missing'')
      else if \<not> tokenizer_exists then Inl (ONNXEmbedderError ''NLU tokenizer missing'')
      else
        bindE open_session (\<lambda>session.
        bindE open_tokenizer (\<lambda>tokenizer.
          Inr \<lparr>em_encode_batch = tokenizer, em_run = session, em_norm = l2_norm, em_div = div32, em_dot = dot\<rparr>)))"

section \<open>The contract\<close>

lemma cosine_confidence_unit:
  "0 \<le> cosine_confidence x" "cosine_confidence x \<le> 1" "is_double (cosine_confidence x)"
  by (auto simp: cosine_confidence_def max_def min_def)

lemma cosine_confidence_mono: "x \<le> y \<Longrightarrow> cosine_confidence x \<le> cosine_confidence y"
proof -
  assume "x \<le> y"
  then have "fl (x + 1) \<le> fl (y + 1)" by (simp add: fl_mono)
  then have "fl (x + 1) / 2 \<le> fl (y + 1) / 2" by simp
  then have "fl (fl (x + 1) / 2) \<le> fl (fl (y + 1) / 2)" by (rule fl_mono)
  then show ?thesis by (simp add: cosine_confidence_def float_ops max_def min_def)
qed

lemma embed_scored_mem:
  "embed_scored dot vs t ps = Inr cs \<Longrightarrow> c \<in> set cs \<Longrightarrow>
     cand_id c \<in> (intent_id \<circ> fst) ` set ps \<and> (\<exists>x. confidence c = cosine_confidence x)"
  by (induction dot vs t ps arbitrary: cs rule: embed_scored.induct)
    (fastforce simp: result_simps MatchCandidate_def split: if_splits)+

lemma embedder_score_ranked:
  assumes "embedder_score emb dot t pool n = Inr cs"
  shows "ranked_list pool n cs"
proof (cases "strip t = [] \<or> pool = []")
  case True
  then show ?thesis using assms by (auto simp: embedder_score_def ranked_list_def)
next
  case False
  obtain texts offsets where b: "embed_batch pool [strip t] [] = (texts, offsets)" by force
  obtain vectors where "(case vectors of [] \<Rightarrow> Inl IndexError
      | v # _ \<Rightarrow> bindE (embed_scored dot vectors v (zip pool offsets)) (\<lambda>scored.
          Inr (py_prefix n (sort_key rank_key scored)))) = Inr cs"
    using assms False b by (auto simp: embedder_score_def Let_def bindE_Inr_iff)
  then obtain v vs scored where scored: "embed_scored dot (v # vs) v (zip pool offsets) = Inr scored"
    and cs: "cs = py_prefix n (sort_key rank_key scored)"
    by (cases vectors) (auto simp: bindE_Inr_iff)
  have "cand_id c \<in> intent_id ` set pool \<and> 0 \<le> confidence c \<and> confidence c \<le> 1 \<and> is_double (confidence c)"
    if "c \<in> set cs" for c
  proof -
    have "c \<in> set scored" using that cs set_py_prefix by fastforce
    from embed_scored_mem [OF scored this] show ?thesis
      using cosine_confidence_unit set_zip_leftD by fastforce
  qed
  then show ?thesis by (simp add: cs ranked_list_def sorted_py_prefix length_py_prefix)
qed

interpretation onnx: intent_matcher "onnx_score em" for em
  unfolding onnx_score_def by unfold_locales (rule embedder_score_ranked)

section \<open>The slices\<close>

definition own_questions :: "intent \<Rightarrow> pystr list" where
  "own_questions i = map strip (filter (\<lambda>q. strip q \<noteq> []) (question i))"

text \<open>A list cut into consecutive shares of given lengths.\<close>

fun cut_by :: "nat list \<Rightarrow> 'a list \<Rightarrow> 'a list list" where
  "cut_by [] xs = []"
| "cut_by (n # ns) xs = take n xs # cut_by ns (drop n xs)"

lemma cut_by_lengths: "length xs = sum_list ns \<Longrightarrow> concat (cut_by ns xs) = xs \<and> map length (cut_by ns xs) = ns"
  by (induction ns xs rule: cut_by.induct) auto

abbreviation slice :: "'a list \<Rightarrow> nat \<times> nat \<Rightarrow> 'a list" where
  "slice xs p \<equiv> take (snd p - fst p) (drop (fst p) xs)"

text \<open>The batch is the given texts and then every intent's non-blank questions; the offsets cut it into these.\<close>

lemma embed_batch_slices:
  fixes vs :: "'v list"
  shows "\<exists>new. embed_batch is texts offsets = (texts @ concat (map own_questions is), offsets @ new) \<and>
     length new = length is \<and> map (slice vs) new = cut_by (map (length \<circ> own_questions) is) (drop (length texts) vs) \<and>
     (\<forall>(s, e) \<in> set new. e \<le> length texts + length (concat (map own_questions is)))"
proof (induction "is" arbitrary: texts offsets)
  case (Cons i "is")
  let ?q = "own_questions i" and ?s = "length texts"
  obtain new where IH: "embed_batch is (texts @ ?q) (offsets @ [(?s, ?s + length ?q)]) =
        ((texts @ ?q) @ concat (map own_questions is), (offsets @ [(?s, ?s + length ?q)]) @ new)"
      "length new = length is"
      "map (slice vs) new = cut_by (map (length \<circ> own_questions) is) (drop (length (texts @ ?q)) vs)"
      "\<forall>(s, e) \<in> set new. e \<le> length (texts @ ?q) + length (concat (map own_questions is))"
    using Cons.IH by blast
  have "drop (length (texts @ ?q)) vs = drop (length ?q) (drop ?s vs)"
    by (simp add: add.commute)
  moreover have "embed_batch (i # is) texts offsets = embed_batch is (texts @ ?q) (offsets @ [(?s, ?s + length ?q)])"
    by (simp add: own_questions_def Let_def)
  ultimately show ?case using IH
    by (intro exI [of _ "(?s, ?s + length ?q) # new"]) (auto simp: add.assoc comp_def)
qed simp

lemma array_max_map:
  "xs \<noteq> [] \<Longrightarrow> array_max (map f xs) = Inr (Max (f ` set xs))"
  by (cases xs) (auto simp: array_max_def Max.set_eq_fold [symmetric])

text \<open>The candidate an intent enters the ranking with, given the vectors of its questions.\<close>

definition best_candidate :: "('v \<Rightarrow> 'v \<Rightarrow> pyfloat) \<Rightarrow> 'v \<Rightarrow> intent \<times> 'v list \<Rightarrow> match_candidate" where
  "best_candidate dot t = (\<lambda>(i, vs). \<lparr>cand_id = intent_id i,
     confidence = cosine_confidence (Max ((\<lambda>v. dot v t) ` set vs))\<rparr>)"

lemma embed_scored_eq:
  assumes "\<forall>(i, s, e) \<in> set ps. e \<le> length vs"
  shows "embed_scored dot vs t ps =
    Inr (map (best_candidate dot t) (filter (\<lambda>(i, v). v \<noteq> []) (map (\<lambda>(i, p). (i, slice vs p)) ps)))"
  using assms
proof (induction dot vs t ps rule: embed_scored.induct)
  case (2 dot vs t i s e ps)
  show ?case
  proof (cases "e \<le> s")
    case True
    then show ?thesis using 2 by simp
  next
    case False
    then have ne: "take (e - s) (drop s vs) \<noteq> []" using "2.prems" by auto
    then show ?thesis
      using False 2 array_max_map [OF ne, of "\<lambda>v. dot v t"] cosine_confidence_unit
      by (simp add: MatchCandidate_def best_candidate_def)
  qed
qed simp

lemma embedder_score_eq:
  assumes "emb (strip t # concat (map own_questions pool)) = Inr (tv # vs)"
    and len: "length vs = length (concat (map own_questions pool))" and "strip t \<noteq> []"
  shows "embedder_score emb dot t pool n = Inr (py_prefix n (sort_key rank_key (map (best_candidate dot tv)
    (filter (\<lambda>(i, v). v \<noteq> []) (zip pool (cut_by (map (length \<circ> own_questions) pool) vs))))))"
proof (cases "pool = []")
  case True
  then show ?thesis by (simp add: embedder_score_def py_prefix_def)
next
  case False
  obtain new where b: "embed_batch pool [strip t] [] = (strip t # concat (map own_questions pool), new)"
    and new: "length new = length pool"
      "map (slice (tv # vs)) new = cut_by (map (length \<circ> own_questions) pool) (drop (length [strip t]) (tv # vs))"
      "\<forall>(s, e) \<in> set new. e \<le> length [strip t] + length (concat (map own_questions pool))"
    using embed_batch_slices [of pool "[strip t]" "[]" "tv # vs"] by auto
  have "\<forall>(i, s, e) \<in> set (zip pool new). e \<le> length (tv # vs)"
    using new(3) len by (fastforce dest: set_zip_rightD)
  note scored = embed_scored_eq [OF this, of dot tv]
  have "map (\<lambda>(i, p). (i, slice (tv # vs) p)) (zip pool new) = zip pool (map (slice (tv # vs)) new)"
    by (simp add: zip_map2)
  then show ?thesis
    using False assms(1,3) b scored new(2) by (simp add: embedder_score_def Let_def)
qed

section \<open>Properties\<close>

text \<open>
  What the libraries return for a batch: the tokenizer pads its encodings to one length, and the
  session gives every text of the batch its hidden states, of which there is at least one. How a
  row depends on the batch is left open.
\<close>

definition batch_states :: "embedder \<Rightarrow> pystr list \<Rightarrow> pyfloat list list list \<Rightarrow> bool" where
  "batch_states em texts hidden \<longleftrightarrow>
     (let es = em_encode_batch em texts; ids = map enc_ids es; mask = map enc_attention_mask es; types = map enc_type_ids es
      in rectangular ids \<and> rectangular mask \<and> rectangular types \<and>
         em_run em ids mask types = Inr hidden \<and> length hidden = length texts \<and> [] \<notin> set hidden)"

lemma embed_batch_states:
  assumes "batch_states em texts hidden"
  shows "embed em texts = Inr (map (normalize em \<circ> hd) hidden)"
proof -
  have "cls_row states = Inr (hd states)" if "states \<in> set hidden" for states
    using assms that by (cases states) (auto simp: cls_row_def batch_states_def Let_def)
  then have "mapE cls_row hidden = Inr (map hd hidden)" using mapE_Inr [of hidden cls_row hd] by simp
  then show ?thesis using assms by (simp add: embed_def batch_states_def int64_array_def Let_def)
qed

text \<open>
  C28. The embedding matcher ranks the intents by their best question. For a transcript that is not
  blank the batch is the transcript and then every intent's non-blank questions; given the hidden
  states \<open>hidden\<close> of that batch, the sentence vectors after the first are shared out to the intents in
  order, each getting as many as it has non-blank questions, and the answer is the first \<open>n_best\<close>
  entries of a full ranking by descending confidence and identifier. The ranking holds one entry
  for every intent with a non-blank question (the others are skipped): the clamped confidence of the
  largest scalar product between the normalised vector of the transcript and those of its share.
\<close>

theorem embedder_ranks_best_question:
  assumes "batch_states em (strip t # concat (map own_questions pool)) hidden" and "strip t \<noteq> []"
  shows "\<exists>shares ranking. onnx_score em t pool n = Inr (py_prefix n ranking) \<and> sorted (map rank_key ranking) \<and>
    concat shares = map (normalize em \<circ> hd) (tl hidden) \<and> map length shares = map (length \<circ> own_questions) pool \<and>
    mset ranking = image_mset (\<lambda>(i, share). \<lparr>cand_id = intent_id i, confidence = cosine_confidence
        (Max ((\<lambda>v. em_dot em v (normalize em (hd (hd hidden)))) ` set share))\<rparr>)
      (filter_mset (\<lambda>(i, share). share \<noteq> []) (mset (zip pool shares)))"
proof -
  let ?vec = "normalize em \<circ> hd"
  obtain h hs where hidden: "hidden = h # hs" "length hs = length (concat (map own_questions pool))"
    using assms(1) by (cases hidden) (auto simp: batch_states_def Let_def)
  let ?shares = "cut_by (map (length \<circ> own_questions) pool) (map ?vec hs)"
  have "embed em (strip t # concat (map own_questions pool)) = Inr (?vec h # map ?vec hs)"
    using embed_batch_states [OF assms(1)] hidden(1) by simp
  from embedder_score_eq [where emb = "embed em" and dot = "em_dot em" and n = n, OF this _ assms(2)]
  have score: "onnx_score em t pool n = Inr (py_prefix n (sort_key rank_key (map (best_candidate (em_dot em) (?vec h))
      (filter (\<lambda>(i, v). v \<noteq> []) (zip pool ?shares)))))"
    using hidden(2) by (simp add: onnx_score_def)
  have "concat ?shares = map ?vec hs \<and> map length ?shares = map (length \<circ> own_questions) pool"
    by (rule cut_by_lengths) (simp add: hidden(2) length_concat comp_def)
  then show ?thesis
    using score by (intro exI [of _ ?shares] exI conjI) (auto simp: hidden(1) best_candidate_def)
qed

text \<open>One token per text, its length, which is also its vector.\<close>

definition length_embedder :: embedder where
  "length_embedder =
     \<lparr>em_encode_batch = map (\<lambda>t. \<lparr>enc_ids = [int (length t)], enc_attention_mask = [1], enc_type_ids = [0]\<rparr>),
      em_run = (\<lambda>ids mask types. Inr (map (\<lambda>row. [map rat_of_int row]) ids)),
      em_norm = (\<lambda>v. \<bar>hd v\<bar>), em_div = (/), em_dot = (\<lambda>v w. if v = w then 1 else 0)\<rparr>"

lemma length_embedder_states:
  "batch_states length_embedder texts (map (\<lambda>t. [[rat_of_nat (length t)]]) texts)"
  by (cases texts) (auto simp: batch_states_def length_embedder_def rectangular_def list_all_iff Let_def comp_def)

theorem embedder_ranks_best_question_witness:
  "\<exists>(shares :: pyfloat list list list) ranking. onnx_score length_embedder (u ''card'') stub_pool 1 = Inr (py_prefix 1 ranking) \<and>
     sorted (map rank_key ranking) \<and> map length shares = [1, 2] \<and> size (mset ranking) = 2"
proof -
  have ne: "strip (u ''card'') \<noteq> []" by code_simp
  have "strip (u ''hello'') = u ''hello''" "strip (u ''card'') = u ''card''"
      "strip (u ''lost card'') = u ''lost card''"
    by (intro strip_by_id; simp add: is_space_def)+
  then have own: "map (length \<circ> own_questions) stub_pool = [1, 2]"
    by (simp add: own_questions_def stub_pool_def mk_int_def)
  obtain shares ranking where r: "onnx_score length_embedder (u ''card'') stub_pool 1 = Inr (py_prefix 1 ranking)"
      "sorted (map rank_key ranking)" "map length shares = map (length \<circ> own_questions) stub_pool"
      "mset ranking = image_mset (\<lambda>(i, share). \<lparr>cand_id = intent_id i, confidence = cosine_confidence
        (Max ((\<lambda>v. em_dot length_embedder v (normalize length_embedder
           (hd (hd (map (\<lambda>t. [[rat_of_nat (length t)]]) (strip (u ''card'') # concat (map own_questions stub_pool))))))) ` set share))\<rparr>)
        (filter_mset (\<lambda>(i, share). share \<noteq> []) (mset (zip stub_pool shares)))"
    using embedder_ranks_best_question [where n = 1 and pool = stub_pool, OF length_embedder_states ne] by blast
  obtain x y z where "shares = [[x], [y, z]]"
    using r(3) own by (auto simp: length_Suc_conv map_eq_Cons_conv numeral_2_eq_2)
  then have "size (mset ranking) = 2" unfolding r(4) by (simp add: stub_pool_def)
  then show ?thesis using r(1,2) r(3) [unfolded own]
    by (intro exI [of _ shares] exI [of _ ranking] conjI)
qed

end
