(* ===== verification/Boot.thy ===== *)
theory Boot
  imports Http_Api Embedder Bridge_Server
begin

text \<open>
  How a service comes up: the logging configuration of \<open>api/logging_config.py\<close>, the cached factories
  of \<open>api/deps.py\<close> with the constructors of the models they choose, the warm-up and the readiness
  probe of \<open>api/app.py\<close>. \<open>lru_cache(maxsize=1)\<close> around a factory without arguments keeps the first
  value and forgets errors. What a factory computes depends on the \<open>host\<close> at the time of the call:
  environment, files, and what the libraries make of the model files. A session store has an
  identity, a number. Shown here: after a successful boot every request is served by the same
  registry, store and matcher, whatever becomes of the host, and in production by the models; the
  bridge, which boots without the warm-up, does not keep that promise.
\<close>

section \<open>Logging\<close>

text \<open>
  \<open>str.upper\<close>, as far as a comparison with upper-case ASCII can see it: apart from the ASCII letters,
  the dotless i, the long s, the sharp s and the ligatures become ASCII letters.
\<close>

definition upper_char :: "nat \<Rightarrow> pystr" where
  "upper_char c =
     (if 97 \<le> c \<and> c \<le> 122 then [c - 32]
      else if c = 0x131 then u ''I'' else if c = 0x17F then u ''S'' else if c = 0xDF then u ''SS''
      else if c = 0xFB00 then u ''FF'' else if c = 0xFB01 then u ''FI'' else if c = 0xFB02 then u ''FL''
      else if c = 0xFB03 then u ''FFI'' else if c = 0xFB04 then u ''FFL''
      else if c = 0xFB05 \<or> c = 0xFB06 then u ''ST'' else [c])"

definition upper :: "pystr \<Rightarrow> pystr" where
  "upper s = concat (map upper_char s)"

text \<open>The attributes of the module \<open>logging\<close> with upper-case names: a level, or the error of \<open>setLevel\<close>.\<close>

definition logging_attributes :: "(pystr, int result) dict" where
  "logging_attributes =
     [(u ''CRITICAL'', Inr 50), (u ''FATAL'', Inr 50), (u ''ERROR'', Inr 40), (u ''WARNING'', Inr 30),
      (u ''WARN'', Inr 30), (u ''INFO'', Inr 20), (u ''DEBUG'', Inr 10), (u ''NOTSET'', Inr 0),
      (u ''BASIC_FORMAT'', Inl (ValueError ''Unknown level'')),
      (u ''_STYLES'', Inl (TypeError ''Level not an integer or a valid string''))]"

datatype log_format = PlainFormat | JsonFormat

record logging_state =
  root_handlers :: "log_format list"
  root_level :: int
  access_level :: int

definition configure_logging :: "environ \<Rightarrow> logging_state \<Rightarrow> unit result \<times> logging_state" where
  "configure_logging env lg =
     (let level_name = upper (env_get env ''SANDROID_LOG_LEVEL'' ''INFO'');
          level = (case dget logging_attributes level_name of None \<Rightarrow> Inr 20 | Some l \<Rightarrow> l);
          fmt = lower (env_get env ''SANDROID_LOG_FORMAT'' ''plain'');
          handler = (if fmt = u ''json'' then JsonFormat else PlainFormat);
          lg = lg\<lparr>root_handlers := [handler]\<rparr>
      in case level of
           Inl e \<Rightarrow> (Inl e, lg)
         | Inr l \<Rightarrow> (Inr (), lg\<lparr>root_level := l, access_level := 30\<rparr>))"

text \<open>A second call changes nothing: handlers are replaced, not added.\<close>

lemma configure_logging_twice:
  "configure_logging env (snd (configure_logging env lg)) = configure_logging env lg"
  by (simp add: configure_logging_def Let_def split: sum.split)

section \<open>Factories\<close>

record host =
  h_env :: environ
  h_exists :: "pystr \<Rightarrow> bool"
  h_lines :: "pystr \<Rightarrow> pystr list option"
  h_listing :: "pystr \<Rightarrow> (pystr \<times> nat) list option"
  h_read :: "nat \<Rightarrow> scene_data option"
  h_scenes_dir :: pystr
  h_models_root :: pystr
  h_embedder_session :: "pystr \<Rightarrow> int \<Rightarrow> onnx_session result"
  h_tokenizer :: "pystr \<Rightarrow> (pystr list \<Rightarrow> encoding list) result"
  h_silero_session :: "pystr \<Rightarrow> int \<Rightarrow> (pyfloat list) infer result"
  h_paraformer_session :: "pystr \<Rightarrow> int \<Rightarrow> (pyfloat list list \<Rightarrow> pyfloat list list) result"
  h_fbank :: "pyfloat list \<Rightarrow> pyfloat list list"
  h_to_f32 :: "pystr \<Rightarrow> pyfloat result"
  h_add :: "pyfloat \<Rightarrow> pyfloat \<Rightarrow> pyfloat"
  h_mul :: "pyfloat \<Rightarrow> pyfloat \<Rightarrow> pyfloat"
  h_div :: "pyfloat \<Rightarrow> pyfloat \<Rightarrow> pyfloat"
  h_norm :: "pyfloat list \<Rightarrow> pyfloat"
  h_dot :: "pyfloat list \<Rightarrow> pyfloat list \<Rightarrow> pyfloat"

definition path_setting :: "host \<Rightarrow> string \<Rightarrow> pystr \<Rightarrow> pystr" where
  "path_setting h var dflt = (case dget (h_env h) (u var) of None \<Rightarrow> dflt | Some v \<Rightarrow> v)"

definition model_path :: "host \<Rightarrow> string \<Rightarrow> string \<Rightarrow> pystr" where
  "model_path h var file = path_setting h var (h_models_root h @ u ''/'' @ u file)"

definition make_registry :: "host \<Rightarrow> scene_registry result" where
  "make_registry h = from_directory (h_read h) (h_listing h (path_setting h ''SANDROID_SCENES_DIR'' (h_scenes_dir h)))"

fun is_embedder_error :: "exn \<Rightarrow> bool" where
  "is_embedder_error (ONNXEmbedderError _) = True"
| "is_embedder_error _ = False"

fun is_paraformer_error :: "exn \<Rightarrow> bool" where
  "is_paraformer_error (ParaformerError _) = True"
| "is_paraformer_error _ = False"

fun is_silero_error :: "exn \<Rightarrow> bool" where
  "is_silero_error (SileroVADError _) = True"
| "is_silero_error _ = False"

definition make_embedder :: "host \<Rightarrow> matcher result" where
  "make_embedder h =
     (let model = model_path h ''SANDROID_NLU_MODEL_PATH'' ''nlu_embedder_quantized.onnx'';
          tokenizer = model_path h ''SANDROID_NLU_TOKENIZER_PATH'' ''nlu_tokenizer.json''
      in bindE (ONNXEmbedderMatcher (h_exists h model) (h_exists h tokenizer)
           (bindE (intra_op_threads (h_env h)) (h_embedder_session h model)) (h_tokenizer h tokenizer)
           (h_norm h) (h_div h) (h_dot h)) (\<lambda>em. Inr (onnx_score em)))"

definition make_paraformer :: "host \<Rightarrow> asr_stream result" where
  "make_paraformer h =
     (let model = model_path h ''SANDROID_ASR_MODEL_PATH'' ''paraformer_zh.int8.onnx'';
          tokens = model_path h ''SANDROID_ASR_TOKENS_PATH'' ''paraformer_zh.tokens.txt'';
          cmvn = model_path h ''SANDROID_ASR_CMVN_PATH'' ''paraformer_zh.am.mvn''
      in bindE (ParaformerASR (h_fbank h) (h_add h) (h_mul h)
           (bindE (intra_op_threads (h_env h)) (h_paraformer_session h model)) (h_to_f32 h)
           (h_exists h model) (h_lines h tokens) (h_lines h cmvn) PARTIAL_EMIT_MS) (\<lambda>pf. Inr (paraformer_stream pf)))"

definition make_silero :: "host \<Rightarrow> vad_backend result" where
  "make_silero h =
     (let model = model_path h ''SANDROID_SILERO_PATH'' ''silero_vad.onnx''
      in bindE (SileroVAD (h_exists h model) (bindE (intra_op_threads (h_env h)) (h_silero_session h model)))
           (\<lambda>infer. Inr (silero_stream_segments infer (1 / 2) (replicate 256 0))))"

abbreviation make_matcher :: "host \<Rightarrow> matcher result" where
  "make_matcher h \<equiv> get_matcher (h_env h) is_embedder_error (make_embedder h)"

abbreviation make_asr :: "host \<Rightarrow> asr_stream result" where
  "make_asr h \<equiv> get_asr (h_env h) is_paraformer_error (make_paraformer h)"

abbreviation make_vad :: "host \<Rightarrow> vad_backend result" where
  "make_vad h \<equiv> get_vad (h_env h) is_silero_error (make_silero h)"

section \<open>Caches\<close>

record caches =
  c_registry :: "scene_registry option"
  c_session_store :: "nat option"
  c_matcher :: "matcher option"
  c_asr :: "asr_stream option"
  c_slu :: "slu_backend option"
  c_vad :: "vad_backend option"
  c_stores_made :: nat

definition no_caches :: caches where
  "no_caches = \<lparr>c_registry = None, c_session_store = None, c_matcher = None, c_asr = None, c_slu = None,
     c_vad = None, c_stores_made = 0\<rparr>"

definition lru_cached :: "'a result \<Rightarrow> 'a option \<Rightarrow> 'a result \<times> 'a option" where
  "lru_cached compute cached =
     (case cached of
        Some v \<Rightarrow> (Inr v, Some v)
      | None \<Rightarrow> (case compute of Inl e \<Rightarrow> (Inl e, None) | Inr v \<Rightarrow> (Inr v, Some v)))"

definition cached_registry :: "host \<Rightarrow> caches \<Rightarrow> scene_registry result \<times> caches" where
  "cached_registry h c = (case lru_cached (make_registry h) (c_registry c) of (r, v) \<Rightarrow> (r, c\<lparr>c_registry := v\<rparr>))"

definition cached_session_store :: "caches \<Rightarrow> nat result \<times> caches" where
  "cached_session_store c =
     (case lru_cached (Inr (c_stores_made c)) (c_session_store c) of (r, v) \<Rightarrow>
        (r, c\<lparr>c_session_store := v,
              c_stores_made := (if c_session_store c = None then Suc (c_stores_made c) else c_stores_made c)\<rparr>))"

definition cached_matcher :: "host \<Rightarrow> caches \<Rightarrow> matcher result \<times> caches" where
  "cached_matcher h c = (case lru_cached (make_matcher h) (c_matcher c) of (r, v) \<Rightarrow> (r, c\<lparr>c_matcher := v\<rparr>))"

definition cached_asr :: "host \<Rightarrow> caches \<Rightarrow> asr_stream result \<times> caches" where
  "cached_asr h c = (case lru_cached (make_asr h) (c_asr c) of (r, v) \<Rightarrow> (r, c\<lparr>c_asr := v\<rparr>))"

definition cached_slu :: "host \<Rightarrow> caches \<Rightarrow> slu_backend result \<times> caches" where
  "cached_slu h c = (case lru_cached (get_slu (h_env h)) (c_slu c) of (r, v) \<Rightarrow> (r, c\<lparr>c_slu := v\<rparr>))"

definition cached_vad :: "host \<Rightarrow> caches \<Rightarrow> vad_backend result \<times> caches" where
  "cached_vad h c = (case lru_cached (make_vad h) (c_vad c) of (r, v) \<Rightarrow> (r, c\<lparr>c_vad := v\<rparr>))"

definition reset_dependency_caches :: "caches \<Rightarrow> caches" where
  "reset_dependency_caches c =
     c\<lparr>c_registry := None, c_session_store := None, c_matcher := None, c_asr := None, c_slu := None, c_vad := None\<rparr>"

text \<open>One call after another, until one raises.\<close>

definition then_call ::
  "('c \<Rightarrow> 'a result \<times> 'c) \<Rightarrow> ('a \<Rightarrow> 'c \<Rightarrow> 'b result \<times> 'c) \<Rightarrow> 'c \<Rightarrow> 'b result \<times> 'c" where
  "then_call m f c = (case m c of (Inl e, c) \<Rightarrow> (Inl e, c) | (Inr v, c) \<Rightarrow> f v c)"

text \<open>The dependencies of a recognition endpoint: the identity of the session store, and the orchestrator.\<close>

definition orchestrator_dependency :: "host \<Rightarrow> caches \<Rightarrow> (nat \<times> orchestrator) result \<times> caches" where
  "orchestrator_dependency h =
     then_call (cached_registry h) (\<lambda>registry.
     then_call cached_session_store (\<lambda>sessions.
     then_call (cached_matcher h) (\<lambda>matcher c. (Inr (sessions, get_orchestrator registry matcher), c))))"

definition warm_up :: "bool \<Rightarrow> host \<Rightarrow> caches \<Rightarrow> unit result \<times> caches" where
  "warm_up dependency_overrides h c =
     (if dependency_overrides then (Inr (), c)
      else
        then_call (cached_registry h) (\<lambda>_.
        then_call cached_session_store (\<lambda>_.
        then_call (cached_matcher h) (\<lambda>_.
        then_call (cached_vad h) (\<lambda>_.
        then_call (cached_asr h) (\<lambda>_ c. (Inr (), c)))))) c)"

definition probe_readiness :: "host \<Rightarrow> caches \<Rightarrow> (nat \<times> string \<times> (string \<times> exn option) list) \<times> caches" where
  "probe_readiness h c =
     (let (registry, c) = cached_registry h c; (sessions, c) = cached_session_store c;
          (matcher, c) = cached_matcher h c; (vad, c) = cached_vad h c; (asr, c) = cached_asr h c
      in (readyz (readiness_probes registry matcher vad asr), c))"

section \<open>Runs of a process\<close>

text \<open>Any factory may be called at any time, on whatever the host has become.\<close>

inductive deps_step :: "caches \<Rightarrow> caches \<Rightarrow> bool" where
  registry: "deps_step c (snd (cached_registry h c))"
| session_store: "deps_step c (snd (cached_session_store c))"
| matcher: "deps_step c (snd (cached_matcher h c))"
| asr: "deps_step c (snd (cached_asr h c))"
| slu: "deps_step c (snd (cached_slu h c))"
| vad: "deps_step c (snd (cached_vad h c))"

lemmas cached_defs = cached_registry_def cached_session_store_def cached_matcher_def cached_asr_def cached_slu_def cached_vad_def

lemma lru_cached_simps [simp]:
  "lru_cached r (Some v) = (Inr v, Some v)" "lru_cached (Inl e) None = (Inl e, None)" "lru_cached (Inr v) None = (Inr v, Some v)"
  by (simp_all add: lru_cached_def)

text \<open>What is cached stays; only the reset forgets it.\<close>

definition keeps :: "caches \<Rightarrow> caches \<Rightarrow> bool" where
  "keeps c c' \<longleftrightarrow>
     (\<forall>v. c_registry c = Some v \<longrightarrow> c_registry c' = Some v) \<and>
     (\<forall>v. c_session_store c = Some v \<longrightarrow> c_session_store c' = Some v) \<and>
     (\<forall>v. c_matcher c = Some v \<longrightarrow> c_matcher c' = Some v) \<and>
     (\<forall>v. c_asr c = Some v \<longrightarrow> c_asr c' = Some v) \<and>
     (\<forall>v. c_vad c = Some v \<longrightarrow> c_vad c' = Some v)"

lemma deps_step_keeps: "deps_step c c' \<Longrightarrow> keeps c c'"
  by (induction rule: deps_step.induct) (auto simp: cached_defs keeps_def split: prod.split)

lemma deps_run_keeps: "deps_step\<^sup>*\<^sup>* c c' \<Longrightarrow> keeps c c'"
  by (induction rule: rtranclp_induct) (auto simp: keeps_def dest!: deps_step_keeps)

text \<open>A boot from nothing fills every cache it touches with what the host gives at that time.\<close>

lemma warm_up_fills:
  assumes "warm_up False h no_caches = (Inr (), c)"
  obtains reg m vad asr where
    "make_registry h = Inr reg" "make_matcher h = Inr m" "make_vad h = Inr vad" "make_asr h = Inr asr"
    "c_registry c = Some reg" "c_session_store c = Some 0" "c_matcher c = Some m" "c_vad c = Some vad" "c_asr c = Some asr"
  using assms
  by (cases "make_registry h"; cases "make_matcher h"; cases "make_vad h"; cases "make_asr h")
    (auto simp: warm_up_def then_call_def cached_defs no_caches_def)

lemma cached_all:
  assumes "c_registry c = Some reg" and "c_session_store c = Some i" and "c_matcher c = Some m"
  shows "cached_registry h c = (Inr reg, c)" "cached_session_store c = (Inr i, c)" "cached_matcher h c = (Inr m, c)"
  using assms by (simp_all add: cached_defs)

lemma served_from_cache:
  assumes "c_registry c = Some reg" and "c_session_store c = Some i" and "c_matcher c = Some m"
    and "c_vad c = Some vad" and "c_asr c = Some asr"
  shows "orchestrator_dependency h c = (Inr (i, get_orchestrator reg m), c)" and "fst (fst (probe_readiness h c)) = 200"
proof -
  note hits = cached_all [OF assms(1-3)]
  show "orchestrator_dependency h c = (Inr (i, get_orchestrator reg m), c)"
    by (simp add: orchestrator_dependency_def then_call_def hits)
  have "cached_vad h c = (Inr vad, c)" "cached_asr h c = (Inr asr, c)" using assms(4,5) by (simp_all add: cached_defs)
  then show "fst (fst (probe_readiness h c)) = 200"
    by (simp add: probe_readiness_def hits ready_iff_boots lifespan_def readiness_probes_def probe_of_def)
qed

section \<open>The bridge\<close>

text \<open>
  The bridge calls the same factories, but lazily, and any error of theirs disables the matcher;
  \<open>_get_orchestrator\<close> keeps the first outcome, whatever it was.
\<close>

definition bridge_factory :: "bool \<Rightarrow> host \<Rightarrow> caches \<Rightarrow> orchestrator option \<times> caches" where
  "bridge_factory importable h c =
     (if \<not> importable then (None, c)
      else (case orchestrator_dependency h c of (Inr (_, orc), c) \<Rightarrow> (Some orc, c) | (Inl e, c) \<Rightarrow> (None, c)))"

record bridge_boot =
  bb_orchestrator :: "orchestrator option"
  bb_orchestrator_built :: bool

definition bridge_get_orchestrator ::
  "bool \<Rightarrow> host \<Rightarrow> bridge_boot \<times> caches \<Rightarrow> orchestrator option \<times> bridge_boot \<times> caches" where
  "bridge_get_orchestrator importable h s =
     (case s of (b, c) \<Rightarrow>
        if bb_orchestrator_built b then (bb_orchestrator b, b, c)
        else (case bridge_factory importable h c of (orc, c) \<Rightarrow>
                (orc, \<lparr>bb_orchestrator = orc, bb_orchestrator_built = True\<rparr>, c)))"

text \<open>On fresh caches the factory is the one the bridge's turns are modelled with.\<close>

lemma bridge_factory_eq:
  "fst (bridge_factory importable h no_caches) =
     default_orchestrator_factory (if importable then Some (make_registry h, make_matcher h) else None)"
  by (cases "make_registry h"; cases "make_matcher h")
    (auto simp: bridge_factory_def default_orchestrator_factory_def orchestrator_dependency_def then_call_def
      cached_defs no_caches_def get_orchestrator_def)

section \<open>Properties\<close>

text \<open>
  C17. What a service serves is settled when it boots: after a successful warm-up, whichever factories
  are called later and whatever the environment and the files have become, every request gets the
  registry and the matcher of the boot and one and the same session store, and the readiness
  probe answers 200; and if the boot was in production with no stub named, matcher, detector and
  recogniser are the models.
\<close>

theorem boot_is_final:
  assumes "warm_up False h0 no_caches = (Inr (), c0)" and "deps_step\<^sup>*\<^sup>* c0 c"
  shows "\<exists>reg m. make_registry h0 = Inr reg \<and> make_matcher h0 = Inr m \<and>
    (\<forall>h. orchestrator_dependency h c = (Inr (0, get_orchestrator reg m), c) \<and> fst (fst (probe_readiness h c)) = 200) \<and>
    (is_production (h_env h0) \<longrightarrow>
       (lower (env_get (h_env h0) ''SANDROID_NLU_BACKEND'' ''embedder'') \<noteq> u ''stub'' \<longrightarrow> make_embedder h0 = Inr m) \<and>
       (lower (env_get (h_env h0) ''SANDROID_VAD_BACKEND'' ''silero'') \<noteq> u ''mock'' \<longrightarrow> make_silero h0 = Inr (the (c_vad c))) \<and>
       (lower (env_get (h_env h0) ''SANDROID_ASR_BACKEND'' ''paraformer'') \<noteq> u ''stub'' \<longrightarrow> make_paraformer h0 = Inr (the (c_asr c))))"
proof -
  obtain reg m vad asr where made: "make_registry h0 = Inr reg" "make_matcher h0 = Inr m" "make_vad h0 = Inr vad" "make_asr h0 = Inr asr"
    and c0: "c_registry c0 = Some reg" "c_session_store c0 = Some 0" "c_matcher c0 = Some m" "c_vad c0 = Some vad" "c_asr c0 = Some asr"
    using assms(1) by (rule warm_up_fills)
  have "keeps c0 c" using assms(2) by (rule deps_run_keeps)
  then have c: "c_registry c = Some reg" "c_session_store c = Some 0" "c_matcher c = Some m" "c_vad c = Some vad" "c_asr c = Some asr"
    using c0 by (simp_all add: keeps_def)
  have "make_embedder h0 = Inr m" if "is_production (h_env h0)" "lower (env_get (h_env h0) ''SANDROID_NLU_BACKEND'' ''embedder'') \<noteq> u ''stub''"
    using select_backend_production [OF that(1) made(2) [unfolded get_matcher_def]] that(2) by blast
  moreover have "make_silero h0 = Inr vad" if "is_production (h_env h0)" "lower (env_get (h_env h0) ''SANDROID_VAD_BACKEND'' ''silero'') \<noteq> u ''mock''"
    using select_backend_production [OF that(1) made(3) [unfolded get_vad_def]] that(2) by blast
  moreover have "make_paraformer h0 = Inr asr" if "is_production (h_env h0)" "lower (env_get (h_env h0) ''SANDROID_ASR_BACKEND'' ''paraformer'') \<noteq> u ''stub''"
    using select_backend_production [OF that(1) made(4) [unfolded get_asr_def]] that(2) by blast
  ultimately show ?thesis
    using made(1,2) served_from_cache [OF c] by (intro exI [of _ reg] exI [of _ m]) (simp add: c(4,5))
qed

text \<open>
  C40. A missing model stops a service in production, but not the bridge: if the file of the sentence
  embedder is missing and no stub is named, the warm-up of the service raises, while a bridge that
  meets the same host at its first turn has no orchestrator, at that turn and ever after, also
  once the file is there.
\<close>

theorem bridge_downgrades_in_production:
  assumes "is_production (h_env h0)" and "make_registry h0 = Inr reg"
    and "lower (env_get (h_env h0) ''SANDROID_NLU_BACKEND'' ''embedder'') = u ''embedder''"
    and "\<not> h_exists h0 (model_path h0 ''SANDROID_NLU_MODEL_PATH'' ''nlu_embedder_quantized.onnx'')"
    and "\<not> bb_orchestrator_built b"
  shows "(\<exists>c. warm_up False h0 no_caches = (Inl (ONNXEmbedderError ''NLU embedder model missing''), c)) \<and>
    (\<exists>s. bridge_get_orchestrator importable h0 (b, no_caches) = (None, s) \<and>
       (\<forall>h. bridge_get_orchestrator importable h s = (None, s)))"
proof -
  have m: "make_matcher h0 = Inl (ONNXEmbedderError ''NLU embedder model missing'')"
    using assms(1,3,4) by (simp add: get_matcher_def select_backend_def make_embedder_def ONNXEmbedderMatcher_def)
  have boot: "\<exists>c. warm_up False h0 no_caches = (Inl (ONNXEmbedderError ''NLU embedder model missing''), c)"
    by (simp add: warm_up_def then_call_def cached_defs no_caches_def assms(2) m)
  obtain orc c where f: "bridge_factory importable h0 no_caches = (orc, c)" by force
  then have "orc = None" using bridge_factory_eq [of importable h0] m
    by (auto simp: default_orchestrator_factory_def split: sum.splits)
  then have "bridge_get_orchestrator importable h0 (b, no_caches) = (None, \<lparr>bb_orchestrator = None, bb_orchestrator_built = True\<rparr>, c)"
    using assms(5) f by (simp add: bridge_get_orchestrator_def)
  moreover have "bridge_get_orchestrator importable h (\<lparr>bb_orchestrator = None, bb_orchestrator_built = True\<rparr>, c) =
      (None, \<lparr>bb_orchestrator = None, bb_orchestrator_built = True\<rparr>, c)" for h
    by (simp add: bridge_get_orchestrator_def)
  ultimately show ?thesis using boot by blast
qed

section \<open>A host\<close>

definition demo_host :: "environ \<Rightarrow> bool \<Rightarrow> host" where
  "demo_host env installed =
     \<lparr>h_env = env, h_exists = (\<lambda>_. installed), h_lines = (\<lambda>_. None),
      h_listing = (\<lambda>_. Some [(u ''bank'', 0)]), h_read = bank_file, h_scenes_dir = u ''/scenes'', h_models_root = u ''/models'',
      h_embedder_session = (\<lambda>_ _. Inr (em_run length_embedder)), h_tokenizer = (\<lambda>_. Inr (em_encode_batch length_embedder)),
      h_silero_session = (\<lambda>_ _. Inr (\<lambda>_ st. (0, st))), h_paraformer_session = (\<lambda>_ _. Inr (\<lambda>_. [])),
      h_fbank = (\<lambda>_. []), h_to_f32 = (\<lambda>_. Inr 0), h_add = (+), h_mul = (*), h_div = (/),
      h_norm = em_norm length_embedder, h_dot = em_dot length_embedder\<rparr>"

lemma demo_registry: "make_registry (demo_host env installed) = Inr bank_registry"
  using bank_boot by (simp add: make_registry_def demo_host_def)

definition production_env :: environ where
  "production_env = [(u ''SANDROID_ENV'', u ''production''), (u ''SANDROID_ASR_BACKEND'', u ''stub'')]"

lemma production_env_settings:
  "is_production production_env" "lower (env_get production_env ''SANDROID_NLU_BACKEND'' ''embedder'') = u ''embedder''"
  "lower (env_get production_env ''SANDROID_VAD_BACKEND'' ''silero'') = u ''silero''"
  "lower (env_get production_env ''SANDROID_ASR_BACKEND'' ''paraformer'') = u ''stub''"
  "intra_op_threads production_env = Inr 2"
  by (simp_all add: production_env_def is_production_def env_get_def lower_def intra_op_threads_def)

theorem boot_is_final_witness:
  "\<exists>c0 m. warm_up False (demo_host production_env True) no_caches = (Inr (), c0) \<and>
     make_embedder (demo_host production_env True) = Inr m \<and>
     orchestrator_dependency (demo_host [] False) c0 = (Inr (0, get_orchestrator bank_registry m), c0)"
proof -
  let ?h = "demo_host production_env True"
  have env: "h_env ?h = production_env" by (simp add: demo_host_def)
  obtain em where "make_embedder ?h = Inr em"
    by (simp add: make_embedder_def ONNXEmbedderMatcher_def env production_env_settings(5)) (simp add: demo_host_def)
  then have m: "make_matcher ?h = Inr em" by (simp add: get_matcher_def select_backend_def env production_env_settings)
  obtain infer where "make_silero ?h = Inr infer"
    by (simp add: make_silero_def SileroVAD_def env production_env_settings(5)) (simp add: demo_host_def)
  then have vad: "make_vad ?h = Inr infer" by (simp add: get_vad_def select_backend_def env production_env_settings)
  have asr: "make_asr ?h = Inr (stub_asr_stream None)" by (simp add: get_asr_def select_backend_def env production_env_settings)
  obtain c0 where boot: "warm_up False ?h no_caches = (Inr (), c0)"
    by (simp add: warm_up_def then_call_def cached_defs no_caches_def demo_registry m vad asr)
  from boot_is_final [OF this rtranclp.rtrancl_refl] show ?thesis
    using boot by (auto simp: env production_env_settings demo_registry)
qed

theorem bridge_downgrades_in_production_witness:
  "\<exists>s. bridge_get_orchestrator True (demo_host production_env False)
       (\<lparr>bb_orchestrator = None, bb_orchestrator_built = False\<rparr>, no_caches) = (None, s) \<and>
     bridge_get_orchestrator True (demo_host production_env True) s = (None, s)"
proof -
  let ?h = "demo_host production_env False"
  have "is_production (h_env ?h)" "lower (env_get (h_env ?h) ''SANDROID_NLU_BACKEND'' ''embedder'') = u ''embedder''"
    "\<not> h_exists ?h (model_path ?h ''SANDROID_NLU_MODEL_PATH'' ''nlu_embedder_quantized.onnx'')"
    using production_env_settings(1,2) by (simp_all add: demo_host_def)
  from bridge_downgrades_in_production [OF this(1) demo_registry this(2,3), of "\<lparr>bb_orchestrator = None, bb_orchestrator_built = False\<rparr>" True]
  show ?thesis by auto
qed

end
