(* ===== verification/Slu.thy ===== *)
theory Slu
  imports Orchestrator Asr
begin

text \<open>
  End-to-end recognition, \<open>models/slu/base.py\<close> and \<open>models/slu/stub.py\<close>: the validated hypotheses, the
  streaming contract and the stub that keeps it by abstaining. A source of audio is the chunks
  it yields and the exception it ends with, if any.
\<close>

section \<open>Hypotheses\<close>

record partial_intent =
  pi_intent_id :: "intent_id option"
  pi_confidence :: pyfloat
  pi_is_final :: bool
  pi_start_ms :: int
  pi_end_ms :: int

definition PartialIntent :: "intent_id option \<Rightarrow> pyfloat \<Rightarrow> bool \<Rightarrow> int \<Rightarrow> int \<Rightarrow> partial_intent result" where
  "PartialIntent i conf is_final start stop =
     (if 0 \<le> conf \<and> conf \<le> 1 \<and> 0 \<le> start \<and> 0 \<le> stop
      then Inr \<lparr>pi_intent_id = i, pi_confidence = conf, pi_is_final = is_final, pi_start_ms = start, pi_end_ms = stop\<rparr>
      else Inl (ValidationError ''PartialIntent''))"

definition FinalIntent :: "intent_id option \<Rightarrow> pyfloat \<Rightarrow> int \<Rightarrow> final_intent result" where
  "FinalIntent i conf duration =
     (if 0 \<le> conf \<and> conf \<le> 1 \<and> 0 \<le> duration
      then Inr \<lparr>fi_intent_id = i, fi_confidence = conf, fi_duration_ms = duration\<rparr>
      else Inl (ValidationError ''FinalIntent''))"

section \<open>The stub\<close>

text \<open>The source is drained before anything is yielded, so its exception comes first.\<close>

definition stub_slu_stream :: "audio_chunk gen \<Rightarrow> pystr option \<Rightarrow> partial_intent gen" where
  "stub_slu_stream source scene_id =
     (case source of
        (_, Some e) \<Rightarrow> ([], Some e)
      | (_, None) \<Rightarrow>
          (case PartialIntent None 0 True 0 0 of Inl e \<Rightarrow> ([], Some e) | Inr p \<Rightarrow> ([p], None)))"

lemma stub_slu_validated: "stub_slu pcm scene_id = FinalIntent None 0 0"
  by (simp add: stub_slu_def FinalIntent_def)

section \<open>The contract\<close>

text \<open>
  A stream over audio that ends closes with a final hypothesis, the only one, and it is the
  hypothesis for the whole audio.
\<close>

locale slu_contract =
  fixes stream :: "audio_chunk gen \<Rightarrow> pystr option \<Rightarrow> partial_intent gen"
    and recognize_audio :: slu_backend
  assumes stream_closes: "\<exists>ps f. stream (chunks, None) scene_id = (ps @ [f], None) \<and>
      pi_is_final f \<and> (\<forall>p \<in> set ps. \<not> pi_is_final p) \<and>
      (\<exists>r. recognize_audio (concat (map ac_pcm16 chunks)) scene_id = Inr r \<and>
         fi_intent_id r = pi_intent_id f \<and> fi_confidence r = pi_confidence f)"
    and source_error: "snd (stream (chunks, Some e) scene_id) = Some e"
begin

text \<open>A client that keeps the last final hypothesis of a stream fuses what the file gives.\<close>

lemma last_final_is_file:
  "\<exists>f r. filter pi_is_final (fst (stream (chunks, None) scene_id)) = [f] \<and>
     recognize_audio (concat (map ac_pcm16 chunks)) scene_id = Inr r \<and> fi_intent_id r = pi_intent_id f"
  using stream_closes [of chunks scene_id] by (force simp: filter_empty_conv)

end

interpretation stub_slu: slu_contract stub_slu_stream stub_slu
  by unfold_locales (auto simp: stub_slu_stream_def PartialIntent_def stub_slu_def)

end
