(* ===== verification/Concurrent.thy ===== *)
theory Concurrent
  imports Orchestrator
begin

text \<open>
  Turns of several callers on one session store. The event loop runs \<open>Orchestrator.recognize\<close> in
  two pieces: the store's lock is never held across an \<open>await\<close>, so nothing suspends a turn before
  it hands the matcher to a worker thread, and nothing after the matcher has answered. Between the
  two pieces other turns run. \<open>start_turn\<close> and \<open>finish_turn\<close> are the pieces, \<open>pool_step\<close> lets any turn
  take its next one, and a turn may be cancelled while its matcher runs. The session that
  \<open>create\<close> returns is the stored object itself; it is changed only in the second piece, where
  \<open>put\<close> replaces the stored one, so that no other turn sees the difference.
\<close>

section \<open>A pool of turns\<close>

datatype ('p, 'o) phase = Waiting | InMatcher 'p | Answered 'o | Abandoned

type_synonym ('k, 'v, 'r, 'p, 'o) pool = "('k, 'v) dict \<times> ('r \<times> ('p, 'o) phase) list"

definition started :: "'o + 'p \<Rightarrow> ('p, 'o) phase" where
  "started res = (case res of Inl out \<Rightarrow> Answered out | Inr p \<Rightarrow> InMatcher p)"

definition written :: "('k \<times> 'v) option \<Rightarrow> ('k, 'v) dict \<Rightarrow> ('k, 'v) dict" where
  "written w st = (case w of None \<Rightarrow> st | Some (k, v) \<Rightarrow> dput k v st)"

inductive pool_step ::
  "('r \<Rightarrow> ('k, 'v) dict \<Rightarrow> ('o + 'p) \<times> ('k, 'v) dict) \<Rightarrow> ('r \<Rightarrow> 'p \<Rightarrow> 'o \<times> ('k \<times> 'v) option) \<Rightarrow>
     ('k, 'v, 'r, 'p, 'o) pool \<Rightarrow> ('k, 'v, 'r, 'p, 'o) pool \<Rightarrow> bool"
  for start finish where
  start: "i < length ts \<Longrightarrow> ts ! i = (r, Waiting) \<Longrightarrow> start r st = (res, st') \<Longrightarrow>
    pool_step start finish (st, ts) (st', ts[i := (r, started res)])"
| finish: "i < length ts \<Longrightarrow> ts ! i = (r, InMatcher p) \<Longrightarrow> finish r p = (out, w) \<Longrightarrow>
    pool_step start finish (st, ts) (written w st, ts[i := (r, Answered out)])"
| cancel: "i < length ts \<Longrightarrow> ts ! i = (r, InMatcher p) \<Longrightarrow>
    pool_step start finish (st, ts) (st, ts[i := (r, Abandoned)])"

abbreviation pool_run ::
  "('r \<Rightarrow> ('k, 'v) dict \<Rightarrow> ('o + 'p) \<times> ('k, 'v) dict) \<Rightarrow> ('r \<Rightarrow> 'p \<Rightarrow> 'o \<times> ('k \<times> 'v) option) \<Rightarrow>
     ('k, 'v, 'r, 'p, 'o) pool \<Rightarrow> ('k, 'v, 'r, 'p, 'o) pool \<Rightarrow> bool" where
  "pool_run start finish \<equiv> (pool_step start finish)\<^sup>*\<^sup>*"

abbreviation waiting :: "'r list \<Rightarrow> ('r \<times> ('p, 'o) phase) list" where
  "waiting rs \<equiv> map (\<lambda>r. (r, Waiting)) rs"

text \<open>Both pieces with nothing in between.\<close>

definition alone ::
  "('r \<Rightarrow> ('k, 'v) dict \<Rightarrow> ('o + 'p) \<times> ('k, 'v) dict) \<Rightarrow> ('r \<Rightarrow> 'p \<Rightarrow> 'o \<times> ('k \<times> 'v) option) \<Rightarrow>
     'r \<Rightarrow> ('k, 'v) dict \<Rightarrow> 'o \<times> ('k, 'v) dict" where
  "alone start finish r st =
     (case start r st of
        (Inl out, st') \<Rightarrow> (out, st')
      | (Inr p, st') \<Rightarrow> (case finish r p of (out, w) \<Rightarrow> (out, written w st')))"

section \<open>The two pieces of a recognition\<close>

record turn_in_progress =
  tp_scene_id :: pystr
  tp_tree :: category_tree
  tp_session :: session
  tp_candidates :: "intent list"

type_synonym caller = "pystr \<times> recognition_request"

text \<open>Up to the \<open>await\<close> on the matcher. The first component of a caller is what \<open>uuid4\<close> gives it.\<close>

definition start_turn ::
  "nat \<Rightarrow> orchestrator \<Rightarrow> caller \<Rightarrow> session_store \<Rightarrow>
     (recognition_response result + turn_in_progress) \<times> session_store" where
  "start_turn frames orc caller st =
     (case caller of (uuid, rq) \<Rightarrow>
        case registry_resolve (o_registry orc) (rq_scene_id rq) (rq_category_path rq) of
          Inl e \<Rightarrow> (Inl (Inl e), st)
        | Inr (scene_id, category_id) \<Rightarrow>
            (case registry_get (o_registry orc) scene_id of
               Inl e \<Rightarrow> (Inl (Inl e), st)
             | Inr tree \<Rightarrow>
                 (case load_or_create_session uuid (rq_session_id rq) category_id st of
                    (Inl e, st') \<Rightarrow> (Inl (Inl e), st')
                  | (Inr session, st') \<Rightarrow>
                      (let session =
                         (if rq_session_id rq = None \<or> rq_category_path rq \<noteq> None \<or> rq_scene_id rq \<noteq> None
                          then session\<lparr>current_category_id := category_id\<rparr> else session)
                       in case scope frames tree (current_category_id session) of
                            Inl e \<Rightarrow> (Inl (Inl e), st')
                          | Inr candidates \<Rightarrow>
                              (Inr \<lparr>tp_scene_id = scene_id, tp_tree = tree, tp_session = session,
                                    tp_candidates = candidates\<rparr>, st')))))"

text \<open>From the answer of the two paths to the response; the session to put back, if it gets there.\<close>

definition finish_turn ::
  "orchestrator \<Rightarrow> caller \<Rightarrow> turn_in_progress \<Rightarrow> recognition_response result \<times> (pystr \<times> session) option" where
  "finish_turn orc caller p =
     (let rq = snd caller
      in case bindE (run_dual_paths orc (rq_text rq) (rq_audio rq) (tp_scene_id p) (tp_candidates p) (rq_n_best rq))
           (\<lambda>(ranked, slu_result).
           (let weights = for_scene (o_fusion_config orc) (Some (tp_scene_id p))
            in bindE (fuse ranked slu_result (tp_candidates p) weights (rq_n_best rq)) (\<lambda>fused.
               bindE (resolve_top fused (tp_candidates p)) (\<lambda>(tophit, fu).
               bindE (apply_follow_up (tp_tree p) fu (tp_session p)) (\<lambda>session.
                 (let session = session\<lparr>history := history session @ [rq_text rq]\<rparr>
                  in Inr (\<lparr>rs_session_id = session_id session, rs_top = tophit, rs_n_best = fused,
                           rs_follow_up = fu, rs_current_category_id = current_category_id session\<rparr>,
                          session))))))) of
           Inl e \<Rightarrow> (Inl e, None)
         | Inr (resp, session) \<Rightarrow> (Inr resp, Some (session_id session, session)))"

abbreviation service_run ::
  "nat \<Rightarrow> orchestrator \<Rightarrow> session_store \<times> (caller \<times> (turn_in_progress, recognition_response result) phase) list \<Rightarrow>
     session_store \<times> (caller \<times> (turn_in_progress, recognition_response result) phase) list \<Rightarrow> bool" where
  "service_run frames orc \<equiv> pool_run (start_turn frames orc) (finish_turn orc)"

text \<open>The sessions a caller can touch: the one it names and the one it may create.\<close>

definition turn_keys :: "caller \<Rightarrow> pystr set" where
  "turn_keys c = insert (fst c) (set_option (rq_session_id (snd c)))"

text \<open>A turn nobody interrupts is \<open>recognize\<close>.\<close>

lemma recognize_two_pieces:
  "alone (start_turn frames orc) (finish_turn orc) (uuid, rq) st = recognize frames orc uuid rq st"
  unfolding alone_def start_turn_def finish_turn_def recognize_def answer_turn_def
  by (auto simp: Let_def written_def store_put_def split: sum.split prod.split if_split)

section \<open>Turns on keys of their own\<close>

text \<open>
  The contract: the first piece reads and writes the store at the keys of its request only, the
  second writes at most one of them, and both keep the store's invariant.
\<close>

locale keyed_turns =
  fixes start :: "'r \<Rightarrow> ('k, 'v) dict \<Rightarrow> ('o + 'p) \<times> ('k, 'v) dict"
    and finish :: "'r \<Rightarrow> 'p \<Rightarrow> 'o \<times> ('k \<times> 'v) option"
    and keys :: "'r \<Rightarrow> 'k set"
    and ok :: "('k, 'v) dict \<Rightarrow> bool"
  assumes start_reads: "(\<And>k. k \<in> keys r \<Longrightarrow> dget st k = dget st' k) \<Longrightarrow> fst (start r st) = fst (start r st')"
    and start_writes: "(\<And>k. k \<in> keys r \<Longrightarrow> dget st k = dget st' k) \<Longrightarrow> k \<in> keys r \<Longrightarrow>
      dget (snd (start r st)) k = dget (snd (start r st')) k"
    and start_frame: "k \<notin> keys r \<Longrightarrow> dget (snd (start r st)) k = dget st k"
    and start_ok: "ok st \<Longrightarrow> ok (snd (start r st))"
    and finish_key: "ok st \<Longrightarrow> fst (start r st) = Inr p \<Longrightarrow> finish r p = (out, Some (k, v)) \<Longrightarrow> k \<in> keys r"
    and finish_ok: "finish r p = (out, w) \<Longrightarrow> ok st \<Longrightarrow> ok (written w st)"
begin

text \<open>What a turn and its keys look like, compared with the turn alone on the first store.\<close>

definition undisturbed :: "('k, 'v) dict \<Rightarrow> ('k, 'v) dict \<Rightarrow> 'r \<Rightarrow> ('p, 'o) phase \<Rightarrow> bool" where
  "undisturbed st0 st r ph =
     (case ph of
        Waiting \<Rightarrow> \<forall>k \<in> keys r. dget st k = dget st0 k
      | InMatcher p \<Rightarrow> fst (start r st0) = Inr p \<and> (\<forall>k \<in> keys r. dget st k = dget (snd (start r st0)) k)
      | Answered out \<Rightarrow> fst (alone start finish r st0) = out \<and>
          (\<forall>k \<in> keys r. dget st k = dget (snd (alone start finish r st0)) k)
      | Abandoned \<Rightarrow> \<forall>k \<in> keys r. dget st k = dget (snd (start r st0)) k)"

lemma undisturbed_cong:
  "(\<And>k. k \<in> keys r \<Longrightarrow> dget st k = dget st' k) \<Longrightarrow> undisturbed st0 st r ph = undisturbed st0 st' r ph"
  by (simp add: undisturbed_def split: phase.split)

lemma undisturbed_start:
  assumes "undisturbed st0 st r Waiting" and "start r st = (res, st')"
  shows "undisturbed st0 st' r (started res)"
proof -
  have same: "dget st k = dget st0 k" if "k \<in> keys r" for k using assms(1) that by (simp add: undisturbed_def)
  have "fst (start r st0) = res" using start_reads [of r st st0, OF same] assms(2) by simp
  moreover have "dget st' k = dget (snd (start r st0)) k" if "k \<in> keys r" for k
    using start_writes [of r st st0, OF same that] assms(2) by simp
  ultimately show ?thesis
    by (cases "start r st0") (auto simp: undisturbed_def started_def alone_def split: sum.split)
qed

lemma undisturbed_finish:
  assumes "undisturbed st0 st r (InMatcher p)" and "finish r p = (out, w)"
  shows "undisturbed st0 (written w st) r (Answered out)"
  using assms
  by (cases "start r st0") (auto simp: undisturbed_def alone_def written_def dict_simps split: option.split)

definition disjoint_keys :: "'r list \<Rightarrow> bool" where
  "disjoint_keys rs \<longleftrightarrow> (\<forall>i < length rs. \<forall>j < length rs. i \<noteq> j \<longrightarrow> keys (rs ! i) \<inter> keys (rs ! j) = {})"

definition isolated :: "('k, 'v) dict \<Rightarrow> 'r list \<Rightarrow> ('k, 'v, 'r, 'p, 'o) pool \<Rightarrow> bool" where
  "isolated st0 rs c \<longleftrightarrow> map fst (snd c) = rs \<and>
     (\<forall>i < length rs. undisturbed st0 (fst c) (rs ! i) (snd (snd c ! i))) \<and>
     (\<forall>k. (\<forall>i < length rs. k \<notin> keys (rs ! i)) \<longrightarrow> dget (fst c) k = dget st0 k)"

text \<open>A step of one turn that leaves the keys of all the others alone.\<close>

lemma isolated_update:
  assumes "isolated st0 rs (st, ts)" and "disjoint_keys rs" and "i < length ts" and "fst (ts ! i) = r"
    and "undisturbed st0 st' r ph" and "\<And>k. k \<notin> keys r \<Longrightarrow> dget st' k = dget st k"
  shows "isolated st0 rs (st', ts[i := (r, ph)])"
proof -
  have rs: "map fst ts = rs" "length rs = length ts" "rs ! i = r"
    using assms(1,3,4) by (auto simp: isolated_def)
  have "undisturbed st0 st' (rs ! j) (snd (ts[i := (r, ph)] ! j))" if j: "j < length rs" for j
  proof (cases "j = i")
    case False
    then have "keys (rs ! j) \<inter> keys r = {}"
      using assms(2,3) j by (auto simp: disjoint_keys_def simp flip: rs(2,3))
    then have "k \<notin> keys r" if "k \<in> keys (rs ! j)" for k using that by blast
    then have "undisturbed st0 st' (rs ! j) (snd (ts ! j)) = undisturbed st0 st (rs ! j) (snd (ts ! j))"
      by (intro undisturbed_cong assms(6))
    then show ?thesis using False assms(1) j by (simp add: isolated_def)
  qed (use assms(3,5) rs in simp)
  moreover have "map fst (ts[i := (r, ph)]) = rs"
    unfolding map_update rs(1) by (simp add: list_update_same_conv assms(3) rs(2,3))
  moreover have "dget st' k = dget st0 k" if "\<forall>i < length rs. k \<notin> keys (rs ! i)" for k
  proof -
    have "k \<notin> keys r" using that assms(3) rs by metis
    then show ?thesis using that assms(1,6) by (simp add: isolated_def)
  qed
  ultimately show ?thesis by (simp add: isolated_def)
qed

lemma isolated_step:
  assumes "pool_step start finish c c'" and "isolated st0 rs c" and "disjoint_keys rs" and "ok st0"
  shows "isolated st0 rs c'"
  using assms
proof cases
  case (start i ts r st res st')
  then have "undisturbed st0 st r Waiting" using assms(2) by (auto simp: isolated_def)
  then show ?thesis using start assms(2,3) undisturbed_start start_frame [of _ r st]
    by (auto intro!: isolated_update)
next
  case (finish i ts r p out w st)
  then have u: "undisturbed st0 st r (InMatcher p)" using assms(2) by (auto simp: isolated_def)
  then have "k \<in> keys r" if "w = Some (k, v)" for k v
    using finish_key [OF assms(4)] finish(5) that by (auto simp: undisturbed_def)
  then have "dget (written w st) k = dget st k" if "k \<notin> keys r" for k
    using that by (auto simp: written_def dict_simps split: option.split)
  then show ?thesis using finish assms(2,3) undisturbed_finish [OF u finish(5)]
    by (auto intro!: isolated_update)
next
  case (cancel i ts r p st)
  then have "undisturbed st0 st r (InMatcher p)" using assms(2) by (auto simp: isolated_def)
  then have "undisturbed st0 st r Abandoned" by (simp add: undisturbed_def)
  then show ?thesis using cancel assms(2,3) by (auto intro!: isolated_update)
qed

lemma run_isolated:
  assumes "pool_run start finish (st0, waiting rs) c" and "disjoint_keys rs" and "ok st0"
  shows "isolated st0 rs c"
  using assms(1)
proof (induction rule: rtranclp_induct)
  case base
  show ?case by (auto simp: isolated_def undisturbed_def comp_def)
qed (use assms(2,3) isolated_step in blast)

lemma run_ok: "pool_run start finish c c' \<Longrightarrow> ok (fst c) \<Longrightarrow> ok (fst c')"
proof (induction rule: rtranclp_induct)
  case (step y z)
  then have "ok (fst y)" by blast
  with step(2) show ?case
  proof cases
    case (start i ts r st res st')
    then show ?thesis using start_ok [of st r] \<open>ok (fst y)\<close> by simp
  qed (auto dest: finish_ok)
qed simp

end

section \<open>Every pool comes to rest\<close>

fun phase_work :: "('p, 'o) phase \<Rightarrow> nat" where
  "phase_work Waiting = 2"
| "phase_work (InMatcher p) = 1"
| "phase_work _ = 0"

definition pool_work :: "('k, 'v, 'r, 'p, 'o) pool \<Rightarrow> nat" where
  "pool_work c = sum_list (map (phase_work \<circ> snd) (snd c))"

definition answered :: "('k, 'v, 'r, 'p, 'o) pool \<Rightarrow> bool" where
  "answered c \<longleftrightarrow> (\<forall>t \<in> set (snd c). snd t = Abandoned \<or> (\<exists>out. snd t = Answered out))"

lemma pool_work_update:
  assumes "i < length ts" and "phase_work ph < phase_work (snd (ts ! i))"
  shows "pool_work (st', ts[i := (r, ph)]) < pool_work (st, ts)"
proof -
  have "ts = take i ts @ ts ! i # drop (Suc i) ts" using assms(1) by (rule id_take_nth_drop)
  then have "pool_work (st, ts) = pool_work (st, take i ts @ ts ! i # drop (Suc i) ts)" by simp
  then show ?thesis using assms by (simp add: pool_work_def upd_conv_take_nth_drop)
qed

lemma pool_step_decreases: "pool_step start finish c c' \<Longrightarrow> pool_work c' < pool_work c"
  by (induction rule: pool_step.induct) (auto intro!: pool_work_update simp: started_def split: sum.split)

text \<open>Every turn can be answered from every state of a run.\<close>

lemma pool_answers: "\<exists>c'. pool_run start finish c c' \<and> answered c'"
proof (induction "pool_work c" arbitrary: c rule: less_induct)
  case less
  show ?case
  proof (cases "answered c")
    case False
    then obtain i where i: "i < length (snd c)" "snd (snd c ! i) = Waiting \<or> (\<exists>p. snd (snd c ! i) = InMatcher p)"
      unfolding answered_def set_conv_nth by (smt (verit) mem_Collect_eq phase.exhaust)
    obtain r ph where r: "snd c ! i = (r, ph)" by force
    have "\<exists>c1. pool_step start finish c c1"
    proof (cases ph)
      case Waiting
      obtain res st' where "start r (fst c) = (res, st')" by force
      then show ?thesis using pool_step.start [of i "snd c" r start "fst c"] i(1) r Waiting by auto
    next
      case (InMatcher p)
      obtain out w where "finish r p = (out, w)" by force
      then show ?thesis using pool_step.finish [of i "snd c" r p finish out w start "fst c"] i(1) r InMatcher by auto
    qed (use i(2) r in auto)
    then obtain c1 where c1: "pool_step start finish c c1" by blast
    then show ?thesis using less [of c1] pool_step_decreases by (meson converse_rtranclp_into_rtranclp)
  qed blast
qed

section \<open>Recognitions keep to their keys\<close>

lemma start_turn_eq:
  "start_turn frames orc (uuid, rq) st =
     (case registry_resolve (o_registry orc) (rq_scene_id rq) (rq_category_path rq) of
        Inl e \<Rightarrow> (Inl (Inl e), st)
      | Inr (s, k) \<Rightarrow>
          (case registry_get (o_registry orc) s of
             Inl e \<Rightarrow> (Inl (Inl e), st)
           | Inr t \<Rightarrow>
               (case scope frames t k of
                  Inl e \<Rightarrow> Inl (Inl e)
                | Inr pool \<Rightarrow> Inr \<lparr>tp_scene_id = s, tp_tree = t, tp_session = start_session uuid rq k st, tp_candidates = pool\<rparr>,
                start_store uuid rq k st)))"
proof -
  have pointer: "(case Option.bind (rq_session_id rq) (dget st) of
      Some x \<Rightarrow> x | None \<Rightarrow> new_session uuid k)\<lparr>current_category_id := k\<rparr> = start_session uuid rq k st" for k
    by (simp add: start_session_def split: option.splits)
  show ?thesis
  proof (cases "registry_resolve (o_registry orc) (rq_scene_id rq) (rq_category_path rq)")
    case (Inr sk)
    obtain s k where sk: "sk = (s, k)" by force
    have "rq_session_id rq = None \<or> rq_category_path rq \<noteq> None \<or> rq_scene_id rq \<noteq> None"
      using registry_resolve_needs_pointer Inr by blast
    then show ?thesis
      by (simp add: start_turn_def Inr sk load_or_create_eq pointer split: sum.split)
  qed (simp add: start_turn_def)
qed

lemma start_session_same:
  assumes "\<And>k. k \<in> turn_keys (uuid, rq) \<Longrightarrow> dget st k = dget st' k"
  shows "start_session uuid rq c st = start_session uuid rq c st'"
    and "k \<in> turn_keys (uuid, rq) \<Longrightarrow> dget (start_store uuid rq c st) k = dget (start_store uuid rq c st') k"
proof -
  have "Option.bind (rq_session_id rq) (dget st) = Option.bind (rq_session_id rq) (dget st')"
    using assms by (cases "rq_session_id rq") (auto simp: turn_keys_def)
  then show "start_session uuid rq c st = start_session uuid rq c st'"
    and "k \<in> turn_keys (uuid, rq) \<Longrightarrow> dget (start_store uuid rq c st) k = dget (start_store uuid rq c st') k"
    using assms by (auto simp: start_session_def start_store_def dict_simps split: option.split)
qed

lemma start_store_frame: "k \<notin> turn_keys (uuid, rq) \<Longrightarrow> dget (start_store uuid rq c st) k = dget st k"
  by (auto simp: start_store_def turn_keys_def dict_simps split: option.split)

lemma start_session_key: "wf_store st \<Longrightarrow> session_id (start_session uuid rq c st) \<in> turn_keys (uuid, rq)"
  by (auto simp: start_session_def turn_keys_def wf_store_def split: option.split elim!: bind_eq_Some_conv [THEN iffD1, elim_format])

text \<open>What the second piece stores is the session of the first, one text longer.\<close>

lemma apply_follow_up_keeps:
  "apply_follow_up t fu x = Inr z \<Longrightarrow> session_id z = session_id x \<and> history z = history x"
  by (auto simp: apply_follow_up_def split: option.splits sum.splits if_splits)

lemma finish_turn_Inr:
  assumes "finish_turn orc c p = (Inr resp, w)"
  shows "\<exists>y. w = Some (session_id y, y) \<and> session_id y = session_id (tp_session p) \<and>
    rs_session_id resp = session_id y \<and> history y = history (tp_session p) @ [rq_text (snd c)]"
  using assms
  by (auto simp: finish_turn_def Let_def bindE_Inr_iff split: sum.splits dest!: apply_follow_up_keeps)

lemma finish_turn_Inl: "finish_turn orc c p = (Inl e, w) \<Longrightarrow> w = None"
  by (simp add: finish_turn_def Let_def split: sum.splits prod.splits)

lemma finish_turn_write:
  assumes "finish_turn orc c p = (out, Some (k, y))"
  shows "session_id y = k" and "k = session_id (tp_session p)"
proof -
  obtain resp where "out = Inr resp" using assms finish_turn_Inl [of orc c p] by (cases out) auto
  then show "session_id y = k" and "k = session_id (tp_session p)"
    using finish_turn_Inr [of orc c p resp "Some (k, y)"] assms by auto
qed

interpretation turns: keyed_turns "start_turn frames orc" "finish_turn orc" turn_keys wf_store for frames orc
proof
  fix c :: caller and st st' :: session_store and k p out y w
  obtain uuid rq where c: "c = (uuid, rq)" by force
  assume same: "\<And>k. k \<in> turn_keys c \<Longrightarrow> dget st k = dget st' k"
  show "fst (start_turn frames orc c st) = fst (start_turn frames orc c st')"
    using start_session_same [OF same [unfolded c]] by (simp add: c start_turn_eq split: sum.split prod.split)
  show "dget (snd (start_turn frames orc c st)) k = dget (snd (start_turn frames orc c st')) k" if "k \<in> turn_keys c"
    using start_session_same(2) [OF same [unfolded c]] same that by (simp add: c start_turn_eq split: sum.split prod.split)
next
  fix c :: caller and st :: session_store and k
  obtain uuid rq where c: "c = (uuid, rq)" by force
  show "dget (snd (start_turn frames orc c st)) k = dget st k" if "k \<notin> turn_keys c"
    using start_store_frame that by (simp add: c start_turn_eq split: sum.split prod.split)
  show "wf_store (snd (start_turn frames orc c st))" if "wf_store st"
    using that wf_start_store by (simp add: c start_turn_eq split: sum.split prod.split)
  show "k \<in> turn_keys c" if "wf_store st" "fst (start_turn frames orc c st) = Inr p" "finish_turn orc c p = (out, Some (k, y))"
    for p out y
    using finish_turn_write(2) [OF that(3)] that(2) start_session_key [OF that(1)]
    by (auto simp: c start_turn_eq split: sum.splits)
next
  fix c p out w and st :: session_store
  assume "finish_turn orc c p = (out, w)" and wf: "wf_store st"
  then show "wf_store (written w st)"
    using mem.inv_put [OF wf] finish_turn_write [of orc c p out]
    by (cases w) (auto simp: written_def store_put_def)
qed

section \<open>Schedules\<close>

text \<open>One turn from its start to its answer, with nothing in between.\<close>

lemma serial_run:
  assumes "i < length ts" and "ts ! i = (r, Waiting)" and "alone start finish r st = (out, st')"
  shows "pool_run start finish (st, ts) (st', ts[i := (r, Answered out)])"
proof -
  obtain res st1 where s: "start r st = (res, st1)" by force
  have first: "pool_step start finish (st, ts) (st1, ts[i := (r, started res)])"
    using assms(1,2) s by (rule pool_step.start)
  show ?thesis
  proof (cases res)
    case (Inl o')
    then show ?thesis using first assms(3) s by (auto simp: alone_def started_def)
  next
    case (Inr p)
    obtain w where w: "finish r p = (out, w)" "st' = written w st1"
      using assms(3) s Inr by (auto simp: alone_def split: prod.splits)
    have "pool_step start finish (st1, ts[i := (r, started res)]) (written w st1, ts[i := (r, started res), i := (r, Answered out)])"
      using assms(1) w(1) by (intro pool_step.finish [of _ _ _ p]) (simp_all add: Inr started_def)
    then show ?thesis using first w(2) by (simp add: converse_rtranclp_into_rtranclp)
  qed
qed

text \<open>Two turns that both start before either of them is answered.\<close>

lemma overlapping_run:
  assumes "start r1 st = (Inr p1, st1)" and "start r2 st1 = (Inr p2, st2)"
    and "finish r1 p1 = (o1, w1)" and "finish r2 p2 = (o2, w2)"
  shows "pool_run start finish (st, waiting [r1, r2]) (written w2 (written w1 st2), [(r1, Answered o1), (r2, Answered o2)])"
proof -
  note pool_step.start [of 0 "waiting [r1, r2]" r1 start st "Inr p1" st1 finish]
    pool_step.start [of 1 "[(r1, InMatcher p1), (r2, Waiting)]" r2 start st1 "Inr p2" st2 finish]
    pool_step.finish [of 0 "[(r1, InMatcher p1), (r2, InMatcher p2)]" r1 p1 finish o1 w1 start st2]
    pool_step.finish [of 1 "[(r1, Answered o1), (r2, InMatcher p2)]" r2 p2 finish o2 w2 start "written w1 st2"]
  then show ?thesis using assms by (simp add: started_def)
qed

lemma recognize_start:
  assumes "recognize frames orc uuid rq st = (Inr resp, st')"
  obtains p st1 y where "start_turn frames orc (uuid, rq) st = (Inr p, st1)"
    "finish_turn orc (uuid, rq) p = (Inr resp, Some (session_id y, y))"
    "session_id y = session_id (tp_session p)" "history y = history (tp_session p) @ [rq_text rq]"
    "st' = dput (session_id y) y st1"
proof -
  have "alone (start_turn frames orc) (finish_turn orc) (uuid, rq) st = (Inr resp, st')"
    using assms by (simp add: recognize_two_pieces)
  moreover obtain res st1 where s: "start_turn frames orc (uuid, rq) st = (res, st1)" by force
  moreover have "res \<noteq> Inl (Inr resp')" for resp'
    using s by (auto simp: start_turn_eq split: sum.splits prod.splits)
  ultimately obtain p w where p: "res = Inr p" "finish_turn orc (uuid, rq) p = (Inr resp, w)" "st' = written w st1"
    by (auto simp: alone_def split: sum.splits prod.splits)
  then show thesis using finish_turn_Inr [OF p(2)] that s by (auto simp: written_def)
qed

text \<open>The same request on another store: only the session differs.\<close>

lemma start_turn_Inr:
  assumes "start_turn frames orc (uuid, rq) st = (Inr p, st')"
  shows "\<exists>k. tp_session p = start_session uuid rq k st \<and> st' = start_store uuid rq k st \<and>
    (\<forall>st2. start_turn frames orc (uuid, rq) st2 =
       (Inr (p\<lparr>tp_session := start_session uuid rq k st2\<rparr>), start_store uuid rq k st2))"
  using assms by (auto simp: start_turn_eq split: sum.splits prod.splits)

lemma apply_follow_up_moved:
  assumes "apply_follow_up t fu x = Inr z" and "session_id x' = session_id x" and "current_category_id x' = current_category_id x"
  shows "\<exists>z'. apply_follow_up t fu x' = Inr z' \<and> session_id z' = session_id z \<and>
    current_category_id z' = current_category_id z \<and> history z' = history x'"
  using assms by (auto simp: apply_follow_up_def split: option.splits sum.splits if_splits)

lemma finish_turn_moved:
  assumes "finish_turn orc c p = (Inr resp, w)" and "session_id x' = session_id (tp_session p)"
    and "current_category_id x' = current_category_id (tp_session p)"
  shows "\<exists>y. finish_turn orc c (p\<lparr>tp_session := x'\<rparr>) = (Inr resp, Some (session_id x', y)) \<and>
    history y = history x' @ [rq_text (snd c)]"
proof -
  obtain ranked slu fused hit fu z where
    turn: "run_dual_paths orc (rq_text (snd c)) (rq_audio (snd c)) (tp_scene_id p) (tp_candidates p) (rq_n_best (snd c)) = Inr (ranked, slu)"
      "fuse ranked slu (tp_candidates p) (for_scene (o_fusion_config orc) (Some (tp_scene_id p))) (rq_n_best (snd c)) = Inr fused"
      "resolve_top fused (tp_candidates p) = Inr (hit, fu)" "apply_follow_up (tp_tree p) fu (tp_session p) = Inr z"
    and resp: "resp = \<lparr>rs_session_id = session_id z, rs_top = hit, rs_n_best = fused,
       rs_follow_up = fu, rs_current_category_id = current_category_id z\<rparr>"
    using assms(1) by (auto simp: finish_turn_def Let_def bindE_Inr_iff split: sum.splits)
  obtain z' where "apply_follow_up (tp_tree p) fu x' = Inr z'" "session_id z' = session_id z"
    "current_category_id z' = current_category_id z" "history z' = history x'"
    using apply_follow_up_moved [OF turn(4) assms(2,3)] by blast
  moreover have "session_id z = session_id x'" using apply_follow_up_keeps [OF turn(4)] assms(2) by simp
  ultimately show ?thesis using turn by (simp add: finish_turn_def resp)
qed

section \<open>Histories\<close>

text \<open>A history is the one of the first store, followed by the texts of turns that were answered.\<close>

definition recorded ::
  "session_store \<Rightarrow> (caller \<times> (turn_in_progress, recognition_response result) phase) list \<Rightarrow> pystr \<Rightarrow> pystr list \<Rightarrow> nat list \<Rightarrow> bool" where
  "recorded st0 ts sid h is \<longleftrightarrow> distinct is \<and>
     (\<forall>i \<in> set is. i < length ts \<and> (\<exists>resp. snd (ts ! i) = Answered (Inr resp) \<and> rs_session_id resp = sid)) \<and>
     h = (case dget st0 sid of Some x \<Rightarrow> history x | None \<Rightarrow> []) @ map (\<lambda>i. rq_text (snd (fst (ts ! i)))) is"

definition histories_ok ::
  "session_store \<Rightarrow> session_store \<times> (caller \<times> (turn_in_progress, recognition_response result) phase) list \<Rightarrow> bool" where
  "histories_ok st0 c \<longleftrightarrow>
     (\<forall>sid y. dget (fst c) sid = Some y \<longrightarrow> session_id y = sid \<and> (\<exists>is. recorded st0 (snd c) sid (history y) is)) \<and>
     (\<forall>t \<in> set (snd c). \<forall>p. snd t = InMatcher p \<longrightarrow>
        (\<exists>is. recorded st0 (snd c) (session_id (tp_session p)) (history (tp_session p)) is))"

lemma recorded_update:
  assumes "recorded st0 ts sid h is" and "i < length ts" and "ts ! i = (r, ph)" and "\<And>out. ph \<noteq> Answered out"
  shows "recorded st0 (ts[i := (r, ph')]) sid h is" and "i \<notin> set is"
proof -
  show i: "i \<notin> set is" using assms by (auto simp: recorded_def)
  have "map (\<lambda>j. rq_text (snd (fst (ts[i := (r, ph')] ! j)))) is = map (\<lambda>j. rq_text (snd (fst (ts ! j)))) is"
    using i assms(2) by (intro map_cong) (auto simp: nth_list_update)
  then show "recorded st0 (ts[i := (r, ph')]) sid h is"
    using assms(1) i unfolding recorded_def by (metis length_list_update nth_list_update_neq)
qed

lemma recorded_answer:
  assumes "recorded st0 ts sid h is" and "i < length ts" and "ts ! i = (r, InMatcher p)" and "rs_session_id resp = sid"
  shows "recorded st0 (ts[i := (r, Answered (Inr resp))]) sid (h @ [rq_text (snd r)]) (is @ [i])"
  using recorded_update(1) [where ph' = "Answered (Inr resp)", OF assms(1-3)] recorded_update(2) [OF assms(1-3)] assms(2,4) by (auto simp: recorded_def)

lemma histories_in_matcher:
  assumes "histories_ok st0 (st, ts)" and "t \<in> set ts" and "snd t = InMatcher p"
  obtains "is" where "recorded st0 ts (session_id (tp_session p)) (history (tp_session p)) is"
  using assms unfolding histories_ok_def snd_conv by blast

text \<open>A step that records nothing, and may leave one new session in the store or in the matcher.\<close>

lemma histories_update:
  assumes "histories_ok st0 (st, ts)" and "i < length ts" and "ts ! i = (r, ph)" and "\<And>out. ph \<noteq> Answered out"
    and "\<And>sid y. dget st' sid = Some y \<Longrightarrow> dget st sid = Some y \<or>
      session_id y = sid \<and> (\<exists>is. recorded st0 (ts[i := (r, ph')]) sid (history y) is)"
    and "\<And>p. ph' = InMatcher p \<Longrightarrow> \<exists>is. recorded st0 (ts[i := (r, ph')]) (session_id (tp_session p)) (history (tp_session p)) is"
  shows "histories_ok st0 (st', ts[i := (r, ph')])"
proof -
  note moved = recorded_update(1) [OF _ assms(2-4)]
  have "session_id y = sid \<and> (\<exists>is. recorded st0 (ts[i := (r, ph')]) sid (history y) is)" if "dget st' sid = Some y" for sid y
    using assms(1) assms(5) [OF that] moved by (fastforce simp: histories_ok_def)
  moreover have "\<exists>is. recorded st0 (ts[i := (r, ph')]) (session_id (tp_session p)) (history (tp_session p)) is"
    if mem: "t \<in> set (ts[i := (r, ph')])" and ph: "snd t = InMatcher p" for t p
  proof -
    consider "t = (r, ph')" | "t \<in> set ts" using mem set_update_subset_insert [of ts i "(r, ph')"] by blast
    then show ?thesis
    proof cases
      case 1
      then show ?thesis using ph assms(6) by simp
    next
      case 2
      then obtain "is" where "recorded st0 ts (session_id (tp_session p)) (history (tp_session p)) is"
        using ph assms(1) by (blast elim: histories_in_matcher)
      then show ?thesis using moved by blast
    qed
  qed
  ultimately show ?thesis by (simp add: histories_ok_def)
qed

lemma histories_step:
  assumes "pool_step (start_turn frames orc) (finish_turn orc) c c'" and "histories_ok st0 c"
    and "\<forall>t \<in> set (snd c). dget st0 (fst (fst t)) = None"
  shows "histories_ok st0 c'"
  using assms(1)
proof cases
  case (start i ts r st res st')
  obtain uuid rq where r: "r = (uuid, rq)" by force
  have new: "recorded st0 ts uuid [] []"
    using assms(3) start(1,3,4) r by (force simp: recorded_def set_conv_nth)
  have moved: "recorded st0 (ts[i := (r, ph')]) sid h is" if "recorded st0 ts sid h is" for sid h "is" ph'
    using recorded_update(1) [OF that start(3,4)] by simp
  have "dget st sid = Some y \<or> session_id y = sid \<and> recorded st0 (ts[i := (r, started res)]) sid (history y) []"
    if "dget st' sid = Some y" for sid y
    using that start(5) moved [OF new]
    by (auto simp: r start_turn_eq start_store_def dict_simps split: sum.splits option.splits if_splits)
  moreover have "\<exists>is. recorded st0 (ts[i := (r, started res)]) (session_id (tp_session p)) (history (tp_session p)) is"
    if "started res = InMatcher p" for p
  proof -
    have "start_turn frames orc (uuid, rq) st = (Inr p, st')" using that start(5) r by (auto simp: started_def split: sum.splits)
    then obtain k where "tp_session p = start_session uuid rq k st" using start_turn_Inr by blast
    moreover have "\<exists>is. recorded st0 ts (session_id x) (history x) is" if "dget st sid = Some x" for sid x
      using assms(2) start(1) that by (auto simp: histories_ok_def)
    ultimately have "\<exists>is. recorded st0 ts (session_id (tp_session p)) (history (tp_session p)) is"
      using new by (auto simp: start_session_def split: option.splits bind_splits)
    then show ?thesis using moved by blast
  qed
  ultimately show ?thesis using start assms(2) by (auto intro!: histories_update)
next
  case (finish i ts r p out w st)
  obtain "is" where "recorded st0 ts (session_id (tp_session p)) (history (tp_session p)) is"
    using assms(2) finish(1,4) nth_mem [OF finish(3)] by (auto elim: histories_in_matcher)
  note answer = recorded_answer [OF this finish(3,4)]
  have "dget st sid = Some y \<or> session_id y = sid \<and> (\<exists>is. recorded st0 (ts[i := (r, Answered out)]) sid (history y) is)"
    if "dget (written w st) sid = Some y" for sid y
  proof (cases out)
    case (Inr resp)
    from finish_turn_Inr [OF finish(5) [unfolded Inr]] answer [of resp] that show ?thesis
      by (auto simp: Inr written_def dict_simps split: if_splits)
  next
    case (Inl e)
    then show ?thesis using that finish(5) finish_turn_Inl [of orc r p e w] by (simp add: written_def)
  qed
  then show ?thesis using finish assms(2) by (auto intro!: histories_update)
next
  case (cancel i ts r p st)
  then show ?thesis using assms(2) by (auto intro!: histories_update)
qed

section \<open>Properties\<close>

text \<open>
  C14. Concurrent callers on different sessions do not disturb each other: when no two callers name
  or create the same session, then at every point of every interleaving, and whichever turns are
  cancelled, each answer is the one the caller would get alone on the first store, its sessions
  are as that turn alone leaves them, and sessions no caller names are untouched; the store is
  well formed, and the turns still under way can all be brought to their answer.
\<close>

theorem turns_isolated:
  assumes "wf_store st0"
    and "\<forall>i < length cs. \<forall>j < length cs. i \<noteq> j \<longrightarrow> turn_keys (cs ! i) \<inter> turn_keys (cs ! j) = {}"
    and "service_run frames orc (st0, waiting cs) (st, ts)"
  shows "(\<forall>i < length cs. \<forall>out. ts ! i = (cs ! i, Answered out) \<longrightarrow>
      (\<exists>st'. recognize frames orc (fst (cs ! i)) (snd (cs ! i)) st0 = (out, st') \<and>
         (\<forall>k \<in> turn_keys (cs ! i). dget st k = dget st' k))) \<and>
    (\<forall>k. (\<forall>i < length cs. k \<notin> turn_keys (cs ! i)) \<longrightarrow> dget st k = dget st0 k) \<and>
    wf_store st \<and> (\<exists>c. service_run frames orc (st, ts) c \<and> answered c)"
proof -
  have "turns.disjoint_keys cs" unfolding turns.disjoint_keys_def by (rule assms(2))
  from turns.run_isolated [OF assms(3) this assms(1)]
  have iso: "turns.isolated frames orc st0 cs (st, ts)" .
  have "\<exists>st'. recognize frames orc (fst (cs ! i)) (snd (cs ! i)) st0 = (out, st') \<and>
      (\<forall>k \<in> turn_keys (cs ! i). dget st k = dget st' k)"
    if "i < length cs" "ts ! i = (cs ! i, Answered out)" for i out
    using that iso recognize_two_pieces [of frames orc "fst (cs ! i)" "snd (cs ! i)" st0]
    unfolding turns.isolated_def
    by (intro exI [of _ "snd (recognize frames orc (fst (cs ! i)) (snd (cs ! i)) st0)"])
      (force simp: turns.undisturbed_def prod_eq_iff)
  then show ?thesis using iso turns.run_ok [OF assms(3)] assms(1) pool_answers
    unfolding turns.isolated_def by simp
qed

text \<open>
  C15. Two turns of one session can lose an entry of its history: if each of two requests on the
  same stored session would be answered, there is a schedule in which both callers get the
  answer they would get alone, and the history afterwards holds only the text of the second
  one; one after the other, both texts are kept.
\<close>

theorem concurrent_turn_lost:
  assumes "wf_store st0" and "dget st0 sid = Some x"
    and "rq_session_id rq1 = Some sid" and "rq_session_id rq2 = Some sid"
    and "recognize frames orc u1 rq1 st0 = (Inr resp1, st1)" and "recognize frames orc u2 rq2 st0 = (Inr resp2, st2)"
  shows "(\<exists>st y. service_run frames orc (st0, waiting [(u1, rq1), (u2, rq2)])
       (st, [((u1, rq1), Answered (Inr resp1)), ((u2, rq2), Answered (Inr resp2))]) \<and>
       dget st sid = Some y \<and> history y = history x @ [rq_text rq2]) \<and>
    (\<exists>st' y'. recognize frames orc u2 rq2 st1 = (Inr resp2, st') \<and>
       dget st' sid = Some y' \<and> history y' = history x @ [rq_text rq1, rq_text rq2])"
proof -
  let ?start = "start_turn frames orc" and ?finish = "finish_turn orc"
  have id: "session_id x = sid" using assms(1,2) by (auto simp: wf_store_def)
  have loaded: "start_session u rq k st = z\<lparr>current_category_id := k\<rparr>" "start_store u rq k st = st"
    if "rq_session_id rq = Some sid" "dget st sid = Some z" for u rq k st z
    using that by (simp_all add: start_session_def start_store_def)
  obtain p1 a y1 where p1: "?start (u1, rq1) st0 = (Inr p1, a)" "?finish (u1, rq1) p1 = (Inr resp1, Some (session_id y1, y1))"
    "session_id y1 = session_id (tp_session p1)" "history y1 = history (tp_session p1) @ [rq_text rq1]" "st1 = dput (session_id y1) y1 a"
    using assms(5) by (rule recognize_start)
  obtain p2 b y2 where p2: "?start (u2, rq2) st0 = (Inr p2, b)" "?finish (u2, rq2) p2 = (Inr resp2, Some (session_id y2, y2))"
    "session_id y2 = session_id (tp_session p2)" "history y2 = history (tp_session p2) @ [rq_text rq2]"
    using assms(6) by (rule recognize_start)
  have s1: "a = st0" "session_id y1 = sid" "history y1 = history x @ [rq_text rq1]"
    using start_turn_Inr [OF p1(1)] loaded(1,2) [OF assms(3,2)] p1(3,4) id by auto
  have s2: "b = st0" "session_id y2 = sid" "history y2 = history x @ [rq_text rq2]"
    using start_turn_Inr [OF p2(1)] loaded(1,2) [OF assms(4,2)] p2(3,4) id by auto
  from overlapping_run [OF p1(1) p2(1) [folded s1(1)] p1(2) p2(2)]
  have run: "service_run frames orc (st0, waiting [(u1, rq1), (u2, rq2)])
      (dput sid y2 (dput sid y1 st0), [((u1, rq1), Answered (Inr resp1)), ((u2, rq2), Answered (Inr resp2))])"
    by (simp add: written_def s1(2) s2(1,2))
  have st1: "dget st1 sid = Some y1" using p1(5) s1(1,2) by (simp add: dict_simps)
  obtain k where k: "tp_session p2 = start_session u2 rq2 k st0"
    "?start (u2, rq2) st1 = (Inr (p2\<lparr>tp_session := start_session u2 rq2 k st1\<rparr>), start_store u2 rq2 k st1)"
    using start_turn_Inr [OF p2(1)] by blast
  let ?x = "y1\<lparr>current_category_id := k\<rparr>"
  have "session_id ?x = session_id (tp_session p2)" "current_category_id ?x = current_category_id (tp_session p2)"
    using k(1) s1(2) id by (simp_all add: loaded(1) [OF assms(4,2)])
  from finish_turn_moved [OF p2(2) this]
  obtain y where "?finish (u2, rq2) (p2\<lparr>tp_session := ?x\<rparr>) = (Inr resp2, Some (sid, y))" "history y = history y1 @ [rq_text rq2]"
    using s1(2) by auto
  then have "recognize frames orc u2 rq2 st1 = (Inr resp2, dput sid y st1)" "history y = history x @ [rq_text rq1, rq_text rq2]"
    using k(2) by (simp_all add: recognize_two_pieces [symmetric] alone_def written_def loaded [OF assms(4) st1] s1(3))
  then show ?thesis using run s2(3)
    by (intro conjI exI [of _ "dput sid y2 (dput sid y1 st0)"] exI [of _ y2] exI [of _ "dput sid y st1"] exI [of _ y])
      (simp_all add: dict_simps)
qed

text \<open>
  C16. However the turns of a service interleave, on whatever sessions, a history only records what
  was answered: it is the history the session had in the first store (none, for a session
  created since), followed by the texts of some of the turns that were answered for this
  session, none of them twice.
\<close>

theorem history_of_answers:
  assumes "wf_store st0" and "\<forall>c \<in> set cs. dget st0 (fst c) = None"
    and "service_run frames orc (st0, waiting cs) (st, ts)" and "dget st sid = Some y"
  shows "\<exists>is. distinct is \<and>
    (\<forall>i \<in> set is. i < length cs \<and> (\<exists>resp. ts ! i = (cs ! i, Answered (Inr resp)) \<and> rs_session_id resp = sid)) \<and>
    history y = (case dget st0 sid of Some x \<Rightarrow> history x | None \<Rightarrow> []) @ map (\<lambda>i. rq_text (snd (cs ! i))) is"
proof -
  have "recorded st0 (waiting cs) sid (history x) []" if "dget st0 sid = Some x" for sid x
    using that by (simp add: recorded_def)
  then have first: "histories_ok st0 (st0, waiting cs)"
    using assms(1) by (fastforce simp: histories_ok_def wf_store_def)
  have "histories_ok st0 (st, ts) \<and> map fst ts = cs"
    using assms(3)
  proof (induction "(st, ts)" arbitrary: st ts rule: rtranclp_induct)
    case base
    then show ?case using first by (simp add: comp_def)
  next
    case (step c)
    then have IH: "histories_ok st0 c" "map fst (snd c) = cs" by (cases c; simp)+
    have "\<forall>t \<in> set (snd c). dget st0 (fst (fst t)) = None"
      using assms(2) unfolding IH(2) [symmetric] set_map by blast
    with IH(1) have "histories_ok st0 (st, ts)" using histories_step step(2) by blast
    moreover have "map fst ts = map fst (snd c)"
      using step(2) by cases (simp_all add: map_update list_update_same_conv)
    ultimately show ?case using IH(2) by simp
  qed
  then obtain "is" where r: "recorded st0 ts sid (history y) is" and cs: "map fst ts = cs"
    using assms(4) unfolding histories_ok_def fst_conv snd_conv by blast
  have "ts ! i = (cs ! i, snd (ts ! i))" if "i < length ts" for i using that cs by auto
  then show ?thesis using r cs unfolding recorded_def
    by (intro exI [of _ "is"]) (auto simp: prod_eq_iff intro!: map_cong)
qed

section \<open>The example scene\<close>

definition bank_callers :: "caller list" where
  "bank_callers = [(u ''s2'', bank_rq), (u ''s3'', bank_rq\<lparr>rq_session_id := None\<rparr>)]"

lemma bank_run_any:
  "recognize 9 bank_orc uuid bank_rq bank_store = (Inr bank_resp,
     store_put (new_session (u ''s1'') (u ''card'')\<lparr>history := [u ''lost card'']\<rparr>) bank_store)"
proof -
  have "start_session uuid bank_rq k bank_store = start_session (u ''s2'') bank_rq k bank_store"
    "start_store uuid bank_rq k bank_store = start_store (u ''s2'') bank_rq k bank_store" for k
    by (simp_all add: start_session_def start_store_def bank_rq_def bank_store_def)
  then have "start_turn 9 bank_orc (uuid, bank_rq) bank_store = start_turn 9 bank_orc (u ''s2'', bank_rq) bank_store"
    by (simp only: start_turn_eq)
  moreover have "finish_turn bank_orc (uuid, bank_rq) = finish_turn bank_orc (u ''s2'', bank_rq)"
    by (rule ext) (simp add: finish_turn_def)
  ultimately show ?thesis
    unfolding bank_run [symmetric] by (simp only: recognize_two_pieces [symmetric] alone_def)
qed

lemma bank_first: "service_run 9 bank_orc (bank_store, waiting bank_callers)
    (store_put (new_session (u ''s1'') (u ''card'')\<lparr>history := [u ''lost card'']\<rparr>) bank_store,
     (waiting bank_callers)[0 := ((u ''s2'', bank_rq), Answered (Inr bank_resp))])"
  by (rule serial_run, simp_all only: recognize_two_pieces bank_run_any) (simp_all add: bank_callers_def)

theorem turns_isolated_witness:
  "\<exists>st ts st'. service_run 9 bank_orc (bank_store, waiting bank_callers) (st, ts) \<and>
     ts ! 0 = ((u ''s2'', bank_rq), Answered (Inr bank_resp)) \<and>
     recognize 9 bank_orc (u ''s2'') bank_rq bank_store = (Inr bank_resp, st') \<and> dget st (u ''s1'') = dget st' (u ''s1'')"
proof -
  let ?st = "store_put (new_session (u ''s1'') (u ''card'')\<lparr>history := [u ''lost card'']\<rparr>) bank_store"
  let ?ts = "(waiting bank_callers)[0 := ((u ''s2'', bank_rq), Answered (Inr bank_resp))]"
  have keys: "turn_keys (bank_callers ! 0) = {u ''s1'', u ''s2''}" "turn_keys (bank_callers ! 1) = {u ''s3''}"
    by (auto simp: bank_callers_def turn_keys_def bank_rq_def)
  have "\<forall>i < length bank_callers. \<forall>j < length bank_callers. i \<noteq> j \<longrightarrow> turn_keys (bank_callers ! i) \<inter> turn_keys (bank_callers ! j) = {}"
    using keys by (auto simp: less_Suc_eq bank_callers_def)
  from turns_isolated [OF bank_store_wf this bank_first, THEN conjunct1, rule_format, of 0 "Inr bank_resp"]
  have "\<exists>st'. recognize 9 bank_orc (u ''s2'') bank_rq bank_store = (Inr bank_resp, st') \<and> dget ?st (u ''s1'') = dget st' (u ''s1'')"
    using keys(1) by (auto simp: bank_callers_def)
  moreover have "?ts ! 0 = ((u ''s2'', bank_rq), Answered (Inr bank_resp))" by (simp add: bank_callers_def)
  ultimately show ?thesis using bank_first by blast
qed

theorem concurrent_turn_lost_witness:
  "\<exists>st y. service_run 9 bank_orc (bank_store, waiting [(u ''s2'', bank_rq), (u ''s3'', bank_rq)])
     (st, [((u ''s2'', bank_rq), Answered (Inr bank_resp)), ((u ''s3'', bank_rq), Answered (Inr bank_resp))]) \<and>
     dget st (u ''s1'') = Some y \<and> history y = [u ''lost card'']"
proof -
  have s: "dget bank_store (u ''s1'') = Some (new_session (u ''s1'') (u ''root''))" by (simp add: bank_store_def)
  have sid: "rq_session_id bank_rq = Some (u ''s1'')" by (simp add: bank_rq_def)
  have lost: "history (new_session (u ''s1'') (u ''root'')) @ [rq_text bank_rq] = [u ''lost card'']"
    by (simp add: bank_rq_def new_session_def)
  from concurrent_turn_lost [OF bank_store_wf s sid sid bank_run_any bank_run_any, THEN conjunct1, of "u ''s2''" "u ''s3''"]
  show ?thesis unfolding lost .
qed

theorem history_of_answers_witness:
  "\<exists>st ts y is. service_run 9 bank_orc (bank_store, waiting bank_callers) (st, ts) \<and> dget st (u ''s1'') = Some y \<and>
     history y = [u ''lost card''] \<and> distinct is \<and> history y = map (\<lambda>i. rq_text (snd (bank_callers ! i))) is"
proof -
  let ?y = "new_session (u ''s1'') (u ''card'')\<lparr>history := [u ''lost card'']\<rparr>"
  have y: "dget (store_put ?y bank_store) (u ''s1'') = Some ?y" by (simp add: store_put_def new_session_def bank_store_def)
  have "\<forall>c \<in> set bank_callers. dget bank_store (fst c) = None" by (simp add: bank_callers_def bank_store_def)
  from history_of_answers [OF bank_store_wf this bank_first y]
  obtain "is" where "distinct is" and h: "history ?y = (case dget bank_store (u ''s1'') of Some x \<Rightarrow> history x | None \<Rightarrow> []) @
      map (\<lambda>i. rq_text (snd (bank_callers ! i))) is" by blast
  moreover have "(case dget bank_store (u ''s1'') of Some x \<Rightarrow> history x | None \<Rightarrow> []) = []"
    by (simp add: bank_store_def new_session_def)
  ultimately have "distinct is" "history ?y = map (\<lambda>i. rq_text (snd (bank_callers ! i))) is" by simp_all
  then show ?thesis using bank_first y by (intro exI conjI) auto
qed

end
