(* ===== verification/Vad_Stream.thy ===== *)
theory Vad_Stream
  imports Asr
begin

text \<open>
  The detectors as their consumers see them while the audio is still arriving. A generator over
  the source is the function from the chunks it has been given, and whether the source has
  ended, to what it has yielded by then; the whole-stream definitions of the detectors are its
  value at the end. The locale says that a generator never takes anything back.
\<close>

section \<open>Generators over a source\<close>

type_synonym 'a upto = "bytes list \<Rightarrow> bool \<Rightarrow> 'a gen"

definition gen_of :: "'a list result \<Rightarrow> 'a gen" where
  "gen_of r = (case r of Inl e \<Rightarrow> ([], Some e) | Inr xs \<Rightarrow> (xs, None))"

definition mock_events_upto :: "segment_event upto" where
  "mock_events_upto chunks ended =
     (if ended then (mock_stream_events chunks, None)
      else (if chunks = [] then [] else [\<lparr>ev_kind = SpeechStart, at_ms = 0\<rparr>], None))"

definition mock_segments_upto :: "segment_result upto" where
  "mock_segments_upto chunks ended = (if ended then gen_of (mock_stream_segments chunks) else ([], None))"

definition drive_upto ::
  "'st infer \<Rightarrow> pyfloat \<Rightarrow> 'st \<Rightarrow> bytes list \<Rightarrow> bool \<Rightarrow> segmenter_output list result" where
  "drive_upto infer threshold st0 chunks ended =
     (if ended then drive_stream infer threshold st0 chunks
      else bindE (silero_aggregator 16000) (\<lambda>agg.
           bindE (drive_chunks infer threshold chunks agg st0 []) (\<lambda>(agg, st, residual, outs). Inr outs)))"

definition silero_events_upto :: "'st infer \<Rightarrow> pyfloat \<Rightarrow> 'st \<Rightarrow> segment_event upto" where
  "silero_events_upto infer threshold st0 chunks ended =
     gen_of (bindE (drive_upto infer threshold st0 chunks ended) (\<lambda>outs. Inr (concat (map events outs))))"

definition silero_segments_upto :: "'st infer \<Rightarrow> pyfloat \<Rightarrow> 'st \<Rightarrow> segment_result upto" where
  "silero_segments_upto infer threshold st0 chunks ended =
     gen_of (bindE (drive_upto infer threshold st0 chunks ended) (\<lambda>outs. Inr (concat (map segments outs))))"

lemma gen_of_simps [simp]: "gen_of (Inr xs) = (xs, None)" "gen_of (Inl e) = ([], Some e)"
  by (simp_all add: gen_of_def)

section \<open>The contract\<close>

locale incremental =
  fixes gen :: "'a upto"
  assumes grows: "prefix (fst (gen cs False)) (fst (gen (cs @ [c]) False))"
    and finishes: "prefix (fst (gen cs False)) (fst (gen cs True))"
    and no_error: "snd (gen cs ended) = None"
begin

lemma grows_append: "prefix (fst (gen cs False)) (fst (gen (cs @ ds) False))"
proof (induction ds rule: rev_induct)
  case (snoc d ds)
  then show ?case using grows [of "cs @ ds" d] by (simp add: prefix_order.order_trans)
qed simp

lemma upto_final: "prefix (fst (gen cs False)) (fst (gen (cs @ ds) True))"
  using grows_append [of cs ds] finishes [of "cs @ ds"] by (rule prefix_order.order_trans)

text \<open>What has been taken from a generator stays what it is when the source goes on.\<close>

lemma taken_stable:
  assumes "n \<le> length (fst (gen cs False))"
  shows "take n (fst (gen (cs @ [c]) False)) = take n (fst (gen cs False))"
    and "take n (fst (gen cs True)) = take n (fst (gen cs False))"
    and "n \<le> length (fst (gen (cs @ [c]) False))" and "n \<le> length (fst (gen cs True))"
  using assms grows [of cs c] finishes [of cs] by (auto simp: prefix_def)

end

section \<open>The detectors keep it\<close>

interpretation mock_ev: incremental mock_events_upto
proof
  show "prefix (fst (mock_events_upto cs False)) (fst (mock_events_upto cs True))" for cs
    by (cases cs) (simp_all add: mock_events_upto_def mock_stream_events_def)
qed (simp_all add: mock_events_upto_def)

interpretation mock_seg: incremental mock_segments_upto
proof
  show "snd (mock_segments_upto cs ended) = None" for cs ended
    using mock.stream_total [of cs] by (auto simp: mock_segments_upto_def)
qed (simp_all add: mock_segments_upto_def)

lemma drive_chunks_append:
  "drive_chunks infer threshold (cs @ ds) agg st r =
     bindE (drive_chunks infer threshold cs agg st r) (\<lambda>(agg, st, r, outs).
     bindE (drive_chunks infer threshold ds agg st r) (\<lambda>(agg, st, r, outs'). Inr (agg, st, r, outs @ outs')))"
  by (induction cs arbitrary: agg st r) (simp_all add: bindE_assoc case_prod_unfold bindE_def split: sum.split)

lemma drive_stream_total: "\<exists>outs. drive_stream infer threshold st0 chunks = Inr outs"
  using silero.stream_total [of infer threshold st0 chunks]
  by (auto simp: silero_stream_segments_def result_simps)

lemma drive_upto_total: "\<exists>outs. drive_upto infer threshold st0 chunks ended = Inr outs"
  using drive_stream_total [of infer threshold st0 chunks]
  by (auto simp: drive_upto_def drive_stream_def result_simps)

lemma drive_upto_finishes:
  assumes "drive_upto infer threshold st0 cs False = Inr outs"
  shows "\<exists>outs'. drive_upto infer threshold st0 cs True = Inr (outs @ outs')"
proof -
  obtain whole where whole: "drive_stream infer threshold st0 cs = Inr whole"
    using drive_stream_total [of infer threshold st0 cs] by auto
  then have "\<exists>outs'. whole = outs @ outs'"
    using assms unfolding drive_upto_def drive_stream_def by (auto simp: bindE_Inr_iff)
  with whole show ?thesis by (auto simp: drive_upto_def)
qed

lemma drive_upto_grows:
  assumes "drive_upto infer threshold st0 cs False = Inr outs"
  shows "\<exists>outs'. drive_upto infer threshold st0 (cs @ [c]) False = Inr (outs @ outs')"
  using assms drive_upto_total [of infer threshold st0 "cs @ [c]" False]
  by (auto simp: drive_upto_def drive_chunks_append result_simps simp del: drive_chunks.simps)

lemma silero_incremental:
  assumes "\<And>cs ended. gen cs ended =
      gen_of (bindE (drive_upto infer threshold st0 cs ended) (\<lambda>outs. Inr (concat (map (f :: _ \<Rightarrow> 'a list) outs))))"
  shows "incremental gen"
proof
  fix cs :: "bytes list" and c ended
  obtain outs where outs: "drive_upto infer threshold st0 cs False = Inr outs"
    using drive_upto_total [of infer threshold st0 cs False] by auto
  show "prefix (fst (gen cs False)) (fst (gen (cs @ [c]) False))"
    using drive_upto_grows [OF outs, of c] outs by (auto simp: assms)
  show "prefix (fst (gen cs False)) (fst (gen cs True))"
    using drive_upto_finishes [OF outs] outs by (auto simp: assms)
  show "snd (gen cs ended) = None"
    using drive_upto_total [of infer threshold st0 cs ended] by (auto simp: assms)
qed

interpretation silero_ev: incremental "silero_events_upto infer threshold st0" for infer threshold st0
  by (rule silero_incremental) (rule silero_events_upto_def)

interpretation silero_seg: incremental "silero_segments_upto infer threshold st0" for infer threshold st0
  by (rule silero_incremental) (rule silero_segments_upto_def)

text \<open>At the end of the source the generators have yielded what the whole-stream definitions say.\<close>

lemma upto_end:
  "mock_events_upto chunks True = (mock_stream_events chunks, None)"
  "mock_segments_upto chunks True = gen_of (mock_stream_segments chunks)"
  "silero_events_upto infer threshold st0 chunks True = gen_of (silero_stream_events infer threshold st0 chunks)"
  "silero_segments_upto infer threshold st0 chunks True = gen_of (silero_stream_segments infer threshold st0 chunks)"
  by (simp_all add: mock_events_upto_def mock_segments_upto_def silero_events_upto_def silero_segments_upto_def
      drive_upto_def silero_stream_events_def silero_stream_segments_def)

end
