(* ===== verification/Ws_Turn.thy ===== *)
theory Ws_Turn
  imports Http_Api Vad_Stream
begin

text \<open>
  One turn of the WebSocket stream of \<open>api/routes.py\<close>: the \<open>_TurnContext\<close> and the four tasks that
  work on it. \<open>fan_out\<close> copies the client's audio to two queues, \<open>forward_events\<close> sends the
  detector's boundary events, the pump (\<open>_pump_vad_asr\<close>) waits for the first utterance and
  streams it through the recogniser, and \<open>_finalize_turn\<close> asks the orchestrator. The tasks
  interleave at their \<open>await\<close>s: each has a step function that runs it to the next one, \<open>None\<close>
  when it is blocked or has ended. Locals that live across an \<open>await\<close> are part of the state.
\<close>

section \<open>Frames\<close>

datatype body =
    VadEvent event_kind int
  | Partial pystr int int
  | Final pystr int int
  | Result recognition_response
  | ErrorFrame string detail bool

text \<open>The service a connection talks to; \<open>json.loads\<close> and \<open>str\<close> of a JSON value are parameters.\<close>

record ws_server =
  sv_env :: environ
  sv_orc :: orchestrator
  sv_asr :: asr_stream
  sv_events :: "segment_event upto"
  sv_segments :: "segment_result upto"
  sv_frames :: nat
  sv_loads :: "pystr \<Rightarrow> pyval result"
  sv_str :: "pyval \<Rightarrow> pystr"

section \<open>State\<close>

datatype task = Unstarted | Running | Finished | Cancelled

text \<open>How \<open>first_segment\<close> ended, kept while the \<open>finally\<close> block waits.\<close>

datatype first_outcome = Got "segment_result option" | Threw exn | CancelPending

text \<open>
  Where the pump is: not yet run; in \<open>first_segment\<close> with the items its source has taken; waiting
  for \<open>fan_task\<close>; for \<open>events_task\<close>; in the recogniser with the number of items received and
  \<open>final_text\<close>; returned, raised, or cancelled.
\<close>

datatype pump =
    PNew
  | PFirst "bytes list" bool
  | PAwaitFan first_outcome
  | PAwaitEvents first_outcome
  | PAsr segment_result nat pystr
  | PDone pystr
  | PFailed exn
  | PCancelled

datatype finalizer = ZWait | ZMatch recognition_request | ZDone | ZFailed exn | ZCancelled

record turn =
  tc_session :: pystr
  tc_turn :: int
  tc_scene_id :: pyval
  tc_category_path :: pyval
  tc_n_best :: int
  tc_max_audio_bytes :: int
  tc_queue :: "bytes option list"
  tc_cancelled :: bool
  tc_metric_recorded :: bool
  tc_audio_accum :: bytes
  tc_audio_overflow :: bool
  tc_events_q :: "bytes option list"
  tc_segments_q :: "bytes option list"
  tc_fan :: task
  tc_events :: task
  tc_ev_taken :: "bytes list"
  tc_ev_ended :: bool
  tc_ev_sent :: nat
  tc_pump :: pump
  tc_finalize :: finalizer

definition TurnContext :: "pystr \<Rightarrow> int \<Rightarrow> pyval \<Rightarrow> pyval \<Rightarrow> int \<Rightarrow> int \<Rightarrow> turn" where
  "TurnContext sid tid scene_id category_path n_best max_audio_bytes =
     \<lparr>tc_session = sid, tc_turn = tid, tc_scene_id = scene_id, tc_category_path = category_path,
      tc_n_best = n_best, tc_max_audio_bytes = max_audio_bytes, tc_queue = [], tc_cancelled = False,
      tc_metric_recorded = False, tc_audio_accum = [], tc_audio_overflow = False,
      tc_events_q = [], tc_segments_q = [], tc_fan = Unstarted, tc_events = Unstarted,
      tc_ev_taken = [], tc_ev_ended = False, tc_ev_sent = 0, tc_pump = PNew, tc_finalize = ZWait\<rparr>"

fun pump_done :: "pump \<Rightarrow> bool" where
  "pump_done (PDone _) = True"
| "pump_done (PFailed _) = True"
| "pump_done PCancelled = True"
| "pump_done _ = False"

fun finalizer_done :: "finalizer \<Rightarrow> bool" where
  "finalizer_done ZWait = False"
| "finalizer_done (ZMatch _) = False"
| "finalizer_done _ = True"

section \<open>Tasks\<close>

definition fan_out :: "turn \<Rightarrow> turn option" where
  "fan_out t =
     (if tc_fan t \<noteq> Running then None
      else case tc_queue t of
        [] \<Rightarrow> None
      | item # rest \<Rightarrow>
          Some (t\<lparr>tc_queue := rest, tc_events_q := tc_events_q t @ [item],
                  tc_segments_q := tc_segments_q t @ [item],
                  tc_fan := (if item = None then Finished else Running)\<rparr>))"

text \<open>The next item of a generator, or else the next item of its source.\<close>

definition forward_events :: "ws_server \<Rightarrow> turn \<Rightarrow> (turn \<times> body list) option" where
  "forward_events sv t =
     (if tc_events t \<noteq> Running then None
      else case sv_events sv (tc_ev_taken t) (tc_ev_ended t) of (yielded, failure) \<Rightarrow>
        if tc_ev_sent t < length yielded
        then (if tc_cancelled t then Some (t\<lparr>tc_events := Finished\<rparr>, [])
              else Some (t\<lparr>tc_ev_sent := Suc (tc_ev_sent t)\<rparr>,
                         [VadEvent (ev_kind (yielded ! tc_ev_sent t)) (at_ms (yielded ! tc_ev_sent t))]))
        else if failure \<noteq> None \<or> tc_ev_ended t then Some (t\<lparr>tc_events := Finished\<rparr>, [])
        else case tc_events_q t of
          [] \<Rightarrow> None
        | Some chunk # rest \<Rightarrow> Some (t\<lparr>tc_events_q := rest, tc_ev_taken := tc_ev_taken t @ [chunk]\<rparr>, [])
        | None # rest \<Rightarrow> Some (t\<lparr>tc_events_q := rest, tc_ev_ended := True\<rparr>, []))"

definition first_segment :: "ws_server \<Rightarrow> bytes list \<Rightarrow> bool \<Rightarrow> turn \<Rightarrow> turn option" where
  "first_segment sv taken ended t =
     (case sv_segments sv taken ended of
        (seg # _, _) \<Rightarrow> Some (t\<lparr>tc_pump := PAwaitFan (Got (if tc_cancelled t then None else Some seg))\<rparr>)
      | ([], Some e) \<Rightarrow> Some (t\<lparr>tc_pump := PAwaitFan (Threw e)\<rparr>)
      | ([], None) \<Rightarrow>
          if ended then Some (t\<lparr>tc_pump := PAwaitFan (Got None)\<rparr>)
          else (case tc_segments_q t of
                  [] \<Rightarrow> None
                | Some chunk # rest \<Rightarrow> Some (t\<lparr>tc_segments_q := rest, tc_pump := PFirst (taken @ [chunk]) False\<rparr>)
                | None # rest \<Rightarrow> Some (t\<lparr>tc_segments_q := rest, tc_pump := PFirst taken True\<rparr>)))"

definition segment_chunks :: "segment_result \<Rightarrow> audio_chunk list" where
  "segment_chunks seg =
     (let slice_bytes = nat (max 2 ((seg_sample_rate seg div 5) * 2)); pcm = pcm16 seg
      in map (\<lambda>seq. \<lparr>ac_pcm16 = take slice_bytes (drop (seq * slice_bytes) pcm), ac_sequence = seq\<rparr>)
           [0..<(length pcm + slice_bytes - 1) div slice_bytes])"

definition stream_segment_through_asr ::
  "ws_server \<Rightarrow> segment_result \<Rightarrow> nat \<Rightarrow> pystr \<Rightarrow> turn \<Rightarrow> turn \<times> body list" where
  "stream_segment_through_asr sv seg n final_text t =
     (case sv_asr sv (segment_chunks seg) of (partials, failure) \<Rightarrow>
        if n < length partials
        then (let p = partials ! n; start = start_ms seg; stop = start_ms seg + pt_end_ms p
              in if tc_cancelled t then (t\<lparr>tc_pump := PDone []\<rparr>, [])
                 else if pt_is_final p
                 then (t\<lparr>tc_pump := PAsr seg (Suc n) (pt_text p)\<rparr>, [Final (pt_text p) start stop])
                 else (t\<lparr>tc_pump := PAsr seg (Suc n) final_text\<rparr>, [Partial (pt_text p) start stop]))
        else case failure of
          None \<Rightarrow> (t\<lparr>tc_pump := PDone final_text\<rparr>, [])
        | Some e \<Rightarrow>
            if tc_cancelled t then (t\<lparr>tc_pump := PDone []\<rparr>, [])
            else (t\<lparr>tc_cancelled := True, tc_pump := PDone []\<rparr>, [ErrorFrame ''ASR_FAILED'' (StrOf e) False]))"

definition pump_vad_asr :: "ws_server \<Rightarrow> turn \<Rightarrow> (turn \<times> body list) option" where
  "pump_vad_asr sv t =
     (case tc_pump t of
        PNew \<Rightarrow> Some (t\<lparr>tc_fan := Running, tc_events := Running, tc_pump := PFirst [] False\<rparr>, [])
      | PFirst taken ended \<Rightarrow> map_option (\<lambda>t. (t, [])) (first_segment sv taken ended t)
      | PAwaitFan r \<Rightarrow> if tc_fan t = Running then None else Some (t\<lparr>tc_pump := PAwaitEvents r\<rparr>, [])
      | PAwaitEvents r \<Rightarrow>
          if tc_events t = Running then None
          else (case r of
                  CancelPending \<Rightarrow> Some (t\<lparr>tc_pump := PCancelled\<rparr>, [])
                | Threw e \<Rightarrow> Some (t\<lparr>tc_pump := PFailed e\<rparr>, [])
                | Got None \<Rightarrow> Some (t\<lparr>tc_pump := PDone []\<rparr>, [])
                | Got (Some seg) \<Rightarrow>
                    if tc_cancelled t \<or> pcm16 seg = [] then Some (t\<lparr>tc_pump := PDone []\<rparr>, [])
                    else Some (t\<lparr>tc_pump := PAsr seg 0 []\<rparr>, []))
      | PAsr seg n final_text \<Rightarrow> Some (stream_segment_through_asr sv seg n final_text t)
      | _ \<Rightarrow> None)"

section \<open>Finalization\<close>

definition ws_scene_label :: "ws_server \<Rightarrow> pyval \<Rightarrow> pyval \<Rightarrow> pystr" where
  "ws_scene_label sv scene_id category_path =
     (if truthy scene_id then (case scene_id of PStr s \<Rightarrow> s | v \<Rightarrow> sv_str sv v)
      else if truthy category_path then u ''path'' else u ''unknown'')"

text \<open>The \<open>finally\<close> block.\<close>

definition finish :: "ws_server \<Rightarrow> finalizer \<Rightarrow> string \<Rightarrow> turn \<Rightarrow> turn \<times> observation list" where
  "finish sv z outcome t =
     (t\<lparr>tc_finalize := z, tc_metric_recorded := True\<rparr>,
      if \<not> tc_metric_recorded t \<and> outcome \<noteq> ''cancelled''
      then observe_recognize_result ''stream'' (ws_scene_label sv (tc_scene_id t) (tc_category_path t)) outcome
      else [])"

fun optional_str :: "pyval \<Rightarrow> pystr option result" where
  "optional_str PNone = Inr None"
| "optional_str (PStr s) = Inr (Some s)"
| "optional_str _ = Inl (ValidationError ''string_type'')"

definition turn_request :: "pystr \<Rightarrow> turn \<Rightarrow> recognition_request result" where
  "turn_request final_text t =
     bindE (optional_str (tc_scene_id t)) (\<lambda>scene_id.
     bindE (optional_str (tc_category_path t)) (\<lambda>category_path.
       RecognitionRequest scene_id category_path final_text
         (if tc_audio_overflow t then None else Some (tc_audio_accum t)) (Some (tc_session t)) (tc_n_best t)))"

text \<open>\<open>_finalize_turn\<close>. The response is sent with the session of the connection, whatever the turn answered.\<close>

definition finalize_turn ::
  "ws_server \<Rightarrow> pystr \<Rightarrow> session_store \<Rightarrow> turn \<Rightarrow> (turn \<times> body list \<times> session_store \<times> observation list) option" where
  "finalize_turn sv uuid st t =
     (case tc_finalize t of
        ZWait \<Rightarrow>
          (case tc_pump t of
             PCancelled \<Rightarrow> (case finish sv ZCancelled ''cancelled'' t of (t, obs) \<Rightarrow> Some (t, [], st, obs))
           | PFailed e \<Rightarrow> (case finish sv (ZFailed e) ''error'' t of (t, obs) \<Rightarrow> Some (t, [], st, obs))
           | PDone final_text \<Rightarrow>
               if tc_cancelled t then (case finish sv ZDone ''cancelled'' t of (t, obs) \<Rightarrow> Some (t, [], st, obs))
               else if strip final_text = []
               then (case finish sv ZDone ''no_speech'' t of (t, obs) \<Rightarrow>
                       Some (t, [ErrorFrame ''NO_SPEECH'' (Detail ''no transcript produced'') False], st, obs))
               else (case turn_request final_text t of
                       Inl e \<Rightarrow> (case finish sv (ZFailed e) ''error'' t of (t, obs) \<Rightarrow> Some (t, [], st, obs))
                     | Inr req \<Rightarrow> Some (t\<lparr>tc_finalize := ZMatch req\<rparr>, [], st, []))
           | _ \<Rightarrow> None)
      | ZMatch req \<Rightarrow>
          (case recognize (sv_frames sv) (sv_orc sv) uuid req st of
             (Inr response, st) \<Rightarrow>
               (case finish sv ZDone ''ok'' t of (t, obs) \<Rightarrow> Some (t, [Result (response\<lparr>rs_session_id := tc_session t\<rparr>)], st, obs))
           | (Inl e, st) \<Rightarrow>
               if is_key_error e
               then (case finish sv ZDone ''error'' t of (t, obs) \<Rightarrow>
                       Some (t, [ErrorFrame ''UNKNOWN_SCENE'' (StrOf e) False], st, obs))
               else if is_value_error e
               then (case finish sv ZDone ''error'' t of (t, obs) \<Rightarrow>
                       Some (t, [ErrorFrame ''INVALID_REQUEST'' (StrOf e) False], st, obs))
               else (case finish sv (ZFailed e) ''error'' t of (t, obs) \<Rightarrow> Some (t, [], st, obs)))
      | _ \<Rightarrow> None)"

section \<open>Cancellation\<close>

text \<open>
  \<open>task.cancel()\<close> on the pump. A task that has not run never starts; one that waits for another
  task cancels that one, and here the \<open>suppress\<close> around the wait swallows the error.
\<close>

definition cancel_pump :: "turn \<Rightarrow> turn" where
  "cancel_pump t =
     (case tc_pump t of
        PNew \<Rightarrow> t\<lparr>tc_pump := PCancelled\<rparr>
      | PFirst _ _ \<Rightarrow> t\<lparr>tc_pump := PAwaitFan CancelPending\<rparr>
      | PAwaitFan r \<Rightarrow> t\<lparr>tc_fan := (if tc_fan t = Running then Cancelled else tc_fan t)\<rparr>
      | PAwaitEvents r \<Rightarrow> t\<lparr>tc_events := (if tc_events t = Running then Cancelled else tc_events t)\<rparr>
      | PAsr _ _ _ \<Rightarrow> t\<lparr>tc_pump := PCancelled\<rparr>
      | _ \<Rightarrow> t)"

text \<open>The sessions when a turn is cancelled while the matcher runs: a new one is already there.\<close>

definition loaded_store :: "ws_server \<Rightarrow> pystr \<Rightarrow> recognition_request \<Rightarrow> session_store \<Rightarrow> session_store" where
  "loaded_store sv uuid req st =
     (case registry_resolve (o_registry (sv_orc sv)) (rq_scene_id req) (rq_category_path req) of
        Inl e \<Rightarrow> st
      | Inr (scene_id, category_id) \<Rightarrow> snd (load_or_create_session uuid (rq_session_id req) category_id st))"

text \<open>
  \<open>task.cancel()\<close> on the finalizer. It may be waiting for the pump, or for the matcher, where the
  \<open>finally\<close> block still holds the outcome \<open>error\<close>.
\<close>

definition cancel_finalize ::
  "ws_server \<Rightarrow> pystr \<Rightarrow> session_store \<Rightarrow> turn \<Rightarrow> turn \<times> session_store \<times> observation list" where
  "cancel_finalize sv uuid st t =
     (case tc_finalize t of
        ZWait \<Rightarrow>
          if pump_done (tc_pump t)
          then (case finish sv ZCancelled ''cancelled'' t of (t, obs) \<Rightarrow> (t, st, obs))
          else (cancel_pump t, st, [])
      | ZMatch req \<Rightarrow>
          (case finish sv ZCancelled ''error'' t of (t, obs) \<Rightarrow> (t, loaded_store sv uuid req st, obs))
      | _ \<Rightarrow> (t, st, []))"

section \<open>Slices\<close>

lemma concat_slices: "concat (map (\<lambda>i. take k (drop (i * k) xs)) [0..<n]) = take (n * k) xs"
proof (induction n)
  case (Suc n)
  then show ?case using take_add [of "n * k" k xs] by (simp add: add.commute)
qed simp

text \<open>The recogniser is given the whole utterance, in slices that are not empty.\<close>

lemma segment_chunks_cover:
  "concat (map ac_pcm16 (segment_chunks seg)) = pcm16 seg"
  "chunk \<in> set (segment_chunks seg) \<Longrightarrow> ac_pcm16 chunk \<noteq> []"
proof -
  define k where "k = nat (max 2 ((seg_sample_rate seg div 5) * 2))"
  define n where "n = (length (pcm16 seg) + k - 1) div k"
  have k: "0 < k" by (simp add: k_def)
  have chunks: "segment_chunks seg = map (\<lambda>seq. \<lparr>ac_pcm16 = take k (drop (seq * k) (pcm16 seg)), ac_sequence = seq\<rparr>) [0..<n]"
    by (simp add: segment_chunks_def k_def n_def Let_def)
  have "length (pcm16 seg) + k - 1 < Suc n * k"
    unfolding n_def by (rule dividend_less_div_times [OF k, THEN less_le_trans]) simp
  then have "length (pcm16 seg) \<le> n * k" by simp
  then show "concat (map ac_pcm16 (segment_chunks seg)) = pcm16 seg"
    using concat_slices [of k "pcm16 seg" n] by (simp add: chunks comp_def)
  assume "chunk \<in> set (segment_chunks seg)"
  then obtain i where i: "i < n" "ac_pcm16 chunk = take k (drop (i * k) (pcm16 seg))" by (auto simp: chunks)
  have "Suc i * k \<le> n * k" using i(1) by (intro mult_le_mono1) simp
  also have "n * k \<le> length (pcm16 seg) + k - 1" by (simp add: n_def)
  finally have "i * k < length (pcm16 seg)" using k by simp
  then show "ac_pcm16 chunk \<noteq> []" using i(2) k by simp
qed

end
