(* ===== verification/Ws_Stream.thy ===== *)
theory Ws_Stream
  imports Ws_Turn
begin

text \<open>
  The WebSocket endpoint of \<open>api/routes.py\<close>: \<open>_StreamSession\<close> and the receive loop of
  \<open>recognize_stream\<close>, as a transition system. A connection holds the messages the client has yet
  to have received, where the loop is, the active turn, and what was sent, stored and counted.
  A step lets the loop or one of the turn's tasks run to its next \<open>await\<close>; a run of the system
  is any interleaving, so every scheduling of the event loop and every timing of the client is
  covered. A frame that is sent is taken to be accepted by the transport.
\<close>

section \<open>State\<close>

datatype ws_message = Disconnect | Binary bytes | Text pystr | Neither

text \<open>A frame sent: session and turn, if it names them, and the body.\<close>

type_synonym ws_frame = "(pystr \<times> int) option \<times> body"

datatype ws_ending = Unauthorized | ClosedWith nat | Disconnected | Raised exn

text \<open>What the receive loop does once the active turn is abandoned.\<close>

datatype resume =
    OpenTurn pystr int pyval pyval "pyval option"
  | EndWith ws_ending

datatype loop = Receive | AwaitPump resume | AwaitFinalize resume | Ended ws_ending

record conn =
  wc_inbox :: "ws_message list"
  wc_loop :: loop
  wc_session_id :: "pystr option"
  wc_current_turn_id :: int
  wc_ctx :: "turn option"
  wc_sent :: "ws_frame list"
  wc_store :: session_store
  wc_observed :: "observation list"

section \<open>Opening a connection\<close>

text \<open>\<open>headers.get("x-api-key") or query_params.get("api_key")\<close>\<close>

definition check_ws_api_key :: "environ \<Rightarrow> pystr option \<Rightarrow> pystr option \<Rightarrow> bool" where
  "check_ws_api_key env header query =
     (let expected = env_get env ''SANDROID_API_KEY'' ''dev-insecure-change-me'';
          provided = (case header of Some k \<Rightarrow> if k \<noteq> [] then Some k else query | None \<Rightarrow> query)
      in provided \<noteq> None \<and> provided = Some expected)"

definition recognize_stream ::
  "ws_server \<Rightarrow> pystr option \<Rightarrow> pystr option \<Rightarrow> ws_message list \<Rightarrow> session_store \<Rightarrow> conn" where
  "recognize_stream sv header query inbox st =
     \<lparr>wc_inbox = inbox, wc_loop = (if check_ws_api_key (sv_env sv) header query then Receive else Ended Unauthorized),
      wc_session_id = None, wc_current_turn_id = -1, wc_ctx = None, wc_sent = [], wc_store = st, wc_observed = []\<rparr>"

section \<open>Handlers\<close>

definition handle_pcm :: "bytes \<Rightarrow> conn \<Rightarrow> conn" where
  "handle_pcm data c =
     (case wc_ctx c of
        None \<Rightarrow> c
      | Some t \<Rightarrow>
          if tc_cancelled t then c
          else
            (let t = (if tc_audio_overflow t then t
                      else if tc_max_audio_bytes t < int (length (tc_audio_accum t) + length data)
                      then t\<lparr>tc_audio_overflow := True, tc_audio_accum := []\<rparr>
                      else t\<lparr>tc_audio_accum := tc_audio_accum t @ data\<rparr>)
             in c\<lparr>wc_ctx := Some (t\<lparr>tc_queue := tc_queue t @ [Some data]\<rparr>)\<rparr>))"

definition handle_stop :: "conn \<Rightarrow> conn" where
  "handle_stop c =
     (case wc_ctx c of
        None \<Rightarrow> c
      | Some t \<Rightarrow> if tc_cancelled t then c else c\<lparr>wc_ctx := Some (t\<lparr>tc_queue := tc_queue t @ [None]\<rparr>)\<rparr>)"

definition ws_send :: "(pystr \<times> int) option \<Rightarrow> body list \<Rightarrow> conn \<Rightarrow> conn" where
  "ws_send ids bodies c = c\<lparr>wc_sent := wc_sent c @ map (Pair ids) bodies\<rparr>"

fun py_int :: "pyval \<Rightarrow> int result" where
  "py_int (PInt i) = Inr i"
| "py_int (PBool b) = Inr (if b then 1 else 0)"
| "py_int (PFloat x) = Inr (if 0 \<le> x then \<lfloor>x\<rfloor> else \<lceil>x\<rceil>)"
| "py_int (PStr s) = parse_int is_space s"
| "py_int _ = Inl (TypeError ''int() argument'')"

text \<open>After the active turn is gone: open the new one, or end the connection.\<close>

definition resume_with :: "ws_server \<Rightarrow> resume \<Rightarrow> conn \<Rightarrow> conn" where
  "resume_with sv k c =
     (case k of
        EndWith e \<Rightarrow> c\<lparr>wc_loop := Ended e\<rparr>
      | OpenTurn sid tid scene_id category_path n_best \<Rightarrow>
          (let c = c\<lparr>wc_session_id := Some sid, wc_current_turn_id := tid\<rparr>
           in case bindE (py_int (case n_best of None \<Rightarrow> PInt 5 | Some v \<Rightarrow> v)) (\<lambda>n.
                   bindE (get_max_audio_bytes (sv_env sv)) (\<lambda>limit. Inr (n, limit))) of
                Inl e \<Rightarrow> c\<lparr>wc_loop := Ended (Raised e)\<rparr>
              | Inr (n, limit) \<Rightarrow>
                  c\<lparr>wc_ctx := Some (TurnContext sid tid scene_id category_path n limit), wc_loop := Receive\<rparr>))"

text \<open>\<open>_abandon_active\<close> from the test of \<open>self._finalize\<close> on, and from the beginning.\<close>

definition abandon_finalize :: "ws_server \<Rightarrow> pystr \<Rightarrow> resume \<Rightarrow> conn \<Rightarrow> conn" where
  "abandon_finalize sv uuid k c =
     (case wc_ctx c of
        None \<Rightarrow> resume_with sv k c
      | Some t \<Rightarrow>
          if finalizer_done (tc_finalize t) then resume_with sv k c
          else (case cancel_finalize sv uuid (wc_store c) t of (t, st, obs) \<Rightarrow>
                  c\<lparr>wc_ctx := Some t, wc_store := st, wc_observed := wc_observed c @ obs, wc_loop := AwaitFinalize k\<rparr>))"

definition cancel_turn :: "turn \<Rightarrow> turn" where
  "cancel_turn t =
     (let t = t\<lparr>tc_cancelled := True, tc_queue := tc_queue t @ [None]\<rparr>
      in if pump_done (tc_pump t) then t else cancel_pump t)"

definition abandon_active :: "ws_server \<Rightarrow> pystr \<Rightarrow> resume \<Rightarrow> conn \<Rightarrow> conn" where
  "abandon_active sv uuid k c =
     (case wc_ctx c of
        None \<Rightarrow> resume_with sv k c
      | Some t \<Rightarrow>
          if tc_cancelled t then abandon_finalize sv uuid k c
          else if pump_done (tc_pump t) then abandon_finalize sv uuid k (c\<lparr>wc_ctx := Some (cancel_turn t)\<rparr>)
          else c\<lparr>wc_ctx := Some (cancel_turn t), wc_loop := AwaitPump k\<rparr>)"

definition dict_get :: "(pyval \<times> pyval) list \<Rightarrow> string \<Rightarrow> pyval" where
  "dict_get d key = (case dget d (PStr (u key)) of None \<Rightarrow> PNone | Some v \<Rightarrow> v)"

text \<open>\<open>isinstance(x, int)\<close>: a Boolean is an integer.\<close>

fun int_instance :: "pyval \<Rightarrow> int option" where
  "int_instance (PInt i) = Some i"
| "int_instance (PBool b) = Some (if b then 1 else 0)"
| "int_instance _ = None"

fun str_instance :: "pyval \<Rightarrow> pystr option" where
  "str_instance (PStr s) = Some s"
| "str_instance _ = None"

text \<open>A fatal error frame, after which the loop closes the socket and abandons the turn.\<close>

definition fatal_start :: "ws_server \<Rightarrow> pystr \<Rightarrow> (pystr \<times> int) option \<Rightarrow> string \<Rightarrow> string \<Rightarrow> conn \<Rightarrow> conn" where
  "fatal_start sv uuid ids code message c =
     abandon_active sv uuid (EndWith (ClosedWith 4422)) (ws_send ids [ErrorFrame code (Detail message) True] c)"

definition ws_handle_start :: "ws_server \<Rightarrow> pystr \<Rightarrow> (pyval \<times> pyval) list \<Rightarrow> conn \<Rightarrow> conn" where
  "ws_handle_start sv uuid control c =
     (let scene_id = dict_get control ''scene_id''; category_path = dict_get control ''category_path''
      in case (str_instance (dict_get control ''session_id''), int_instance (dict_get control ''turn_id'')) of
        (Some sid, Some tid) \<Rightarrow>
          if scene_id = PNone \<and> category_path = PNone
          then fatal_start sv uuid (Some (sid, tid)) ''BAD_START'' ''either scene_id or category_path is required'' c
          else if wc_session_id c \<noteq> None \<and> wc_session_id c \<noteq> Some sid
          then fatal_start sv uuid (Some (sid, tid)) ''SESSION_MISMATCH'' ''session_id changed mid-connection'' c
          else if tid \<le> wc_current_turn_id c
          then ws_send (Some (sid, tid)) [ErrorFrame ''STALE_TURN'' (Detail ''turn_id is not greater than current'') False] c
          else abandon_active sv uuid
                 (OpenTurn sid tid scene_id category_path (dget control (PStr (u ''n_best'')))) c
      | _ \<Rightarrow> fatal_start sv uuid None ''BAD_START'' ''start requires string session_id and int turn_id'' c)"

section \<open>The receive loop\<close>

text \<open>An exception that leaves the loop runs the \<open>finally\<close> block on its way.\<close>

definition ws_text :: "ws_server \<Rightarrow> pystr \<Rightarrow> pystr \<Rightarrow> conn \<Rightarrow> conn" where
  "ws_text sv uuid text c =
     (case sv_loads sv text of
        Inl e \<Rightarrow> if is_value_error e then c else abandon_active sv uuid (EndWith (Raised e)) c
      | Inr (PDict control) \<Rightarrow>
          (let frame_type = dict_get control ''type''
           in if frame_type = PStr (u ''start'') then ws_handle_start sv uuid control c
              else (case frame_type of
                      PList _ \<Rightarrow> abandon_active sv uuid (EndWith (Raised (TypeError ''unhashable type''))) c
                    | PDict _ \<Rightarrow> abandon_active sv uuid (EndWith (Raised (TypeError ''unhashable type''))) c
                    | _ \<Rightarrow> if frame_type = PStr (u ''stop'') \<or> frame_type = PStr (u ''end'') then handle_stop c else c))
      | Inr _ \<Rightarrow> abandon_active sv uuid (EndWith (Raised (OtherError ''AttributeError''))) c)"

definition ws_receive :: "ws_server \<Rightarrow> pystr \<Rightarrow> ws_message \<Rightarrow> conn \<Rightarrow> conn" where
  "ws_receive sv uuid message c =
     (case message of
        Disconnect \<Rightarrow> abandon_active sv uuid (EndWith Disconnected) c
      | Binary data \<Rightarrow> handle_pcm data c
      | Text text \<Rightarrow> ws_text sv uuid text c
      | Neither \<Rightarrow> c)"

definition loop_step :: "ws_server \<Rightarrow> pystr \<Rightarrow> conn \<Rightarrow> conn option" where
  "loop_step sv uuid c =
     (case wc_loop c of
        Receive \<Rightarrow>
          (case wc_inbox c of
             [] \<Rightarrow> None
           | m # rest \<Rightarrow> Some (ws_receive sv uuid m (c\<lparr>wc_inbox := rest\<rparr>)))
      | AwaitPump k \<Rightarrow>
          (case wc_ctx c of
             Some t \<Rightarrow> if pump_done (tc_pump t) then Some (abandon_finalize sv uuid k c) else None
           | None \<Rightarrow> None)
      | AwaitFinalize k \<Rightarrow>
          (case wc_ctx c of
             Some t \<Rightarrow> if finalizer_done (tc_finalize t) then Some (resume_with sv k c) else None
           | None \<Rightarrow> None)
      | Ended _ \<Rightarrow> None)"

section \<open>The transition system\<close>

definition turn_key :: "turn \<Rightarrow> (pystr \<times> int) option" where
  "turn_key t = Some (tc_session t, tc_turn t)"

inductive ws_step :: "ws_server \<Rightarrow> conn \<Rightarrow> conn \<Rightarrow> bool" for sv where
  loop: "loop_step sv uuid c = Some c' \<Longrightarrow> ws_step sv c c'"
| fan: "wc_ctx c = Some t \<Longrightarrow> fan_out t = Some t' \<Longrightarrow> ws_step sv c (c\<lparr>wc_ctx := Some t'\<rparr>)"
| events: "wc_ctx c = Some t \<Longrightarrow> forward_events sv t = Some (t', out) \<Longrightarrow>
    ws_step sv c (ws_send (turn_key t) out (c\<lparr>wc_ctx := Some t'\<rparr>))"
| pump: "wc_ctx c = Some t \<Longrightarrow> pump_vad_asr sv t = Some (t', out) \<Longrightarrow>
    ws_step sv c (ws_send (turn_key t) out (c\<lparr>wc_ctx := Some t'\<rparr>))"
| finalize: "wc_ctx c = Some t \<Longrightarrow> finalize_turn sv uuid (wc_store c) t = Some (t', out, st, obs) \<Longrightarrow>
    ws_step sv c (ws_send (turn_key t) out (c\<lparr>wc_ctx := Some t', wc_store := st, wc_observed := wc_observed c @ obs\<rparr>))"

end
