(* ===== verification/Ws_Protocol.thy ===== *)
theory Ws_Protocol
  imports Ws_Stream
begin

text \<open>
  The protocol of a turn, \<open>docs/ws-protocol.md\<close>, as an automaton over the frames sent, and the
  simulation that every interleaving of the tasks follows it: boundary events, then the partial
  transcripts, one final transcript, and one result or error. Turns do not mix, and the frames
  of a turn never follow those of a later one.
\<close>

section \<open>The protocol\<close>

datatype phase = Listening | Recognizing | Recognized | Closed

fun protocol :: "phase \<Rightarrow> body \<Rightarrow> phase option" where
  "protocol Listening (VadEvent _ _) = Some Listening"
| "protocol Listening (Partial _ _ _) = Some Recognizing"
| "protocol Listening (Final _ _ _) = Some Recognized"
| "protocol Listening (ErrorFrame code _ fatal) =
     (if (code = ''NO_SPEECH'' \<or> code = ''ASR_FAILED'') \<and> \<not> fatal then Some Closed else None)"
| "protocol Recognizing (Partial _ _ _) = Some Recognizing"
| "protocol Recognizing (Final _ _ _) = Some Recognized"
| "protocol Recognizing (ErrorFrame code _ fatal) = (if code = ''ASR_FAILED'' \<and> \<not> fatal then Some Closed else None)"
| "protocol Recognized (Result _) = Some Closed"
| "protocol Recognized (ErrorFrame code _ fatal) =
     (if code \<in> {''NO_SPEECH'', ''UNKNOWN_SCENE'', ''INVALID_REQUEST''} \<and> \<not> fatal then Some Closed else None)"
| "protocol _ _ = None"

fun run_protocol :: "phase \<Rightarrow> body list \<Rightarrow> phase option" where
  "run_protocol p [] = Some p"
| "run_protocol p (b # bs) = Option.bind (protocol p b) (\<lambda>p. run_protocol p bs)"

lemma run_protocol_append:
  "run_protocol p (bs @ cs) = Option.bind (run_protocol p bs) (\<lambda>p. run_protocol p cs)"
  by (induction bs arbitrary: p) (auto split: Option.bind_splits)

text \<open>What the automaton promises the client.\<close>

fun is_final_frame :: "body \<Rightarrow> bool" where
  "is_final_frame (Final _ _ _) = True"
| "is_final_frame _ = False"

fun is_result :: "body \<Rightarrow> bool" where
  "is_result (Result _) = True"
| "is_result _ = False"

fun is_partial :: "body \<Rightarrow> bool" where
  "is_partial (Partial _ _ _) = True"
| "is_partial _ = False"

lemma protocol_Closed [simp]: "protocol Closed b = None"
  by (cases b) auto

lemma run_protocol_Closed: "run_protocol Closed bs = Some p \<Longrightarrow> bs = []"
  by (cases bs) auto

lemma run_protocol_Recognized:
  "run_protocol Recognized bs = Some p \<Longrightarrow> bs = [] \<or> (\<exists>b. bs = [b] \<and> (is_result b \<or> (\<exists>c d. b = ErrorFrame c d False)))"
proof (cases bs)
  case (Cons b rest)
  assume "run_protocol Recognized bs = Some p"
  then show ?thesis using Cons by (cases b) (auto split: if_splits dest: run_protocol_Closed)
qed simp

lemma protocol_shape:
  assumes "run_protocol q bs = Some p" and "q = Listening \<or> q = Recognizing"
  shows "\<exists>before after. bs = before @ after \<and> (\<forall>b \<in> set before. is_partial b \<or> (\<exists>k t. b = VadEvent k t)) \<and>
    (after = [] \<or> (\<exists>c d. after = [ErrorFrame c d False]) \<or>
     (\<exists>f. is_final_frame f \<and> (after = [f] \<or> (\<exists>r. after = [f, r] \<and> (is_result r \<or> (\<exists>c d. r = ErrorFrame c d False))))))"
  using assms
proof (induction bs arbitrary: q)
  case (Cons b bs)
  then obtain q' where q': "protocol q b = Some q'" "run_protocol q' bs = Some p" by (auto split: Option.bind_splits)
  consider (go) "q' = Listening \<or> q' = Recognizing" "is_partial b \<or> (\<exists>k t. b = VadEvent k t)"
    | (final) "q' = Recognized" "is_final_frame b" | (err) "q' = Closed" "\<exists>c d. b = ErrorFrame c d False"
    using q'(1) Cons.prems(2) by (cases b) (auto split: if_splits)
  then show ?case
  proof cases
    case go
    then obtain before after where "bs = before @ after" "\<forall>b \<in> set before. is_partial b \<or> (\<exists>k t. b = VadEvent k t)"
      "after = [] \<or> (\<exists>c d. after = [ErrorFrame c d False]) \<or>
       (\<exists>f. is_final_frame f \<and> (after = [f] \<or> (\<exists>r. after = [f, r] \<and> (is_result r \<or> (\<exists>c d. r = ErrorFrame c d False)))))"
      using Cons.IH [OF q'(2)] by blast
    then show ?thesis using go(2) by (intro exI [of _ "b # before"] exI [of _ after]) simp
  next
    case final
    then show ?thesis using run_protocol_Recognized [of bs p] q'(2)
      by (intro exI [of _ "[]"] exI [of _ "b # bs"]) auto
  next
    case err
    then show ?thesis using run_protocol_Closed [of bs p] q'(2)
      by (intro exI [of _ "[]"] exI [of _ "b # bs"]) auto
  qed
qed simp

section \<open>The simulation\<close>

text \<open>The phase after \<open>n\<close> items of the recogniser.\<close>

definition asr_phase :: "ws_server \<Rightarrow> segment_result \<Rightarrow> nat \<Rightarrow> phase" where
  "asr_phase sv seg n =
     (if n = 0 then Listening
      else if pt_is_final (fst (sv_asr sv (segment_chunks seg)) ! (n - 1)) then Recognized else Recognizing)"

fun follows :: "ws_server \<Rightarrow> turn \<Rightarrow> phase \<Rightarrow> bool" where
  "follows sv t p \<longleftrightarrow>
     (case tc_pump t of
        PAsr seg n final_text \<Rightarrow>
          tc_finalize t = ZWait \<and> n \<le> length (fst (sv_asr sv (segment_chunks seg))) \<and> p = asr_phase sv seg n
      | PDone final_text \<Rightarrow>
          (case tc_finalize t of
             ZWait \<Rightarrow> tc_cancelled t \<or> p = Recognized \<or> p = Listening \<and> final_text = []
           | ZMatch _ \<Rightarrow> p = Recognized
           | _ \<Rightarrow> True)
      | PFailed _ \<Rightarrow> (\<forall>req. tc_finalize t \<noteq> ZMatch req)
      | PCancelled \<Rightarrow> (\<forall>req. tc_finalize t \<noteq> ZMatch req)
      | _ \<Rightarrow> tc_finalize t = ZWait \<and> p = Listening) \<and>
     (case tc_pump t of
        PAwaitEvents _ \<Rightarrow> tc_fan t \<noteq> Running
      | PNew \<Rightarrow> tc_fan t = Unstarted \<and> tc_events t = Unstarted
      | PFirst _ _ \<Rightarrow> True
      | PAwaitFan _ \<Rightarrow> True
      | _ \<Rightarrow> tc_fan t \<noteq> Running \<and> tc_events t \<noteq> Running)"

declare follows.simps [simp del]

lemma follows_TurnContext: "follows sv (TurnContext sid tid s cp n m) Listening"
  by (simp add: follows.simps TurnContext_def)

lemma follows_cong:
  "tc_pump t' = tc_pump t \<Longrightarrow> tc_finalize t' = tc_finalize t \<Longrightarrow> tc_fan t' = tc_fan t \<Longrightarrow> tc_events t' = tc_events t \<Longrightarrow>
     (tc_cancelled t \<longrightarrow> tc_cancelled t') \<Longrightarrow> follows sv t p \<Longrightarrow> follows sv t' p"
  by (auto simp: follows.simps split: pump.splits finalizer.splits)

lemma fan_follows: "fan_out t = Some t' \<Longrightarrow> follows sv t p \<Longrightarrow> follows sv t' p"
  by (auto simp: fan_out_def follows.simps split: list.splits if_splits pump.splits finalizer.splits)

lemma forward_events_frame:
  assumes "forward_events sv t = Some (t', out)"
  shows "tc_events t = Running" "tc_pump t' = tc_pump t" "tc_finalize t' = tc_finalize t" "tc_fan t' = tc_fan t"
    "tc_cancelled t' = tc_cancelled t" "out = [] \<or> \<not> tc_cancelled t \<and> (\<exists>k a. out = [VadEvent k a])"
  using assms by (auto simp: forward_events_def split: if_splits prod.splits list.splits option.splits)

lemma events_running: "follows sv t p \<Longrightarrow> tc_events t = Running \<Longrightarrow> p = Listening"
  by (auto simp: follows.simps split: pump.splits)

lemma events_ended: "follows sv t p \<Longrightarrow> tc_events t = Running \<Longrightarrow> tc_pump t' = tc_pump t \<Longrightarrow>
    tc_finalize t' = tc_finalize t \<Longrightarrow> tc_fan t' = tc_fan t \<Longrightarrow> tc_cancelled t' = tc_cancelled t \<Longrightarrow> follows sv t' p"
  by (auto simp: follows.simps split: pump.splits)

lemma events_follows:
  assumes "forward_events sv t = Some (t', out)" and "follows sv t p"
  shows "\<exists>p'. run_protocol p out = Some p' \<and> follows sv t' p'"
  using forward_events_frame [OF assms(1)] events_ended [OF assms(2)] events_running [OF assms(2)] by auto

lemma first_segment_frame:
  assumes "first_segment sv taken ended t = Some t'"
  shows "tc_finalize t' = tc_finalize t" "tc_fan t' = tc_fan t" "tc_events t' = tc_events t" "tc_cancelled t' = tc_cancelled t"
    "(\<exists>a b. tc_pump t' = PFirst a b) \<or> (\<exists>r. tc_pump t' = PAwaitFan r)"
  using assms by (auto simp: first_segment_def split: if_splits prod.splits list.splits option.splits)

lemma first_segment_follows:
  "first_segment sv taken ended t = Some t' \<Longrightarrow> tc_pump t = PFirst a b \<Longrightarrow> follows sv t p \<Longrightarrow> follows sv t' p"
  using first_segment_frame [of sv taken ended t t'] by (auto simp: follows.simps)

lemma asr_follows:
  assumes "asr_backend (sv_asr sv)" and "tc_pump t = PAsr seg n final_text" and "follows sv t p"
    and "stream_segment_through_asr sv seg n final_text t = (t', out)"
  shows "\<exists>p'. run_protocol p out = Some p' \<and> follows sv t' p'"
proof -
  obtain ps failure where g: "sv_asr sv (segment_chunks seg) = (ps, failure)" by force
  note contract = asr_backend.ends_final [OF assms(1), of "segment_chunks seg", unfolded g fst_conv snd_conv]
    asr_backend.error_not_final [OF assms(1), of "segment_chunks seg", unfolded g fst_conv snd_conv]
  have p: "n \<le> length ps" "p = asr_phase sv seg n" "tc_finalize t = ZWait" "tc_fan t \<noteq> Running" "tc_events t \<noteq> Running"
    using assms(2,3) g by (auto simp: follows.simps)
  have phase: "p = (if n = 0 then Listening else if pt_is_final (ps ! (n - 1)) then Recognized else Recognizing)"
    using p(2) g by (simp add: asr_phase_def)
  show ?thesis
  proof (cases "n < length ps")
    case True
    have "\<not> pt_is_final (ps ! (n - 1))" if "n \<noteq> 0"
    proof (cases failure)
      case None
      have "ps ! (n - 1) \<in> set (butlast ps)"
        using True that by (auto simp: in_set_conv_nth nth_butlast intro!: exI [of _ "n - 1"])
      then show ?thesis using contract(1) None by blast
    next
      case (Some e)
      then show ?thesis using contract(2) [of e] True by simp
    qed
    then show ?thesis
      using assms(4) True p phase g
      by (auto simp: stream_segment_through_asr_def follows.simps asr_phase_def Let_def Suc_le_eq split: if_splits)
  next
    case False
    then have n: "n = length ps" using p(1) by simp
    show ?thesis
    proof (cases failure)
      case None
      then have "ps \<noteq> []" "pt_is_final (last ps)" using contract(1) by auto
      then have "p = Recognized" using phase n by (simp add: last_conv_nth)
      then show ?thesis
        using assms(4) None p n g by (auto simp: stream_segment_through_asr_def follows.simps)
    next
      case (Some e)
      have "\<not> pt_is_final (ps ! (n - 1))" if "n \<noteq> 0" using contract(2) [of e] Some n that by simp
      then show ?thesis
        using assms(4) Some p phase n g by (auto simp: stream_segment_through_asr_def follows.simps split: if_splits)
    qed
  qed
qed

lemma pump_follows:
  assumes "asr_backend (sv_asr sv)" and "pump_vad_asr sv t = Some (t', out)" and "follows sv t p"
  shows "\<exists>p'. run_protocol p out = Some p' \<and> follows sv t' p'"
proof (cases "tc_pump t")
  case (PFirst taken ended)
  then show ?thesis using assms(2,3) first_segment_follows by (auto simp: pump_vad_asr_def)
next
  case (PAsr seg n final_text)
  then show ?thesis using asr_follows [OF assms(1) PAsr assms(3)] assms(2) by (auto simp: pump_vad_asr_def)
next
  case (PAwaitEvents r)
  then show ?thesis using assms(2,3)
    by (auto simp: pump_vad_asr_def follows.simps asr_phase_def split: first_outcome.splits option.splits if_splits)
qed (use assms(2,3) in \<open>auto simp: pump_vad_asr_def follows.simps split: if_splits\<close>)

lemma finalize_follows:
  assumes "finalize_turn sv uuid st t = Some (t', out, st', obs)" and "follows sv t p"
  shows "\<exists>p'. run_protocol p out = Some p' \<and> follows sv t' p'"
proof (cases "tc_finalize t")
  case ZWait
  then show ?thesis using assms
    by (cases "tc_pump t") (auto simp: finalize_turn_def finish_def follows.simps strip_by_def split: if_splits sum.splits)
next
  case (ZMatch req)
  then obtain x where "tc_pump t = PDone x" using assms(2) by (auto simp: follows.simps split: pump.splits)
  then show ?thesis using assms ZMatch
    by (auto simp: finalize_turn_def finish_def follows.simps split: if_splits sum.splits prod.splits)
qed (use assms(1) in \<open>auto simp: finalize_turn_def\<close>)

lemma cancel_pump_follows: "tc_cancelled t \<Longrightarrow> follows sv t p \<Longrightarrow> follows sv (cancel_pump t) p"
  by (auto simp: cancel_pump_def follows.simps split: pump.splits)

lemma cancel_turn_follows: "follows sv t p \<Longrightarrow> follows sv (cancel_turn t) p"
proof -
  let ?t = "t\<lparr>tc_cancelled := True, tc_queue := tc_queue t @ [None]\<rparr>"
  assume "follows sv t p"
  then have "follows sv ?t p" by (rule follows_cong [rotated -1]) simp_all
  then show ?thesis using cancel_pump_follows [of ?t] by (simp add: cancel_turn_def Let_def)
qed

lemma cancel_finalize_follows:
  "cancel_finalize sv uuid st t = (t', st', obs) \<Longrightarrow> tc_cancelled t \<Longrightarrow> follows sv t p \<Longrightarrow> follows sv t' p"
  by (auto simp: cancel_finalize_def finish_def follows.simps cancel_pump_def split: finalizer.splits if_splits pump.splits)

section \<open>Connections\<close>

text \<open>Answers to a rejected \<open>start\<close> belong to no turn.\<close>

fun start_error :: "body \<Rightarrow> bool" where
  "start_error (ErrorFrame code _ _) \<longleftrightarrow> code \<in> {''BAD_START'', ''SESSION_MISMATCH'', ''STALE_TURN''}"
| "start_error _ \<longleftrightarrow> False"

definition turn_frames :: "ws_frame list \<Rightarrow> ws_frame list" where
  "turn_frames fs = filter (\<lambda>f. \<not> start_error (snd f)) fs"

definition frames_of :: "int \<Rightarrow> ws_frame list \<Rightarrow> body list" where
  "frames_of tid fs = map snd (filter (\<lambda>f. map_option snd (fst f) = Some tid) (turn_frames fs))"

definition turn_ids :: "ws_frame list \<Rightarrow> int list" where
  "turn_ids fs = map (snd \<circ> the \<circ> fst) (turn_frames fs)"

lemma turn_frames_append [simp]: "turn_frames (fs @ gs) = turn_frames fs @ turn_frames gs"
  by (simp add: turn_frames_def)

lemma frames_of_append [simp]: "frames_of tid (fs @ gs) = frames_of tid fs @ frames_of tid gs"
  by (simp add: frames_of_def)

lemma turn_ids_append [simp]: "turn_ids (fs @ gs) = turn_ids fs @ turn_ids gs"
  by (simp add: turn_ids_def)

lemma protocol_no_start_error: "protocol p b = Some q \<Longrightarrow> \<not> start_error b"
  by (cases p; cases b) (auto split: if_splits)

lemma run_protocol_no_start_error: "run_protocol p bs = Some q \<Longrightarrow> b \<in> set bs \<Longrightarrow> \<not> start_error b"
  by (induction bs arbitrary: p) (auto split: Option.bind_splits dest: protocol_no_start_error)

lemma turn_frames_sent:
  "(\<And>b. b \<in> set out \<Longrightarrow> \<not> start_error b) \<Longrightarrow> turn_frames (map (Pair k) out) = map (Pair k) out"
  by (simp add: turn_frames_def filter_id_conv)

lemma start_error_frames [simp]:
  "start_error b \<Longrightarrow> turn_frames [(k, b)] = []"
  "start_error b \<Longrightarrow> frames_of tid [(k, b)] = []"
  "start_error b \<Longrightarrow> turn_ids [(k, b)] = []"
  by (simp_all add: frames_of_def turn_frames_def turn_ids_def)

text \<open>No task of the turn is left.\<close>

definition tasks_ended :: "turn \<Rightarrow> bool" where
  "tasks_ended t \<longleftrightarrow> tc_fan t \<noteq> Running \<and> tc_events t \<noteq> Running \<and> pump_done (tc_pump t) \<and> finalizer_done (tc_finalize t)"

definition turn_inv :: "ws_server \<Rightarrow> conn \<Rightarrow> turn \<Rightarrow> bool" where
  "turn_inv sv c t \<longleftrightarrow>
     tc_turn t \<le> wc_current_turn_id c \<and> wc_session_id c = Some (tc_session t) \<and>
     (\<exists>p. run_protocol Listening (frames_of (tc_turn t) (wc_sent c)) = Some p \<and> follows sv t p)"

definition loop_inv :: "loop \<Rightarrow> turn \<Rightarrow> bool" where
  "loop_inv l t \<longleftrightarrow>
     (case l of
        Receive \<Rightarrow> tc_cancelled t \<longrightarrow> pump_done (tc_pump t)
      | AwaitPump _ \<Rightarrow> tc_cancelled t
      | AwaitFinalize _ \<Rightarrow> tc_cancelled t \<and> pump_done (tc_pump t)
      | Ended _ \<Rightarrow> tasks_ended t)"

definition sent_inv :: "conn \<Rightarrow> bool" where
  "sent_inv c \<longleftrightarrow>
     (\<forall>tid. run_protocol Listening (frames_of tid (wc_sent c)) \<noteq> None) \<and> sorted (turn_ids (wc_sent c)) \<and>
     (\<forall>f \<in> set (turn_frames (wc_sent c)). \<exists>t sid tid. wc_ctx c = Some t \<and> f = (Some (sid, tid), snd f) \<and>
        sid = tc_session t \<and> tid \<le> tc_turn t)"

definition resumable :: "conn \<Rightarrow> resume \<Rightarrow> bool" where
  "resumable c k \<longleftrightarrow>
     (case k of
        OpenTurn sid tid _ _ _ \<Rightarrow> wc_current_turn_id c < tid \<and> (wc_session_id c = None \<or> wc_session_id c = Some sid)
      | EndWith _ \<Rightarrow> True)"

definition conn_inv :: "ws_server \<Rightarrow> conn \<Rightarrow> bool" where
  "conn_inv sv c \<longleftrightarrow> sent_inv c \<and> (\<forall>t. wc_ctx c = Some t \<longrightarrow> turn_inv sv c t \<and> loop_inv (wc_loop c) t) \<and>
     (\<forall>k. wc_loop c = AwaitPump k \<or> wc_loop c = AwaitFinalize k \<longrightarrow> resumable c k)"

lemma ws_send_simps [simp]:
  "wc_inbox (ws_send i out c) = wc_inbox c" "wc_loop (ws_send i out c) = wc_loop c"
  "wc_session_id (ws_send i out c) = wc_session_id c" "wc_current_turn_id (ws_send i out c) = wc_current_turn_id c"
  "wc_ctx (ws_send i out c) = wc_ctx c" "wc_sent (ws_send i out c) = wc_sent c @ map (Pair i) out"
  "wc_store (ws_send i out c) = wc_store c" "wc_observed (ws_send i out c) = wc_observed c"
  by (simp_all add: ws_send_def)

lemma conn_inv_init: "conn_inv sv (recognize_stream sv header query inbox st)"
  by (simp add: conn_inv_def sent_inv_def recognize_stream_def frames_of_def turn_frames_def turn_ids_def)

text \<open>A step of one of the turn's tasks.\<close>

lemma task_step_inv:
  assumes "conn_inv sv c" and "wc_ctx c = Some t" and "tc_turn t' = tc_turn t" and "tc_session t' = tc_session t"
    and "\<And>p. follows sv t p \<Longrightarrow> \<exists>p'. run_protocol p out = Some p' \<and> follows sv t' p'"
    and "loop_inv (wc_loop c) t \<Longrightarrow> loop_inv (wc_loop c) t'"
    and c': "wc_ctx c' = Some t'" "wc_sent c' = wc_sent c @ map (Pair (turn_key t)) out" "wc_loop c' = wc_loop c"
      "wc_session_id c' = wc_session_id c" "wc_current_turn_id c' = wc_current_turn_id c"
  shows "conn_inv sv c'"
proof -
  have inv: "turn_inv sv c t" "sent_inv c" using assms(1,2) by (auto simp: conn_inv_def)
  then obtain p p' where p: "run_protocol Listening (frames_of (tc_turn t) (wc_sent c)) = Some p"
    "run_protocol p out = Some p'" "follows sv t' p'"
    using assms(5) unfolding turn_inv_def by blast
  have out: "turn_frames (map (Pair (turn_key t)) out) = map (Pair (turn_key t)) out"
    using run_protocol_no_start_error [OF p(2)] by (rule turn_frames_sent)
  have mine: "frames_of tid (map (Pair (turn_key t)) out) = (if tid = tc_turn t then out else [])" for tid
    unfolding frames_of_def out by (induction out) (auto simp: turn_key_def)
  have "turn_ids (map (Pair (turn_key t)) out) = map (\<lambda>_. tc_turn t) out"
    unfolding turn_ids_def out by (simp add: turn_key_def)
  moreover have "i \<le> tc_turn t" if "i \<in> set (turn_ids (wc_sent c))" for i
    using that inv(2) assms(2) by (fastforce simp: sent_inv_def turn_ids_def)
  ultimately have "sorted (turn_ids (wc_sent c'))"
    using inv(2) by (auto simp: c' sent_inv_def sorted_append map_replicate_const)
  moreover have "run_protocol Listening (frames_of tid (wc_sent c')) \<noteq> None" for tid
    using inv(2) p by (auto simp: c' mine run_protocol_append sent_inv_def)
  moreover have "run_protocol Listening (frames_of (tc_turn t) (wc_sent c')) = Some p'"
    using p by (simp add: c' mine run_protocol_append)
  ultimately show ?thesis
    using assms(1-4,6) p(3) inv out
    by (auto simp: conn_inv_def turn_inv_def sent_inv_def resumable_def c' turn_key_def split: resume.splits)
qed

lemma follows_ended: "follows sv t p \<Longrightarrow> pump_done (tc_pump t) \<Longrightarrow> tc_fan t \<noteq> Running \<and> tc_events t \<noteq> Running"
  by (auto simp: follows.simps split: pump.splits)

lemma turn_inv_ended: "turn_inv sv c t \<Longrightarrow> pump_done (tc_pump t) \<Longrightarrow> finalizer_done (tc_finalize t) \<Longrightarrow> tasks_ended t"
  by (auto simp: turn_inv_def tasks_ended_def dest: follows_ended)

text \<open>A new turn has sent nothing yet.\<close>

lemma new_turn_silent:
  assumes "sent_inv c" and "\<And>t. wc_ctx c = Some t \<Longrightarrow> tc_turn t < tid"
  shows "frames_of tid (wc_sent c) = []"
proof -
  have "map_option snd (fst f) \<noteq> Some tid" if f: "f \<in> set (turn_frames (wc_sent c))" for f
  proof -
    obtain t sid i where "wc_ctx c = Some t" "fst f = Some (sid, i)" "i \<le> tc_turn t"
      using assms(1) f unfolding sent_inv_def by (metis fst_conv)
    then show ?thesis using assms(2) by fastforce
  qed
  then show ?thesis by (simp add: frames_of_def filter_empty_conv)
qed

lemma resume_with_inv:
  assumes "sent_inv c" and "\<And>t. wc_ctx c = Some t \<Longrightarrow> turn_inv sv c t \<and> tasks_ended t" and "resumable c k"
  shows "conn_inv sv (resume_with sv k c)"
proof (cases k)
  case (EndWith e)
  then show ?thesis using assms by (auto simp: conn_inv_def resume_with_def turn_inv_def sent_inv_def loop_inv_def)
next
  case (OpenTurn sid tid s cp n)
  then have new: "wc_current_turn_id c < tid" "wc_session_id c = None \<or> wc_session_id c = Some sid"
    using assms(3) by (auto simp: resumable_def)
  have old: "tc_turn t < tid \<and> tc_session t = sid" if "wc_ctx c = Some t" for t
    using assms(2) [OF that] new by (auto simp: turn_inv_def)
  have silent: "frames_of tid (wc_sent c) = []" using new_turn_silent [OF assms(1)] old by blast
  show ?thesis
    using assms(1,2) OpenTurn new old silent
    by (fastforce simp: conn_inv_def resume_with_def turn_inv_def sent_inv_def loop_inv_def TurnContext_def Let_def
        follows_TurnContext [unfolded TurnContext_def] split: sum.splits)
qed

lemma abandon_finalize_inv:
  assumes "sent_inv c" and "\<And>t. wc_ctx c = Some t \<Longrightarrow> turn_inv sv c t \<and> tc_cancelled t \<and> pump_done (tc_pump t)"
    and "resumable c k"
  shows "conn_inv sv (abandon_finalize sv uuid k c)"
proof (cases "\<exists>t. wc_ctx c = Some t \<and> \<not> finalizer_done (tc_finalize t)")
  case False
  then have "abandon_finalize sv uuid k c = resume_with sv k c"
    by (auto simp: abandon_finalize_def split: option.splits)
  moreover have "turn_inv sv c t \<and> tasks_ended t" if "wc_ctx c = Some t" for t
    using assms(2) [OF that] False that by (auto intro: turn_inv_ended)
  ultimately show ?thesis using resume_with_inv [OF assms(1) _ assms(3)] by simp
next
  case True
  then obtain t where t: "wc_ctx c = Some t" "\<not> finalizer_done (tc_finalize t)" by blast
  obtain t' st obs where z: "cancel_finalize sv uuid (wc_store c) t = (t', st, obs)" by (metis prod_cases3)
  note inv = assms(2) [OF t(1)]
  have "tc_turn t' = tc_turn t" "tc_session t' = tc_session t" "tc_cancelled t'" "pump_done (tc_pump t')"
    using z inv by (auto simp: cancel_finalize_def finish_def split: finalizer.splits)
  then show ?thesis
    using t z inv assms(1,3) cancel_finalize_follows [OF z]
    by (auto simp: abandon_finalize_def conn_inv_def turn_inv_def sent_inv_def loop_inv_def resumable_def split: resume.splits)
qed

lemma cancel_turn_frame:
  "tc_turn (cancel_turn t) = tc_turn t" "tc_session (cancel_turn t) = tc_session t" "tc_cancelled (cancel_turn t)"
  "pump_done (tc_pump t) \<Longrightarrow> tc_pump (cancel_turn t) = tc_pump t"
  by (auto simp: cancel_turn_def cancel_pump_def Let_def split: pump.splits)

lemma turn_inv_cancel_turn: "turn_inv sv c t \<Longrightarrow> turn_inv sv (c\<lparr>wc_ctx := x, wc_loop := l\<rparr>) (cancel_turn t)"
  by (auto simp: turn_inv_def cancel_turn_frame intro: cancel_turn_follows)

lemma sent_inv_ctx:
  "sent_inv c \<Longrightarrow> wc_ctx c = Some t \<Longrightarrow> tc_turn t' = tc_turn t \<Longrightarrow> tc_session t' = tc_session t \<Longrightarrow>
     wc_ctx c' = Some t' \<Longrightarrow> wc_sent c' = wc_sent c \<Longrightarrow> sent_inv c'"
  by (auto simp: sent_inv_def)

lemma abandon_active_inv:
  assumes "sent_inv c" and "\<And>t. wc_ctx c = Some t \<Longrightarrow> turn_inv sv c t \<and> loop_inv Receive t" and "resumable c k"
  shows "conn_inv sv (abandon_active sv uuid k c)"
proof (cases "wc_ctx c")
  case None
  then show ?thesis using resume_with_inv [OF assms(1) _ assms(3), of sv] by (simp add: abandon_active_def)
next
  case (Some t)
  note inv = assms(2) [OF Some]
  show ?thesis
  proof (cases "tc_cancelled t \<or> \<not> pump_done (tc_pump t)")
    case False
    let ?c = "c\<lparr>wc_ctx := Some (cancel_turn t)\<rparr>"
    have "conn_inv sv (abandon_finalize sv uuid k ?c)"
    proof (rule abandon_finalize_inv)
      show "sent_inv ?c" by (rule sent_inv_ctx [OF assms(1) Some]) (simp_all add: cancel_turn_frame)
      fix t'
      assume "wc_ctx ?c = Some t'"
      then have "t' = cancel_turn t" by simp
      then show "turn_inv sv ?c t' \<and> tc_cancelled t' \<and> pump_done (tc_pump t')"
        using turn_inv_cancel_turn [of sv c t "wc_loop c" "Some (cancel_turn t)"] inv False by (simp add: cancel_turn_frame)
    next
      show "resumable ?c k" using assms(3) by (simp add: resumable_def split: resume.splits)
    qed
    then show ?thesis using Some False by (simp add: abandon_active_def)
  next
    case True
    then show ?thesis
    proof (cases "tc_cancelled t")
      case True
      then show ?thesis
        using Some inv abandon_finalize_inv [OF assms(1) _ assms(3), of sv uuid] by (simp add: abandon_active_def loop_inv_def)
    next
      case no: False
      let ?c = "c\<lparr>wc_ctx := Some (cancel_turn t), wc_loop := AwaitPump k\<rparr>"
      have "sent_inv ?c" by (rule sent_inv_ctx [OF assms(1) Some]) (simp_all add: cancel_turn_frame)
      then have "conn_inv sv ?c"
        using inv turn_inv_cancel_turn assms(3)
        by (auto simp: conn_inv_def loop_inv_def cancel_turn_frame resumable_def split: resume.splits)
      then show ?thesis using Some no True by (simp add: abandon_active_def)
    qed
  qed
qed

text \<open>The handlers of the receive loop.\<close>

lemma conn_inv_abandon:
  assumes "conn_inv sv c" and "wc_loop c = Receive" and "resumable c k"
  shows "conn_inv sv (abandon_active sv uuid k c)"
  using assms by (intro abandon_active_inv) (auto simp: conn_inv_def)

lemma conn_inv_start_error: "conn_inv sv c \<Longrightarrow> start_error b \<Longrightarrow> conn_inv sv (ws_send k [b] c)"
  by (auto simp: conn_inv_def sent_inv_def turn_inv_def resumable_def split: resume.splits)

lemma handle_pcm_inv:
  assumes "conn_inv sv c" shows "conn_inv sv (handle_pcm data c)"
proof (cases "\<exists>t. wc_ctx c = Some t \<and> \<not> tc_cancelled t")
  case False
  then show ?thesis using assms by (auto simp: handle_pcm_def split: option.splits)
next
  case True
  then obtain t where t: "wc_ctx c = Some t" "\<not> tc_cancelled t" by blast
  obtain t' where t': "handle_pcm data c = c\<lparr>wc_ctx := Some t'\<rparr>" "tc_turn t' = tc_turn t" "tc_session t' = tc_session t"
    "tc_pump t' = tc_pump t" "tc_finalize t' = tc_finalize t" "tc_fan t' = tc_fan t" "tc_events t' = tc_events t"
    "tc_cancelled t' = tc_cancelled t"
    using t by (auto simp: handle_pcm_def Let_def)
  show ?thesis unfolding t'(1)
    by (rule task_step_inv [OF assms t(1), where out = "[]"])
      (auto simp: t' loop_inv_def tasks_ended_def intro: follows_cong split: loop.splits)
qed

lemma handle_stop_inv:
  assumes "conn_inv sv c" shows "conn_inv sv (handle_stop c)"
proof (cases "\<exists>t. wc_ctx c = Some t \<and> \<not> tc_cancelled t")
  case False
  then show ?thesis using assms by (auto simp: handle_stop_def split: option.splits)
next
  case True
  then obtain t where t: "wc_ctx c = Some t" "\<not> tc_cancelled t" by blast
  have stop: "handle_stop c = c\<lparr>wc_ctx := Some (t\<lparr>tc_queue := tc_queue t @ [None]\<rparr>)\<rparr>" using t by (simp add: handle_stop_def)
  show ?thesis unfolding stop
    by (rule task_step_inv [OF assms t(1), where out = "[]"])
      (auto simp: loop_inv_def tasks_ended_def intro: follows_cong split: loop.splits)
qed

lemma handle_start_inv:
  assumes "conn_inv sv c" and "wc_loop c = Receive"
  shows "conn_inv sv (ws_handle_start sv uuid control c)"
proof -
  have fatal: "conn_inv sv (fatal_start sv uuid i code m c)" if "code = ''BAD_START'' \<or> code = ''SESSION_MISMATCH''" for i code m
    unfolding fatal_start_def using assms that
    by (intro conn_inv_abandon conn_inv_start_error) (auto simp: resumable_def)
  show ?thesis
    unfolding ws_handle_start_def Let_def
    using assms fatal
    by (auto simp: resumable_def intro!: conn_inv_start_error conn_inv_abandon split: option.splits)
qed

lemma ws_receive_inv:
  assumes "conn_inv sv c" and "wc_loop c = Receive"
  shows "conn_inv sv (ws_receive sv uuid m c)"
proof -
  have quit: "conn_inv sv (abandon_active sv uuid (EndWith e) c)" for e
    using assms by (intro conn_inv_abandon) (simp_all add: resumable_def)
  have "conn_inv sv (ws_text sv uuid x c)" for x
    unfolding ws_text_def Let_def
    using assms quit handle_start_inv [OF assms] handle_stop_inv [OF assms(1)]
    by (auto split: sum.splits pyval.splits)
  then show ?thesis
    using assms(1) quit handle_pcm_inv [OF assms(1)] by (auto simp: ws_receive_def split: ws_message.splits)
qed

lemma loop_step_inv:
  assumes "conn_inv sv c" and "loop_step sv uuid c = Some c'"
  shows "conn_inv sv c'"
proof (cases "wc_loop c")
  case Receive
  then obtain m rest where m: "wc_inbox c = m # rest" "c' = ws_receive sv uuid m (c\<lparr>wc_inbox := rest\<rparr>)"
    using assms(2) by (auto simp: loop_step_def split: list.splits)
  have "conn_inv sv (c\<lparr>wc_inbox := rest\<rparr>)"
    using assms(1) Receive by (auto simp: conn_inv_def sent_inv_def turn_inv_def)
  then show ?thesis using m(2) Receive by (simp add: ws_receive_inv)
next
  case (AwaitPump k)
  then obtain t where t: "wc_ctx c = Some t" "pump_done (tc_pump t)" "c' = abandon_finalize sv uuid k c"
    using assms(2) by (auto simp: loop_step_def split: option.splits if_splits)
  have "sent_inv c" "turn_inv sv c t" "tc_cancelled t" "resumable c k"
    using assms(1) AwaitPump t(1) by (auto simp: conn_inv_def loop_inv_def)
  then show ?thesis unfolding t(3) using t(1,2) by (intro abandon_finalize_inv) auto
next
  case (AwaitFinalize k)
  then obtain t where t: "wc_ctx c = Some t" "finalizer_done (tc_finalize t)" "c' = resume_with sv k c"
    using assms(2) by (auto simp: loop_step_def split: option.splits if_splits)
  have "sent_inv c" "turn_inv sv c t" "pump_done (tc_pump t)" "resumable c k"
    using assms(1) AwaitFinalize t(1) by (auto simp: conn_inv_def loop_inv_def)
  then show ?thesis unfolding t(3) using t(1,2) by (intro resume_with_inv) (auto intro: turn_inv_ended)
qed (use assms(2) in \<open>simp add: loop_step_def\<close>)

text \<open>Only the loop changes which turn a task belongs to, and a task that has ended stays so.\<close>

lemma fan_frame:
  assumes "fan_out t = Some t'"
  shows "tc_fan t = Running" "tc_turn t' = tc_turn t" "tc_session t' = tc_session t" "tc_pump t' = tc_pump t"
    "tc_cancelled t' = tc_cancelled t" "tc_finalize t' = tc_finalize t" "tc_events t' = tc_events t"
  using assms by (auto simp: fan_out_def split: if_splits list.splits)

lemma forward_events_key:
  "forward_events sv t = Some (t', out) \<Longrightarrow> tc_turn t' = tc_turn t \<and> tc_session t' = tc_session t"
  by (auto simp: forward_events_def split: if_splits prod.splits list.splits option.splits)

lemma pump_frame:
  assumes "pump_vad_asr sv t = Some (t', out)"
  shows "\<not> pump_done (tc_pump t)" "tc_turn t' = tc_turn t" "tc_session t' = tc_session t" "tc_finalize t' = tc_finalize t"
    "tc_cancelled t' \<longrightarrow> tc_cancelled t \<or> pump_done (tc_pump t')" "tc_cancelled t \<longrightarrow> tc_cancelled t'"
  using assms
  by (auto simp: pump_vad_asr_def first_segment_def stream_segment_through_asr_def Let_def
      split: pump.splits if_splits prod.splits list.splits option.splits first_outcome.splits)

lemma finalize_frame:
  assumes "finalize_turn sv uuid st t = Some (t', out, st', obs)"
  shows "\<not> finalizer_done (tc_finalize t)" "tc_turn t' = tc_turn t" "tc_session t' = tc_session t"
    "tc_pump t' = tc_pump t" "tc_cancelled t' = tc_cancelled t" "tc_fan t' = tc_fan t" "tc_events t' = tc_events t"
  using assms
  by (auto simp: finalize_turn_def finish_def split: finalizer.splits pump.splits if_splits prod.splits sum.splits)

lemma ws_step_inv:
  assumes "asr_backend (sv_asr sv)" and "ws_step sv c c'" and "conn_inv sv c"
  shows "conn_inv sv c'"
  using assms(2)
proof cases
  case (loop uuid)
  then show ?thesis using loop_step_inv [OF assms(3)] by blast
next
  case (fan t t')
  show ?thesis
    by (rule task_step_inv [OF assms(3) fan(2), where out = "[]" and t' = t'])
      (use fan fan_frame [OF fan(3)] fan_follows [OF fan(3)] in \<open>auto simp: loop_inv_def tasks_ended_def split: loop.splits\<close>)
next
  case (events t t' out)
  show ?thesis
    by (rule task_step_inv [OF assms(3) events(2), where out = out and t' = t'])
      (use events forward_events_frame [OF events(3)] forward_events_key [OF events(3)] events_follows [OF events(3)]
        in \<open>auto simp: loop_inv_def tasks_ended_def split: loop.splits\<close>)
next
  case (pump t t' out)
  show ?thesis
    by (rule task_step_inv [OF assms(3) pump(2), where out = out and t' = t'])
      (use pump pump_frame [OF pump(3)] pump_follows [OF assms(1) pump(3)]
        in \<open>auto simp: loop_inv_def tasks_ended_def split: loop.splits\<close>)
next
  case (finalize t uuid t' out st obs)
  show ?thesis
    by (rule task_step_inv [OF assms(3) finalize(2), where out = out and t' = t'])
      (use finalize finalize_frame [OF finalize(3)] finalize_follows [OF finalize(3)]
        in \<open>auto simp: loop_inv_def tasks_ended_def split: loop.splits\<close>)
qed

abbreviation ws_run :: "ws_server \<Rightarrow> conn \<Rightarrow> conn \<Rightarrow> bool" where
  "ws_run sv \<equiv> (ws_step sv)\<^sup>*\<^sup>*"

lemma ws_run_inv: "ws_run sv c c' \<Longrightarrow> asr_backend (sv_asr sv) \<Longrightarrow> conn_inv sv c \<Longrightarrow> conn_inv sv c'"
  by (induction rule: rtranclp_induct) (auto intro: ws_step_inv)

text \<open>One schedule among many: the first of the loop and the tasks that can run.\<close>

definition ws_next :: "ws_server \<Rightarrow> pystr \<Rightarrow> conn \<Rightarrow> conn option" where
  "ws_next sv uuid c =
     (case loop_step sv uuid c of
        Some c' \<Rightarrow> Some c'
      | None \<Rightarrow>
          (case wc_ctx c of
             None \<Rightarrow> None
           | Some t \<Rightarrow>
               (case fan_out t of
                  Some t' \<Rightarrow> Some (c\<lparr>wc_ctx := Some t'\<rparr>)
                | None \<Rightarrow>
                    (case forward_events sv t of
                       Some (t', out) \<Rightarrow> Some (ws_send (turn_key t) out (c\<lparr>wc_ctx := Some t'\<rparr>))
                     | None \<Rightarrow>
                         (case pump_vad_asr sv t of
                            Some (t', out) \<Rightarrow> Some (ws_send (turn_key t) out (c\<lparr>wc_ctx := Some t'\<rparr>))
                          | None \<Rightarrow>
                              (case finalize_turn sv uuid (wc_store c) t of
                                 Some (t', out, st, obs) \<Rightarrow>
                                   Some (ws_send (turn_key t) out
                                     (c\<lparr>wc_ctx := Some t', wc_store := st, wc_observed := wc_observed c @ obs\<rparr>))
                               | None \<Rightarrow> None))))))"

fun ws_exec :: "ws_server \<Rightarrow> pystr \<Rightarrow> nat \<Rightarrow> conn \<Rightarrow> conn" where
  "ws_exec sv uuid 0 c = c"
| "ws_exec sv uuid (Suc n) c = (case ws_next sv uuid c of None \<Rightarrow> c | Some c' \<Rightarrow> ws_exec sv uuid n c')"

lemma ws_exec_numeral [simp]:
  "ws_exec sv uuid (numeral k) c = (case ws_next sv uuid c of None \<Rightarrow> c | Some c' \<Rightarrow> ws_exec sv uuid (pred_numeral k) c')"
  by (simp add: numeral_eq_Suc)

lemma ws_next_step: "ws_next sv uuid c = Some c' \<Longrightarrow> ws_step sv c c'"
  by (auto simp: ws_next_def intro: ws_step.intros split: option.splits prod.splits)

lemma ws_exec_run: "ws_run sv c (ws_exec sv uuid n c)"
  by (induction n arbitrary: c) (auto split: option.splits dest!: ws_next_step intro: converse_rtranclp_into_rtranclp)

text \<open>A service for the examples: the bank scenes, the pass-through detector and a scripted recogniser.\<close>

definition demo_start :: "int \<Rightarrow> pyval" where
  "demo_start tid = PDict [(PStr (u ''type''), PStr (u ''start'')), (PStr (u ''session_id''), PStr (u ''call'')),
     (PStr (u ''turn_id''), PInt tid), (PStr (u ''scene_id''), PStr (u ''bank''))]"

definition demo_sv :: ws_server where
  "demo_sv = \<lparr>sv_env = [], sv_orc = bank_orc, sv_asr = stub_asr_stream (Some (u ''card'')),
     sv_events = mock_events_upto, sv_segments = mock_segments_upto, sv_frames = 9,
     sv_loads = (\<lambda>s. case s of [n] \<Rightarrow> Inr (demo_start (int n)) | _ \<Rightarrow> Inr (PDict [(PStr (u ''type''), PStr (u ''stop''))])),
     sv_str = (\<lambda>_. [])\<rparr>"

definition demo_key :: "pystr option" where
  "demo_key = Some (u ''dev-insecure-change-me'')"

definition demo_turn :: "ws_message list" where
  "demo_turn = [Text [1], Binary [0, 0], Text []]"

lemmas ws_defs = ws_next_def loop_step_def ws_receive_def ws_text_def ws_handle_start_def handle_pcm_def handle_stop_def
  abandon_active_def abandon_finalize_def resume_with_def dict_get_def TurnContext_def ws_send_def turn_key_def
  fan_out_def forward_events_def pump_vad_asr_def first_segment_def segment_chunks_def stream_segment_through_asr_def
  finalize_turn_def finish_def turn_request_def cancel_turn_def cancel_pump_def cancel_finalize_def fatal_start_def

lemmas demo_defs = demo_sv_def demo_start_def demo_key_def demo_turn_def recognize_stream_def check_ws_api_key_def env_get_def
  get_max_audio_bytes_def DEFAULT_MAX_AUDIO_BYTES_def mock_events_upto_def mock_segments_upto_def mock_stream_events_def
  mock_stream_segments_def mock_duration_def SegmentResult_def stub_asr_stream_def stub_text_def yield_def

lemma demo_run:
  "map snd (wc_sent (ws_exec demo_sv (u ''s'') 18 (recognize_stream demo_sv demo_key None demo_turn []))) =
     [VadEvent SpeechStart 0, VadEvent SpeechEnd 0, Partial (u ''card'') 0 0, Final (u ''card'') 0 0]"
  by (simp add: ws_defs demo_defs)

section \<open>Replacing a turn\<close>

lemma abandon_finalize_replaces:
  assumes "turn_inv sv c t" and "pump_done (tc_pump t)" and "wc_ctx c = Some t"
    and "wc_ctx (abandon_finalize sv uuid k c) = Some t'" and "tc_turn t' \<noteq> tc_turn t"
  shows "tasks_ended t"
proof (cases "finalizer_done (tc_finalize t)")
  case False
  obtain t'' st obs where z: "cancel_finalize sv uuid (wc_store c) t = (t'', st, obs)" by (metis prod_cases3)
  then have "tc_turn t'' = tc_turn t" using assms(2) by (auto simp: cancel_finalize_def finish_def split: finalizer.splits)
  then show ?thesis using assms(3-5) False z by (simp add: abandon_finalize_def)
qed (use assms(1,2) turn_inv_ended in blast)

lemma abandon_active_replaces:
  assumes "turn_inv sv c t" and "loop_inv Receive t" and "wc_ctx c = Some t"
    and "wc_ctx (abandon_active sv uuid k c) = Some t'" and "tc_turn t' \<noteq> tc_turn t"
  shows "tasks_ended t"
proof -
  consider (gone) "tc_cancelled t" | (idle) "\<not> tc_cancelled t" "pump_done (tc_pump t)" | (busy) "\<not> tc_cancelled t" "\<not> pump_done (tc_pump t)"
    by blast
  then show ?thesis
  proof cases
    case gone
    then show ?thesis
      using assms abandon_finalize_replaces [OF assms(1) _ assms(3)] by (simp add: abandon_active_def loop_inv_def)
  next
    case idle
    let ?c = "c\<lparr>wc_ctx := Some (cancel_turn t)\<rparr>"
    have "turn_inv sv ?c (cancel_turn t)" using turn_inv_cancel_turn [OF assms(1), of "wc_loop c" "Some (cancel_turn t)"] by simp
    moreover have "wc_ctx (abandon_finalize sv uuid k ?c) = Some t'" using assms(3,4) idle by (simp add: abandon_active_def)
    ultimately have "tasks_ended (cancel_turn t)"
      using abandon_finalize_replaces [of sv ?c "cancel_turn t" uuid k t'] assms(5) idle by (simp add: cancel_turn_frame)
    then show ?thesis using idle by (simp add: tasks_ended_def cancel_turn_def)
  next
    case busy
    then show ?thesis using assms(3-5) by (simp add: abandon_active_def) (metis cancel_turn_frame(1))
  qed
qed

lemma ws_receive_replaces:
  assumes "conn_inv sv c" and "wc_loop c = Receive" and "wc_ctx c = Some t"
    and "wc_ctx (ws_receive sv uuid m c) = Some t'" and "tc_turn t' \<noteq> tc_turn t"
  shows "tasks_ended t"
proof -
  have t: "turn_inv sv c t" "loop_inv Receive t" using assms(1-3) by (auto simp: conn_inv_def)
  have quit: "tasks_ended t" if "wc_ctx (abandon_active sv uuid k c) = Some t'" for k
    using abandon_active_replaces [OF t assms(3) that assms(5)] .
  have fatal: "tasks_ended t" if "wc_ctx (fatal_start sv uuid i code m c) = Some t'"
    and "code = ''BAD_START'' \<or> code = ''SESSION_MISMATCH''" for i code m
  proof -
    let ?c = "ws_send i [ErrorFrame code (Detail m) True] c"
    have "conn_inv sv ?c" using assms(1) that(2) by (auto intro!: conn_inv_start_error)
    then have "turn_inv sv ?c t" using assms(3) by (simp add: conn_inv_def)
    then show ?thesis using abandon_active_replaces [of sv ?c t] t(2) assms(3,5) that(1) by (simp add: fatal_start_def)
  qed
  have pcm: "wc_ctx (handle_pcm data c) \<noteq> Some t'" for data
    using assms(3,5) by (auto simp: handle_pcm_def Let_def)
  have stop: "wc_ctx (handle_stop c) \<noteq> Some t'" using assms(3,5) by (auto simp: handle_stop_def)
  have same: "wc_ctx c \<noteq> Some t'" using assms(3,5) by auto
  have "tasks_ended t" if "wc_ctx (ws_handle_start sv uuid control c) = Some t'" for control
    using that quit fatal same unfolding ws_handle_start_def Let_def
    by (fastforce split: option.splits if_splits)
  then have "tasks_ended t" if "wc_ctx (ws_text sv uuid x c) = Some t'" for x
    using that quit stop same unfolding ws_text_def Let_def
    by (fastforce split: sum.splits pyval.splits if_splits)
  then show ?thesis
    using assms(4) quit pcm same by (auto simp: ws_receive_def split: ws_message.splits)
qed

lemma ws_step_replaces:
  assumes "conn_inv sv c" and "ws_step sv c c'" and "wc_ctx c = Some t" and "wc_ctx c' = Some t'" and "tc_turn t' \<noteq> tc_turn t"
  shows "tasks_ended t"
  using assms(2)
proof cases
  case (loop uuid)
  show ?thesis
  proof (cases "wc_loop c")
    case Receive
    then obtain m rest where m: "wc_inbox c = m # rest" "c' = ws_receive sv uuid m (c\<lparr>wc_inbox := rest\<rparr>)"
      using loop by (auto simp: loop_step_def split: list.splits)
    moreover have "conn_inv sv (c\<lparr>wc_inbox := rest\<rparr>)"
      using assms(1) Receive by (auto simp: conn_inv_def sent_inv_def turn_inv_def)
    ultimately show ?thesis
      using ws_receive_replaces [of sv "c\<lparr>wc_inbox := rest\<rparr>" t uuid m t'] Receive assms(3-5) by simp
  next
    case (AwaitPump k)
    then have "turn_inv sv c t" "pump_done (tc_pump t)" "c' = abandon_finalize sv uuid k c"
      using loop assms(1,3) by (auto simp: loop_step_def conn_inv_def split: if_splits)
    then show ?thesis using abandon_finalize_replaces [OF _ _ assms(3)] assms(4,5) by blast
  next
    case (AwaitFinalize k)
    then have "turn_inv sv c t" "pump_done (tc_pump t)" "finalizer_done (tc_finalize t)"
      using loop assms(1,3) by (auto simp: loop_step_def conn_inv_def loop_inv_def split: if_splits)
    then show ?thesis by (rule turn_inv_ended)
  qed (use loop in \<open>simp add: loop_step_def\<close>)
qed (use assms(3-5) fan_frame(2) forward_events_key pump_frame(2) finalize_frame(2) in \<open>fastforce+\<close>)

section \<open>Properties\<close>

text \<open>
  C11. The turn protocol is kept under every interleaving: whatever the client sends and however the
  tasks are scheduled, the frames of each turn are a run of the protocol automaton: boundary events,
  then partial transcripts, then at most one final transcript, and at most one result or
  error, which is the last frame of the turn.
\<close>

theorem ws_turn_protocol:
  assumes "asr_backend (sv_asr sv)" and "ws_run sv (recognize_stream sv header query inbox st) c"
  shows "(\<exists>p. run_protocol Listening (frames_of tid (wc_sent c)) = Some p) \<and>
    (\<exists>before after. frames_of tid (wc_sent c) = before @ after \<and>
       (\<forall>b \<in> set before. is_partial b \<or> (\<exists>k t. b = VadEvent k t)) \<and>
       (after = [] \<or> (\<exists>code d. after = [ErrorFrame code d False]) \<or>
        (\<exists>f. is_final_frame f \<and>
           (after = [f] \<or> (\<exists>r. after = [f, r] \<and> (is_result r \<or> (\<exists>code d. r = ErrorFrame code d False)))))))"
proof -
  have "conn_inv sv c" using assms(2,1) conn_inv_init by (rule ws_run_inv)
  then obtain p where p: "run_protocol Listening (frames_of tid (wc_sent c)) = Some p"
    unfolding conn_inv_def sent_inv_def by blast
  moreover note protocol_shape [OF p]
  ultimately show ?thesis by blast
qed

lemma demo_asr: "asr_backend (sv_asr demo_sv)"
  using stub_asr.asr_backend_axioms by (simp add: demo_sv_def)

theorem ws_turn_protocol_witness:
  "\<exists>c. ws_run demo_sv (recognize_stream demo_sv demo_key None demo_turn []) c \<and>
     map snd (wc_sent c) =
       [VadEvent SpeechStart 0, VadEvent SpeechEnd 0, Partial (u ''card'') 0 0, Final (u ''card'') 0 0] \<and>
     (\<exists>p. run_protocol Listening (frames_of 1 (wc_sent c)) = Some p)"
  by (intro exI [of _ "ws_exec demo_sv (u ''s'') 18 (recognize_stream demo_sv demo_key None demo_turn [])"] conjI
      ws_exec_run demo_run ws_turn_protocol [OF demo_asr ws_exec_run, THEN conjunct1])

text \<open>
  C21. Turns do not mix: every frame of a turn carries the session of the connection and a turn that
  was opened on it, and the turn numbers of the frames never decrease, so after the first frame
  of a turn nothing of an earlier turn is sent any more.
\<close>

theorem ws_turns_in_order:
  assumes "asr_backend (sv_asr sv)" and "ws_run sv (recognize_stream sv header query inbox st) c"
  shows "sorted (turn_ids (wc_sent c)) \<and>
    (\<forall>f \<in> set (turn_frames (wc_sent c)). \<exists>sid tid. fst f = Some (sid, tid) \<and> wc_session_id c = Some sid \<and>
       tid \<le> wc_current_turn_id c)"
proof -
  have inv: "conn_inv sv c" using assms(2,1) conn_inv_init by (rule ws_run_inv)
  have "\<exists>sid tid. fst f = Some (sid, tid) \<and> wc_session_id c = Some sid \<and> tid \<le> wc_current_turn_id c"
    if f: "f \<in> set (turn_frames (wc_sent c))" for f
  proof -
    obtain t sid tid where t: "wc_ctx c = Some t" "fst f = Some (sid, tid)" "sid = tc_session t" "tid \<le> tc_turn t"
      using inv f unfolding conn_inv_def sent_inv_def by (metis fst_conv)
    moreover have "turn_inv sv c t" using inv t(1) by (simp add: conn_inv_def)
    ultimately show ?thesis by (auto simp: turn_inv_def)
  qed
  then show ?thesis using inv by (auto simp: conn_inv_def sent_inv_def)
qed

theorem ws_turns_in_order_witness:
  "\<exists>c. ws_run demo_sv (recognize_stream demo_sv demo_key None demo_turn []) c \<and> length (wc_sent c) = 4 \<and>
     sorted (turn_ids (wc_sent c))"
proof -
  let ?c = "ws_exec demo_sv (u ''s'') 18 (recognize_stream demo_sv demo_key None demo_turn [])"
  have "length (wc_sent ?c) = 4" using demo_run [THEN arg_cong, of length] by (simp del: ws_exec_numeral)
  then show ?thesis
    by (intro exI [of _ ?c] conjI ws_exec_run ws_turns_in_order [OF demo_asr ws_exec_run, THEN conjunct1])
qed

text \<open>
  C22. No task outlives its turn: when a connection has ended, and whenever a new turn replaces an
  old one, the old turn's pump, finalizer, fan-out and event forwarder have all ended.
\<close>

theorem ws_no_task_left_behind:
  assumes "asr_backend (sv_asr sv)" and "ws_run sv (recognize_stream sv header query inbox st) c"
    and "wc_ctx c = Some t"
    and "(\<exists>e. wc_loop c = Ended e) \<or> (\<exists>c' t'. ws_step sv c c' \<and> wc_ctx c' = Some t' \<and> tc_turn t' \<noteq> tc_turn t)"
  shows "tasks_ended t"
proof -
  have inv: "conn_inv sv c" using assms(2,1) conn_inv_init by (rule ws_run_inv)
  then show ?thesis using assms(3,4) ws_step_replaces [OF inv] by (auto simp: conn_inv_def loop_inv_def)
qed

theorem ws_no_task_left_behind_witness:
  "\<exists>c t. ws_run demo_sv (recognize_stream demo_sv demo_key None [Text [1], Disconnect] []) c \<and>
     wc_loop c = Ended Disconnected \<and> wc_ctx c = Some t \<and> tasks_ended t"
proof -
  let ?c = "ws_exec demo_sv (u ''s'') 4 (recognize_stream demo_sv demo_key None [Text [1], Disconnect] [])"
  have "\<exists>t. wc_ctx ?c = Some t" "wc_loop ?c = Ended Disconnected" by (simp_all add: ws_defs demo_defs)
  then obtain t where t: "wc_ctx ?c = Some t" "wc_loop ?c = Ended Disconnected" by blast
  moreover have "tasks_ended t" using ws_no_task_left_behind [OF demo_asr ws_exec_run t(1)] t(2) by blast
  ultimately show ?thesis by (intro exI [of _ ?c] exI [of _ t] conjI ws_exec_run)
qed

end
