(* ===== verification/Ws_Progress.thy ===== *)
theory Ws_Progress
  imports Ws_Protocol
begin

text \<open>
  Progress of a WebSocket connection. Every run over a finite script of client messages comes to
  rest, so what a client observes in the end is what holds in the states without a step. Two such
  observations: no transcript and no answer before the client says \<open>stop\<close>, whatever the detector
  hears; and a barge-in that arrives after the detector has closed an utterance leaves the
  connection waiting for ever.
\<close>

section \<open>Every run comes to rest\<close>

definition settled :: "ws_server \<Rightarrow> conn \<Rightarrow> bool" where
  "settled sv c \<longleftrightarrow> \<not> (\<exists>c'. ws_step sv c c')"

fun loop_rank :: "loop \<Rightarrow> nat" where
  "loop_rank (AwaitPump _) = 2"
| "loop_rank (AwaitFinalize _) = 1"
| "loop_rank _ = 0"

fun pump_rank :: "pump \<Rightarrow> nat" where
  "pump_rank PNew = 5"
| "pump_rank (PFirst _ _) = 4"
| "pump_rank (PAwaitFan _) = 3"
| "pump_rank (PAwaitEvents _) = 2"
| "pump_rank (PAsr _ _ _) = 1"
| "pump_rank _ = 0"

fun finalizer_rank :: "finalizer \<Rightarrow> nat" where
  "finalizer_rank ZWait = 2"
| "finalizer_rank (ZMatch _) = 1"
| "finalizer_rank _ = 0"

definition pump_work :: "ws_server \<Rightarrow> turn \<Rightarrow> nat" where
  "pump_work sv t =
     (case tc_pump t of
        PFirst _ _ \<Rightarrow> length (tc_segments_q t)
      | PAsr seg n _ \<Rightarrow> length (fst (sv_asr sv (segment_chunks seg))) - n
      | _ \<Rightarrow> 0)"

lemma pump_work_cong: "tc_pump t' = tc_pump t \<Longrightarrow> tc_segments_q t' = tc_segments_q t \<Longrightarrow> pump_work sv t' = pump_work sv t"
  by (simp add: pump_work_def split: pump.splits)

definition events_work :: "ws_server \<Rightarrow> turn \<Rightarrow> nat" where
  "events_work sv t = length (fst (sv_events sv (tc_ev_taken t) (tc_ev_ended t))) - tc_ev_sent t"

text \<open>In order of precedence: the loop, the fan-out, the pump, the forwarder, the finalizer.\<close>

definition on_turn :: "(turn \<Rightarrow> nat) \<Rightarrow> conn \<Rightarrow> nat" where
  "on_turn f c = (case wc_ctx c of None \<Rightarrow> 0 | Some t \<Rightarrow> f t)"

definition ws_measures :: "ws_server \<Rightarrow> (conn \<Rightarrow> nat) list" where
  "ws_measures sv =
     [\<lambda>c. 3 * length (wc_inbox c) + loop_rank (wc_loop c),
      on_turn (\<lambda>t. length (tc_queue t)), on_turn (\<lambda>t. pump_rank (tc_pump t)), on_turn (pump_work sv),
      on_turn (\<lambda>t. if tc_events t = Running then 1 else 0), on_turn (\<lambda>t. length (tc_events_q t)),
      on_turn (events_work sv), on_turn (\<lambda>t. finalizer_rank (tc_finalize t))]"

lemma resume_with_rank:
  "wc_inbox (resume_with sv k c) = wc_inbox c" "loop_rank (wc_loop (resume_with sv k c)) = 0"
  by (auto simp: resume_with_def Let_def split: resume.splits sum.splits)

lemma abandon_finalize_rank:
  "wc_inbox (abandon_finalize sv uuid k c) = wc_inbox c" "loop_rank (wc_loop (abandon_finalize sv uuid k c)) \<le> 1"
  by (auto simp: abandon_finalize_def resume_with_rank split: option.splits prod.splits)

lemma abandon_active_rank:
  "wc_inbox (abandon_active sv uuid k c) = wc_inbox c" "loop_rank (wc_loop (abandon_active sv uuid k c)) \<le> 2"
  using abandon_finalize_rank(2) [of sv uuid k, THEN le_trans, of 2]
  by (auto simp: abandon_active_def resume_with_rank abandon_finalize_rank(1) split: option.splits)

lemma ws_receive_rank:
  assumes "wc_loop c = Receive"
  shows "wc_inbox (ws_receive sv uuid m c) = wc_inbox c \<and> loop_rank (wc_loop (ws_receive sv uuid m c)) \<le> 2"
proof -
  have pcm: "wc_inbox (handle_pcm d c) = wc_inbox c \<and> loop_rank (wc_loop (handle_pcm d c)) \<le> 2" for d
    using assms by (simp add: handle_pcm_def Let_def split: option.splits)
  have stop: "wc_inbox (handle_stop c) = wc_inbox c \<and> loop_rank (wc_loop (handle_stop c)) \<le> 2"
    using assms by (simp add: handle_stop_def split: option.splits)
  have start: "wc_inbox (ws_handle_start sv uuid d c) = wc_inbox c \<and> loop_rank (wc_loop (ws_handle_start sv uuid d c)) \<le> 2" for d
    using assms by (simp add: ws_handle_start_def fatal_start_def Let_def abandon_active_rank split: option.splits)
  have "wc_inbox (ws_text sv uuid x c) = wc_inbox c \<and> loop_rank (wc_loop (ws_text sv uuid x c)) \<le> 2" for x
    using assms stop start by (simp add: ws_text_def Let_def abandon_active_rank split: sum.splits pyval.splits)
  then show ?thesis using assms pcm by (simp add: ws_receive_def abandon_active_rank split: ws_message.splits)
qed

lemma loop_step_decreases:
  assumes "loop_step sv uuid c = Some c'"
  shows "3 * length (wc_inbox c') + loop_rank (wc_loop c') < 3 * length (wc_inbox c) + loop_rank (wc_loop c)"
proof (cases "wc_loop c")
  case Receive
  then obtain m rest where m: "wc_inbox c = m # rest" "c' = ws_receive sv uuid m (c\<lparr>wc_inbox := rest\<rparr>)"
    using assms by (auto simp: loop_step_def split: list.splits)
  then show ?thesis using ws_receive_rank [of "c\<lparr>wc_inbox := rest\<rparr>" sv uuid m] Receive by simp
next
  case (AwaitPump k)
  then show ?thesis using assms abandon_finalize_rank [of sv uuid k c]
    by (auto simp: loop_step_def split: option.splits if_splits)
next
  case (AwaitFinalize k)
  then show ?thesis using assms by (auto simp: loop_step_def resume_with_rank split: option.splits if_splits)
qed (use assms in \<open>simp add: loop_step_def\<close>)

lemma fan_decreases: "fan_out t = Some t' \<Longrightarrow> length (tc_queue t') < length (tc_queue t)"
  by (auto simp: fan_out_def split: if_splits list.splits)

lemma pump_decreases:
  assumes "pump_vad_asr sv t = Some (t', out)"
  shows "tc_queue t' = tc_queue t"
    and "pump_rank (tc_pump t') < pump_rank (tc_pump t) \<or>
      pump_rank (tc_pump t') = pump_rank (tc_pump t) \<and> pump_work sv t' < pump_work sv t"
proof -
  show "tc_queue t' = tc_queue t"
    using assms by (auto simp: pump_vad_asr_def first_segment_def stream_segment_through_asr_def Let_def
      split: pump.splits if_splits prod.splits list.splits option.splits first_outcome.splits)
  show "pump_rank (tc_pump t') < pump_rank (tc_pump t) \<or>
      pump_rank (tc_pump t') = pump_rank (tc_pump t) \<and> pump_work sv t' < pump_work sv t"
  proof (cases "tc_pump t")
    case (PFirst taken ended)
    then show ?thesis using assms
      by (auto simp: pump_vad_asr_def first_segment_def pump_work_def split: prod.splits list.splits option.splits if_splits)
  next
    case (PAsr seg n final_text)
    then show ?thesis using assms
      by (auto simp: pump_vad_asr_def stream_segment_through_asr_def pump_work_def Let_def
          split: prod.splits option.splits if_splits)
  qed (use assms in \<open>auto simp: pump_vad_asr_def split: first_outcome.splits option.splits if_splits\<close>)
qed

lemma events_decreases:
  assumes "forward_events sv t = Some (t', out)"
  shows "tc_queue t' = tc_queue t" "tc_pump t' = tc_pump t" "tc_segments_q t' = tc_segments_q t" "tc_events t = Running"
    and "tc_events t' \<noteq> Running \<or> length (tc_events_q t') < length (tc_events_q t) \<or>
      tc_events_q t' = tc_events_q t \<and> events_work sv t' < events_work sv t"
  using assms by (auto simp: forward_events_def events_work_def split: if_splits prod.splits list.splits option.splits)

lemma finalize_decreases:
  assumes "finalize_turn sv uuid st t = Some (t', out, st', obs)"
  shows "finalizer_rank (tc_finalize t') < finalizer_rank (tc_finalize t)" "tc_queue t' = tc_queue t" "tc_pump t' = tc_pump t"
    "tc_segments_q t' = tc_segments_q t" "tc_events t' = tc_events t" "tc_events_q t' = tc_events_q t"
    "tc_ev_taken t' = tc_ev_taken t" "tc_ev_ended t' = tc_ev_ended t" "tc_ev_sent t' = tc_ev_sent t"
  using assms
  by (auto simp: finalize_turn_def finish_def split: finalizer.splits pump.splits if_splits prod.splits sum.splits)

lemma ws_step_decreases:
  assumes "ws_step sv c c'"
  shows "(c', c) \<in> measures (ws_measures sv)"
  using assms
proof cases
  case (loop uuid)
  then show ?thesis using loop_step_decreases by (simp add: ws_measures_def)
next
  case (fan t t')
  then show ?thesis using fan_decreases by (simp add: ws_measures_def on_turn_def)
next
  case (events t t' out)
  have "pump_work sv t' = pump_work sv t" using events_decreases(2,3) [OF events(3)] by (rule pump_work_cong)
  then show ?thesis using events events_decreases [OF events(3)] by (auto simp: ws_measures_def on_turn_def)
next
  case (pump t t' out)
  then show ?thesis using pump_decreases [OF pump(3)] by (auto simp: ws_measures_def on_turn_def)
next
  case (finalize t uuid t' out st obs)
  have "pump_work sv t' = pump_work sv t" using finalize_decreases(3,4) [OF finalize(3)] by (rule pump_work_cong)
  then show ?thesis using finalize finalize_decreases [OF finalize(3)]
    by (simp add: ws_measures_def on_turn_def events_work_def)
qed

lemma ws_step_wf: "wfP (\<lambda>c' c. ws_step sv c c')"
proof -
  have "wf {(c', c). ws_step sv c c'}"
    by (rule wf_subset [OF wf_measures [of "ws_measures sv"]]) (auto intro: ws_step_decreases)
  then show ?thesis by (simp add: wfp_def)
qed

lemma ws_run_settles: "\<exists>c'. ws_run sv c c' \<and> settled sv c'"
  using ws_step_wf [of sv]
proof (induction c rule: wfp_induct_rule)
  case (less c)
  show ?case
  proof (cases "settled sv c")
    case False
    then obtain c1 where "ws_step sv c c1" by (auto simp: settled_def)
    then show ?thesis using less [of c1] by (meson converse_rtranclp_into_rtranclp)
  qed blast
qed

text \<open>
  C23. Every run of a connection comes to rest: for every service and every finite script of client
  messages no interleaving of the receive loop and the tasks goes on for ever, and from every
  state a state without a step is reached.
\<close>

theorem ws_run_terminates:
  "wfP (\<lambda>c' c. ws_step sv c c') \<and> (\<exists>c'. ws_run sv c c' \<and> settled sv c')"
  by (intro conjI ws_step_wf ws_run_settles)

section \<open>No answer before the client says stop\<close>

text \<open>The text frames that reach \<open>handle_stop\<close>.\<close>

definition says_stop :: "ws_server \<Rightarrow> ws_message \<Rightarrow> bool" where
  "says_stop sv m =
     (case m of
        Text x \<Rightarrow>
          (case sv_loads sv x of
             Inr (PDict control) \<Rightarrow>
               dict_get control ''type'' = PStr (u ''stop'') \<or> dict_get control ''type'' = PStr (u ''end'')
           | _ \<Rightarrow> False)
      | _ \<Rightarrow> False)"

text \<open>A turn whose audio has not ended: its pump cannot get past the wait for the fan-out.\<close>

definition listening :: "turn \<Rightarrow> bool" where
  "listening t \<longleftrightarrow>
     None \<notin> set (tc_queue t) \<and>
     (case tc_pump t of
        PNew \<Rightarrow> tc_fan t = Unstarted
      | PFirst _ _ \<Rightarrow> tc_fan t = Running
      | PAwaitFan _ \<Rightarrow> tc_fan t = Running
      | _ \<Rightarrow> False)"

definition unanswered :: "turn \<Rightarrow> bool" where
  "unanswered t \<longleftrightarrow> (tc_cancelled t \<or> listening t) \<and> (\<forall>req. tc_finalize t \<noteq> ZMatch req)"

definition quiet :: "ws_server \<Rightarrow> conn \<Rightarrow> bool" where
  "quiet sv c \<longleftrightarrow> (\<forall>m \<in> set (wc_inbox c). \<not> says_stop sv m) \<and>
     (\<forall>t. wc_ctx c = Some t \<longrightarrow> unanswered t) \<and>
     (\<forall>f \<in> set (turn_frames (wc_sent c)). \<exists>k a. snd f = VadEvent k a)"

lemma unanswered_TurnContext: "unanswered (TurnContext sid tid s cp n m)"
  by (simp add: unanswered_def listening_def TurnContext_def)

lemma resume_with_quiet: "quiet sv c \<Longrightarrow> quiet sv (resume_with sv k c)"
  by (auto simp: quiet_def resume_with_def unanswered_TurnContext Let_def split: resume.splits sum.splits)

lemma cancel_finalize_unanswered:
  "cancel_finalize sv uuid st t = (t', st', obs) \<Longrightarrow> unanswered t \<Longrightarrow> tc_cancelled t \<Longrightarrow> unanswered t'"
  by (auto simp: cancel_finalize_def finish_def cancel_pump_def unanswered_def split: finalizer.splits if_splits pump.splits)

lemma abandon_finalize_quiet:
  assumes "quiet sv c" and "\<And>t. wc_ctx c = Some t \<Longrightarrow> tc_cancelled t"
  shows "quiet sv (abandon_finalize sv uuid k c)"
  using assms resume_with_quiet [OF assms(1), of k]
  by (auto simp: abandon_finalize_def quiet_def split: option.splits prod.splits dest: cancel_finalize_unanswered)

lemma cancel_turn_unanswered: "unanswered t \<Longrightarrow> unanswered (cancel_turn t)"
  by (auto simp: unanswered_def cancel_turn_def cancel_pump_def Let_def split: pump.splits)

lemma abandon_active_quiet:
  assumes "quiet sv c" shows "quiet sv (abandon_active sv uuid k c)"
proof (cases "wc_ctx c")
  case None
  then show ?thesis using resume_with_quiet [OF assms] by (simp add: abandon_active_def)
next
  case (Some t)
  let ?c = "\<lambda>l. c\<lparr>wc_ctx := Some (cancel_turn t), wc_loop := l\<rparr>"
  have c: "quiet sv (?c l)" for l using assms Some cancel_turn_unanswered by (simp add: quiet_def)
  have "quiet sv (abandon_finalize sv uuid k (?c (wc_loop c)))"
    by (rule abandon_finalize_quiet [OF c]) (auto simp: cancel_turn_frame)
  moreover have "quiet sv (abandon_finalize sv uuid k c)" if "tc_cancelled t"
    by (rule abandon_finalize_quiet [OF assms]) (use Some that in auto)
  ultimately show ?thesis using Some c [of "AwaitPump k"] by (simp add: abandon_active_def)
qed

lemma start_error_quiet: "quiet sv c \<Longrightarrow> start_error b \<Longrightarrow> quiet sv (ws_send k [b] c)"
  by (auto simp: quiet_def)

lemma handle_start_quiet:
  assumes "quiet sv c" shows "quiet sv (ws_handle_start sv uuid control c)"
proof -
  have "quiet sv (fatal_start sv uuid i code m c)" if "code = ''BAD_START'' \<or> code = ''SESSION_MISMATCH''" for i code m
    unfolding fatal_start_def using assms that by (intro abandon_active_quiet start_error_quiet) auto
  then show ?thesis
    unfolding ws_handle_start_def Let_def using assms
    by (auto intro!: start_error_quiet abandon_active_quiet split: option.splits)
qed

lemma handle_pcm_quiet: "quiet sv c \<Longrightarrow> quiet sv (handle_pcm data c)"
  by (auto simp: quiet_def handle_pcm_def unanswered_def listening_def Let_def split: option.splits pump.splits)

lemma ws_receive_quiet:
  assumes "quiet sv c" and "\<not> says_stop sv m"
  shows "quiet sv (ws_receive sv uuid m c)"
proof -
  have "quiet sv (ws_text sv uuid x c)" if "\<not> says_stop sv (Text x)" for x
    unfolding ws_text_def Let_def
    using assms(1) abandon_active_quiet [OF assms(1)] handle_start_quiet [OF assms(1)] that
    by (auto simp: says_stop_def split: sum.splits pyval.splits)
  then show ?thesis
    using assms abandon_active_quiet [OF assms(1)] handle_pcm_quiet [OF assms(1)]
    by (auto simp: ws_receive_def split: ws_message.splits)
qed

lemma loop_step_quiet:
  assumes "quiet sv c" and "conn_inv sv c" and "loop_step sv uuid c = Some c'"
  shows "quiet sv c'"
proof (cases "wc_loop c")
  case Receive
  then obtain m rest where m: "wc_inbox c = m # rest" "c' = ws_receive sv uuid m (c\<lparr>wc_inbox := rest\<rparr>)"
    using assms(3) by (auto simp: loop_step_def split: list.splits)
  moreover have "quiet sv (c\<lparr>wc_inbox := rest\<rparr>)" "\<not> says_stop sv m" using assms(1) m(1) by (auto simp: quiet_def)
  ultimately show ?thesis using ws_receive_quiet by blast
next
  case (AwaitPump k)
  have "tc_cancelled t" if "wc_ctx c = Some t" for t using assms(2) AwaitPump that by (auto simp: conn_inv_def loop_inv_def)
  then show ?thesis using AwaitPump assms(3) abandon_finalize_quiet [OF assms(1)]
    by (auto simp: loop_step_def split: option.splits if_splits)
next
  case (AwaitFinalize k)
  then show ?thesis using assms(3) resume_with_quiet [OF assms(1)]
    by (auto simp: loop_step_def split: option.splits if_splits)
qed (use assms(3) in \<open>simp add: loop_step_def\<close>)

lemma fan_unanswered: "fan_out t = Some t' \<Longrightarrow> unanswered t \<Longrightarrow> unanswered t'"
  by (auto simp: fan_out_def unanswered_def listening_def split: list.splits if_splits pump.splits)

lemma events_unanswered: "forward_events sv t = Some (t', out) \<Longrightarrow> unanswered t \<Longrightarrow> unanswered t'"
  using forward_events_frame [of sv t t' out] events_decreases(1) [of sv t t' out]
  by (auto simp: unanswered_def listening_def split: pump.splits)

lemma pump_unanswered:
  assumes "pump_vad_asr sv t = Some (t', out)" and "unanswered t"
  shows "unanswered t' \<and> out = []"
proof (cases "tc_cancelled t")
  case True
  have "out = []" using assms(1) True
    by (auto simp: pump_vad_asr_def stream_segment_through_asr_def Let_def
        split: pump.splits if_splits prod.splits option.splits first_outcome.splits)
  then show ?thesis using pump_frame [OF assms(1)] True assms(2) by (auto simp: unanswered_def)
next
  case False
  then have "listening t" using assms(2) by (simp add: unanswered_def)
  then show ?thesis using assms False
    by (cases "tc_pump t") (auto simp: listening_def unanswered_def pump_vad_asr_def first_segment_def
        split: list.splits if_splits prod.splits option.splits)
qed

lemma finalize_unanswered:
  assumes "finalize_turn sv uuid st t = Some (t', out, st', obs)" and "unanswered t"
  shows "unanswered t' \<and> out = []"
proof -
  have "tc_cancelled t"
    using assms by (auto simp: finalize_turn_def unanswered_def listening_def split: finalizer.splits pump.splits)
  then show ?thesis using assms
    by (auto simp: finalize_turn_def unanswered_def finish_def split: finalizer.splits pump.splits if_splits prod.splits)
qed

lemma turn_frames_subset: "set (turn_frames fs) \<subseteq> set fs"
  by (auto simp: turn_frames_def)

lemma ws_step_quiet:
  assumes "ws_step sv c c'" and "quiet sv c" and "conn_inv sv c"
  shows "quiet sv c'"
  using assms(1)
proof cases
  case (loop uuid)
  then show ?thesis using loop_step_quiet [OF assms(2,3)] by blast
next
  case (fan t t')
  then show ?thesis using assms(2) fan_unanswered by (auto simp: quiet_def)
next
  case (events t t' out)
  have "\<exists>k a. snd f = VadEvent k a" if "f \<in> set (turn_frames (map (Pair (turn_key t)) out))" for f
    using that turn_frames_subset forward_events_frame(6) [OF events(3)] by fastforce
  then show ?thesis using assms(2) events events_unanswered [OF events(3)] by (auto simp: quiet_def)
next
  case (pump t t' out)
  then show ?thesis using assms(2) pump_unanswered [OF pump(3)] by (auto simp: quiet_def)
next
  case (finalize t uuid t' out st obs)
  then show ?thesis using assms(2) finalize_unanswered [OF finalize(3)] by (auto simp: quiet_def)
qed

text \<open>
  C13. No transcript and no answer before the client says stop: on a connection over which the client
  sends no \<open>stop\<close> or \<open>end\<close> frame, every frame the server ever sends for a turn is a boundary event
  of the detector, even when the detector has closed an utterance long ago, because the pump
  waits for the end of the audio before it starts the recogniser.
\<close>

theorem no_answer_before_stop:
  assumes "asr_backend (sv_asr sv)" and "\<forall>m \<in> set inbox. \<not> says_stop sv m"
    and "ws_run sv (recognize_stream sv header query inbox st) c"
  shows "\<forall>f \<in> set (turn_frames (wc_sent c)). \<exists>k a. snd f = VadEvent k a"
proof -
  let ?c = "recognize_stream sv header query inbox st"
  have "quiet sv ?c \<and> conn_inv sv ?c"
    using assms(2) conn_inv_init by (simp add: quiet_def recognize_stream_def turn_frames_def)
  then have "quiet sv c \<and> conn_inv sv c"
    using assms(3) by (induction rule: rtranclp_induct [where r = "ws_step sv", OF assms(3)])
      (auto intro: ws_step_quiet ws_step_inv [OF assms(1)])
  then show ?thesis by (simp add: quiet_def)
qed

section \<open>A barge-in after a closed utterance\<close>

text \<open>A \<open>start\<close> frame that passes the checks which do not depend on the connection.\<close>

definition opens :: "(pyval \<times> pyval) list \<Rightarrow> pystr \<Rightarrow> int \<Rightarrow> bool" where
  "opens control sid tid \<longleftrightarrow>
     dict_get control ''type'' = PStr (u ''start'') \<and> dict_get control ''session_id'' = PStr sid \<and>
     dict_get control ''turn_id'' = PInt tid \<and>
     (dict_get control ''scene_id'' \<noteq> PNone \<or> dict_get control ''category_path'' \<noteq> PNone)"

abbreviation turn_of :: "(pyval \<times> pyval) list \<Rightarrow> pystr \<Rightarrow> int \<Rightarrow> resume" where
  "turn_of control sid tid \<equiv> OpenTurn sid tid (dict_get control ''scene_id'') (dict_get control ''category_path'')
     (dget control (PStr (u ''n_best'')))"

lemma opens_receive:
  assumes "sv_loads sv x = Inr (PDict control)" and "opens control sid tid"
    and "wc_session_id c = None \<or> wc_session_id c = Some sid" and "wc_current_turn_id c < tid"
  shows "ws_receive sv uuid (Text x) c = abandon_active sv uuid (turn_of control sid tid) c"
  using assms by (auto simp: ws_receive_def ws_text_def ws_handle_start_def opens_def Let_def)

text \<open>
  The pump waits for the fan-out or, that one cancelled, for the forwarder, which waits for audio
  that nobody forwards any more; the loop waits for the pump.
\<close>

definition hung :: "ws_server \<Rightarrow> conn \<Rightarrow> bool" where
  "hung sv c \<longleftrightarrow>
     (\<exists>t k. wc_ctx c = Some t \<and> wc_loop c = AwaitPump k \<and> tc_fan t = Cancelled \<and> tc_events t = Running \<and>
        forward_events sv t = None \<and> tc_finalize t = ZWait \<and>
        ((\<exists>r. tc_pump t = PAwaitFan r) \<or> (\<exists>r. tc_pump t = PAwaitEvents r)))"

lemma forward_events_blocked:
  assumes "forward_events sv t = None" and "tc_events t = Running" and "tc_events t' = Running"
    and "tc_ev_taken t' = tc_ev_taken t" and "tc_ev_ended t' = tc_ev_ended t" and "tc_ev_sent t' = tc_ev_sent t"
    and "tc_events_q t' = tc_events_q t"
  shows "forward_events sv t' = None"
  using assms by (auto simp: forward_events_def split: prod.splits if_splits list.splits option.splits)

lemma hung_step:
  assumes "hung sv c" and "ws_step sv c c'"
  shows "hung sv c' \<and> wc_inbox c' = wc_inbox c \<and> wc_sent c' = wc_sent c \<and> wc_loop c' = wc_loop c"
proof -
  obtain t k where t: "wc_ctx c = Some t" "wc_loop c = AwaitPump k" "tc_fan t = Cancelled" "tc_events t = Running"
    "forward_events sv t = None" "tc_finalize t = ZWait" "(\<exists>r. tc_pump t = PAwaitFan r) \<or> (\<exists>r. tc_pump t = PAwaitEvents r)"
    using assms(1) unfolding hung_def by blast
  from assms(2) show ?thesis
  proof cases
    case (pump t1 t' out)
    then obtain r where r: "t' = t\<lparr>tc_pump := PAwaitEvents r\<rparr>" "out = []" using t by (auto simp: pump_vad_asr_def)
    have "forward_events sv t' = None" by (rule forward_events_blocked [OF t(5,4)]) (simp_all add: r t(4))
    then show ?thesis using pump t r by (auto simp: hung_def)
  qed (use t in \<open>auto simp: loop_step_def fan_out_def finalize_turn_def\<close>)
qed

lemma hung_forever:
  "ws_run sv c c' \<Longrightarrow> hung sv c \<Longrightarrow>
     hung sv c' \<and> wc_inbox c' = wc_inbox c \<and> wc_sent c' = wc_sent c \<and> wc_loop c' = wc_loop c"
  by (induction rule: rtranclp_induct) (use hung_step in \<open>fastforce+\<close>)

lemma barge_in_hung:
  assumes "wc_ctx c = Some t" and "wc_loop c = Receive" and "wc_inbox c = Text x # later"
    and "tc_pump t = PAwaitFan r" and "tc_fan t = Running" and "tc_events t = Running" and "forward_events sv t = None"
    and "\<not> tc_cancelled t" and "tc_finalize t = ZWait"
    and "sv_loads sv x = Inr (PDict control)" and "opens control sid tid"
    and "wc_session_id c = Some sid" and "wc_current_turn_id c < tid"
  shows "\<exists>c'. ws_step sv c c' \<and> hung sv c' \<and> wc_inbox c' = later \<and> wc_loop c' = AwaitPump (turn_of control sid tid)"
proof -
  let ?t = "t\<lparr>tc_cancelled := True, tc_queue := tc_queue t @ [None], tc_fan := Cancelled\<rparr>"
  let ?c = "c\<lparr>wc_inbox := later, wc_ctx := Some ?t, wc_loop := AwaitPump (turn_of control sid tid)\<rparr>"
  have "loop_step sv [] c = Some ?c"
    using assms(1-5,8) opens_receive [OF assms(10,11), of "c\<lparr>wc_inbox := later\<rparr>" "[]"] assms(12,13)
    by (simp add: loop_step_def abandon_active_def cancel_turn_def cancel_pump_def Let_def)
  then have "ws_step sv c ?c" by (rule ws_step.loop)
  moreover have "forward_events sv ?t = None" by (rule forward_events_blocked [OF assms(7,6)]) (simp_all add: assms(6))
  then have "hung sv ?c" using assms by (simp add: hung_def)
  ultimately show ?thesis by (intro exI [of _ ?c]) simp
qed

text \<open>Left alone, the forwarder sends what the detector reports and then waits.\<close>

lemma forwarder_catches_up:
  assumes "incremental (sv_events sv)" and "wc_ctx c = Some t" and "tc_events t = Running" and "\<not> tc_ev_ended t"
    and "None \<notin> set (tc_events_q t)" and "\<not> tc_cancelled t"
  shows "\<exists>c' t' taken n out. ws_run sv c c' \<and> t' = t\<lparr>tc_events_q := [], tc_ev_taken := taken, tc_ev_sent := n\<rparr> \<and>
    c' = c\<lparr>wc_ctx := Some t', wc_sent := wc_sent c @ out\<rparr> \<and> forward_events sv t' = None"
  using assms(2-)
proof (induction "(c, t)" arbitrary: c t 
    rule: wf_induct_rule [OF wf_measures [of "[length \<circ> tc_events_q \<circ> snd, events_work sv \<circ> snd]"]])
  case (1 c t)
  show ?case
  proof (cases "forward_events sv t")
    case None
    then have "tc_events_q t = []"
      using "1.prems" incremental.no_error [OF assms(1)]
      by (cases "tc_events_q t") (auto simp: forward_events_def split: prod.splits if_splits option.splits)
    then have "t = t\<lparr>tc_events_q := [], tc_ev_taken := tc_ev_taken t, tc_ev_sent := tc_ev_sent t\<rparr>" by simp
    then show ?thesis using None "1.prems"(1)
      by (intro exI [of _ c] exI [of _ t] exI [of _ "tc_ev_taken t"] exI [of _ "tc_ev_sent t"] exI [of _ "[]"]) simp
  next
    case (Some r)
    obtain t1 out where r: "r = (t1, out)" by force
    let ?c1 = "ws_send (turn_key t) out (c\<lparr>wc_ctx := Some t1\<rparr>)"
    have step: "ws_step sv c ?c1" using "1.prems"(1) Some r by (auto intro: ws_step.events)
    have "t1 = t\<lparr>tc_events_q := tc_events_q t1, tc_ev_taken := tc_ev_taken t1, tc_ev_sent := tc_ev_sent t1\<rparr> \<and>
        None \<notin> set (tc_events_q t1)"
      using Some r "1.prems" incremental.no_error [OF assms(1), of "tc_ev_taken t" False]
      by (auto simp: forward_events_def split: prod.splits if_splits list.splits option.splits)
    then obtain q taken n where t1: "t1 = t\<lparr>tc_events_q := q, tc_ev_taken := taken, tc_ev_sent := n\<rparr>" "None \<notin> set q"
      by blast
    obtain c' t' taken' n' out' where IH: "ws_run sv ?c1 c'" "t' = t1\<lparr>tc_events_q := [], tc_ev_taken := taken', tc_ev_sent := n'\<rparr>"
      "c' = ?c1\<lparr>wc_ctx := Some t', wc_sent := wc_sent ?c1 @ out'\<rparr>" "forward_events sv t' = None"
      using "1.hyps" [of ?c1 t1] events_decreases [OF Some [unfolded r]] t1 "1.prems" by auto
    then show ?thesis using step t1
      by (intro exI [of _ c'] exI [of _ t'] exI [of _ taken'] exI [of _ n'] exI [of _ "map (Pair (turn_key t)) out @ out'"])
        (simp add: ws_send_def converse_rtranclp_into_rtranclp)
  qed
qed

lemma run_step: "ws_run sv c c1 \<Longrightarrow> ws_step sv c1 c2 \<Longrightarrow> ws_run sv c c2"
  by (rule rtranclp.rtrancl_into_rtrancl)

lemma run_pump:
  assumes "ws_run sv c0 (c\<lparr>wc_ctx := Some t\<rparr>)" and "pump_vad_asr sv t = Some (t', [])"
  shows "ws_run sv c0 (c\<lparr>wc_ctx := Some t'\<rparr>)"
  using run_step [OF assms(1) ws_step.pump [OF _ assms(2)]] by (simp add: ws_send_def)

lemma run_fan:
  assumes "ws_run sv c0 (c\<lparr>wc_ctx := Some t\<rparr>)" and "fan_out t = Some t'"
  shows "ws_run sv c0 (c\<lparr>wc_ctx := Some t'\<rparr>)"
  using run_step [OF assms(1) ws_step.fan [OF _ assms(2)]] by simp

text \<open>The \<open>int(control.get("n_best", 5))\<close> and the audio limit a turn is opened with.\<close>

definition turn_limits :: "ws_server \<Rightarrow> (pyval \<times> pyval) list \<Rightarrow> (int \<times> int) result" where
  "turn_limits sv control =
     bindE (py_int (case dget control (PStr (u ''n_best'')) of None \<Rightarrow> PInt 5 | Some v \<Rightarrow> v)) (\<lambda>n.
     bindE (get_max_audio_bytes (sv_env sv)) (\<lambda>limit. Inr (n, limit)))"

abbreviation fresh_turn :: "(pyval \<times> pyval) list \<Rightarrow> pystr \<Rightarrow> int \<Rightarrow> int \<Rightarrow> int \<Rightarrow> turn" where
  "fresh_turn control sid tid n limit \<equiv>
     TurnContext sid tid (dict_get control ''scene_id'') (dict_get control ''category_path'') n limit"

lemma first_start:
  assumes "check_ws_api_key (sv_env sv) header query" and "sv_loads sv x = Inr (PDict control)" and "opens control sid tid"
    and "0 \<le> tid" and "turn_limits sv control = Inr (n, limit)"
  shows "loop_step sv uuid (recognize_stream sv header query (Text x # rest) st) =
    Some \<lparr>wc_inbox = rest, wc_loop = Receive, wc_session_id = Some sid, wc_current_turn_id = tid,
      wc_ctx = Some (fresh_turn control sid tid n limit), wc_sent = [], wc_store = st, wc_observed = []\<rparr>"
proof -
  let ?c = "recognize_stream sv header query rest st"
  have "ws_receive sv uuid (Text x) ?c = abandon_active sv uuid (turn_of control sid tid) ?c"
    using assms(2-4) by (intro opens_receive) (simp_all add: recognize_stream_def)
  then show ?thesis
    using assms(1,5)
    by (simp add: loop_step_def recognize_stream_def abandon_active_def resume_with_def turn_limits_def Let_def)
qed

lemma utterance_before_stop:
  assumes "check_ws_api_key (sv_env sv) header query" and "sv_loads sv x = Inr (PDict control)" and "opens control sid tid"
    and "0 \<le> tid" and "turn_limits sv control = Inr (n, limit)" and "incremental (sv_events sv)"
    and "sv_segments sv [] False = ([], None)" and "sv_segments sv [chunk] False = (seg # segs, failure)"
  shows "\<exists>c t. ws_run sv (recognize_stream sv header query (Text x # Binary chunk # rest) st) c \<and>
    wc_ctx c = Some t \<and> wc_loop c = Receive \<and> wc_inbox c = rest \<and> wc_session_id c = Some sid \<and>
    wc_current_turn_id c = tid \<and> tc_pump t = PAwaitFan (Got (Some seg)) \<and> tc_fan t = Running \<and> tc_events t = Running \<and>
    forward_events sv t = None \<and> \<not> tc_cancelled t \<and> tc_finalize t = ZWait"
proof -
  let ?c0 = "recognize_stream sv header query (Text x # Binary chunk # rest) st"
  define c1 where "c1 = \<lparr>wc_inbox = Binary chunk # rest, wc_loop = Receive, wc_session_id = Some sid, wc_current_turn_id = tid,
    wc_ctx = Some (fresh_turn control sid tid n limit), wc_sent = [], wc_store = st, wc_observed = []\<rparr>"
  have "ws_step sv ?c0 c1" unfolding c1_def by (rule ws_step.loop [OF first_start [OF assms(1-5)]])
  then have run1: "ws_run sv ?c0 c1" by (rule r_into_rtranclp)
  obtain t2 where t2: "loop_step sv [] c1 = Some (c1\<lparr>wc_inbox := rest, wc_ctx := Some t2\<rparr>)"
    "tc_queue t2 = [Some chunk]" "tc_pump t2 = PNew" "tc_events_q t2 = []" "tc_segments_q t2 = []" "tc_ev_taken t2 = []"
    "\<not> tc_ev_ended t2" "tc_ev_sent t2 = 0" "\<not> tc_cancelled t2" "tc_finalize t2 = ZWait"
    by (simp add: c1_def loop_step_def ws_receive_def handle_pcm_def TurnContext_def Let_def)
  let ?c2 = "c1\<lparr>wc_inbox := rest, wc_ctx := Some t2\<rparr>"
  have run2: "ws_run sv ?c0 ?c2" by (rule run_step [OF run1 ws_step.loop [OF t2(1)]])
  define t4 where "t4 = t2\<lparr>tc_fan := Running, tc_events := Running, tc_pump := PFirst [] False, tc_queue := [],
    tc_events_q := [Some chunk], tc_segments_q := [Some chunk]\<rparr>"
  define t5 where "t5 = t4\<lparr>tc_segments_q := [], tc_pump := PAwaitFan (Got (Some seg))\<rparr>"
  have "pump_vad_asr sv t2 = Some (t2\<lparr>tc_fan := Running, tc_events := Running, tc_pump := PFirst [] False\<rparr>, [])"
    using t2 by (simp add: pump_vad_asr_def)
  moreover have "fan_out (t2\<lparr>tc_fan := Running, tc_events := Running, tc_pump := PFirst [] False\<rparr>) = Some t4"
    using t2 by (simp add: fan_out_def t4_def)
  moreover have "pump_vad_asr sv t4 = Some (t4\<lparr>tc_segments_q := [], tc_pump := PFirst [chunk] False\<rparr>, [])"
    using assms(7) by (simp add: pump_vad_asr_def first_segment_def t4_def)
  moreover have "pump_vad_asr sv (t4\<lparr>tc_segments_q := [], tc_pump := PFirst [chunk] False\<rparr>) = Some (t5, [])"
    using assms(8) t2 by (simp add: pump_vad_asr_def first_segment_def t4_def t5_def)
  ultimately have run5: "ws_run sv ?c0 (c1\<lparr>wc_inbox := rest, wc_ctx := Some t5\<rparr>)"
    by (rule run_pump [OF run_pump [OF run_fan [OF run_pump [OF run2]]]])
  have "tc_events t5 = Running" "\<not> tc_ev_ended t5" "None \<notin> set (tc_events_q t5)" "\<not> tc_cancelled t5"
    using t2 by (simp_all add: t5_def t4_def)
  from forwarder_catches_up [OF assms(6) _ this, of "c1\<lparr>wc_inbox := rest, wc_ctx := Some t5\<rparr>"]
  obtain c t taken sent out where c: "ws_run sv (c1\<lparr>wc_inbox := rest, wc_ctx := Some t5\<rparr>) c"
    "t = t5\<lparr>tc_events_q := [], tc_ev_taken := taken, tc_ev_sent := sent\<rparr>"
    "c = c1\<lparr>wc_inbox := rest, wc_ctx := Some t5\<rparr>\<lparr>wc_ctx := Some t, wc_sent := wc_sent c1 @ out\<rparr>" "forward_events sv t = None"
    by auto
  have "ws_run sv ?c0 c" using run5 c(1) by (rule rtranclp_trans)
  then show ?thesis using c(2-4) t2
    by (intro exI [of _ c] exI [of _ t]) (simp add: c1_def t5_def t4_def)
qed

text \<open>
  C12. A barge-in can hang the connection. Once the detector has closed an utterance and its events
  are sent, while the client has not said stop, a new \<open>start\<close> cancels the fan-out task before it
  forwards the end-of-audio marker; the event forwarder then waits for ever, the pump waits for
  the forwarder and the receive loop for the pump. From there no frame is sent and no message
  is received in any continuation, not even a disconnect.
\<close>

theorem barge_in_hangs:
  assumes "check_ws_api_key (sv_env sv) header query"
    and "sv_loads sv x = Inr (PDict control)" and "opens control sid tid" and "0 \<le> tid"
    and "turn_limits sv control = Inr (n, limit)"
    and "sv_loads sv y = Inr (PDict control')" and "opens control' sid tid'" and "tid < tid'"
    and "incremental (sv_events sv)"
    and "sv_segments sv [] False = ([], None)" and "sv_segments sv [chunk] False = (seg # segs, failure)"
  shows "\<exists>c. ws_run sv (recognize_stream sv header query (Text x # Binary chunk # Text y # later) st) c \<and>
    (\<forall>c'. ws_run sv c c' \<longrightarrow>
       wc_inbox c' = later \<and> wc_loop c' = AwaitPump (turn_of control' sid tid') \<and> wc_sent c' = wc_sent c)"
proof -
  let ?c0 = "recognize_stream sv header query (Text x # Binary chunk # Text y # later) st"
  obtain c t where c: "ws_run sv ?c0 c" "wc_ctx c = Some t" "wc_loop c = Receive" "wc_inbox c = Text y # later"
    "wc_session_id c = Some sid" "wc_current_turn_id c = tid" "tc_pump t = PAwaitFan (Got (Some seg))" "tc_fan t = Running"
    "tc_events t = Running" "forward_events sv t = None" "\<not> tc_cancelled t" "tc_finalize t = ZWait"
    using utterance_before_stop [OF assms(1-5,9-11)] by blast
  obtain c' where c': "ws_step sv c c'" "hung sv c'" "wc_inbox c' = later" "wc_loop c' = AwaitPump (turn_of control' sid tid')"
    using barge_in_hung [OF c(2-4,7-12) assms(6,7) c(5)] c(6) assms(8) by blast
  have "ws_run sv ?c0 c'" using c(1) c'(1) by (rule run_step)
  then show ?thesis using hung_forever [OF _ c'(2)] c'(3,4) by metis
qed

section \<open>An utterance of Silero\<close>

text \<open>A model that hears speech in the first nine windows: 27 windows hold one whole utterance.\<close>

definition demo_infer :: "nat infer" where
  "demo_infer w n = (if n < 9 then 1 else 0, Suc n)"

definition demo_audio :: bytes where
  "demo_audio = concat (replicate 27 (replicate 1024 0))"

definition demo_silero :: ws_server where
  "demo_silero = demo_sv\<lparr>sv_events := silero_events_upto demo_infer (1 / 2) 0, sv_segments := silero_segments_upto demo_infer (1 / 2) 0\<rparr>"

lemma drain_window:
  assumes "length z = 1024"
  shows "drain infer threshold agg st (z @ r) =
    (case infer (int16_samples z) st of (prob, st) \<Rightarrow>
     bindE (feed agg z (threshold \<le> prob)) (\<lambda>(agg, out).
     bindE (drain infer threshold agg st r) (\<lambda>(agg, st, residual, outs). Inr (agg, st, residual, out # outs))))"
  using assms by (subst drain.simps) (simp add: window_defs Let_def)

lemma drain_Nil: "drain infer threshold agg st [] = Inr (agg, st, [], [])"
  by (subst drain.simps) (simp add: window_defs)

lemma concat_replicate_numeral: "concat (replicate (numeral k) z) = z @ concat (replicate (pred_numeral k) z)"
  by (simp add: numeral_eq_Suc)

lemma demo_utterance:
  assumes "length z = 1024"
  shows "\<exists>seg. silero_segments_upto demo_infer (1 / 2) 0 [concat (replicate 27 z)] False = ([seg], None)"
  using assms length_greater_0_conv [of z]
  by (simp add: silero_segments_upto_def drain_window drain_window [where r = "[]", unfolded append_Nil2] drive_upto_def silero_aggregator_init silero_agg_def concat_replicate_numeral
      drain_Nil demo_infer_def feed_def handle_silent_def handle_speaking_def handle_trailing_def
      maybe_force_cut_def empty_output_def SegmentEvent_def SegmentResult_def emit_segment_def close_segment_def Let_def)

lemma demo_silero_simps:
  "sv_loads demo_silero [k] = Inr (demo_start (int k))" "sv_env demo_silero = []"
  "incremental (sv_events demo_silero)" "sv_segments demo_silero [] False = ([], None)"
  "\<exists>seg. sv_segments demo_silero [demo_audio] False = ([seg], None)" "asr_backend (sv_asr demo_silero)"
proof -
  show "incremental (sv_events demo_silero)"
    using silero_ev.incremental_axioms by (simp add: demo_silero_def)
  show "\<exists>seg. sv_segments demo_silero [demo_audio] False = ([seg], None)"
    using demo_utterance [of "replicate 1024 0"] by (simp add: demo_silero_def demo_audio_def)
  show "asr_backend (sv_asr demo_silero)" using demo_asr by (simp add: demo_silero_def)
qed (simp_all add: demo_silero_def demo_sv_def silero_segments_upto_def drive_upto_def silero_aggregator_init)

lemma demo_opens: "\<exists>control. demo_start tid = PDict control \<and> opens control (u ''call'') tid \<and>
    turn_limits demo_silero control = Inr (5, DEFAULT_MAX_AUDIO_BYTES)"
  by (simp add: demo_start_def opens_def dict_get_def turn_limits_def demo_silero_simps get_max_audio_bytes_def)

lemma demo_key_ok: "check_ws_api_key (sv_env demo_silero) demo_key None"
  by (simp add: check_ws_api_key_def demo_key_def demo_silero_simps env_get_def)

theorem barge_in_hangs_witness:
  "\<exists>c k. ws_run demo_silero (recognize_stream demo_silero demo_key None [Text [1], Binary demo_audio, Text [2], Disconnect] []) c \<and>
    {c'. ws_run demo_silero c c'} \<subseteq> {c'. wc_inbox c' = [Disconnect] \<and> wc_loop c' = AwaitPump k \<and> wc_sent c' = wc_sent c}"
proof -
  obtain d1 where d1: "demo_start 1 = PDict d1" "opens d1 (u ''call'') 1" "turn_limits demo_silero d1 = Inr (5, DEFAULT_MAX_AUDIO_BYTES)"
    using demo_opens by blast
  obtain d2 where d2: "demo_start 2 = PDict d2" "opens d2 (u ''call'') 2" using demo_opens by blast
  obtain seg where seg: "sv_segments demo_silero [demo_audio] False = ([seg], None)" using demo_silero_simps(5) by blast
  have "sv_loads demo_silero [1] = Inr (PDict d1)" "sv_loads demo_silero [2] = Inr (PDict d2)"
    using demo_silero_simps(1) [of 1] demo_silero_simps(1) [of 2] d1(1) d2(1) by simp_all
  from barge_in_hangs [OF demo_key_ok this(1) d1(2) _ d1(3) this(2) d2(2) _ demo_silero_simps(3,4) seg, of "[Disconnect]" "[]"]
  show ?thesis by auto
qed

theorem no_answer_before_stop_witness:
  "\<exists>c t seg. ws_run demo_silero (recognize_stream demo_silero demo_key None [Text [1], Binary demo_audio] []) c \<and>
     wc_ctx c = Some t \<and> tc_pump t = PAwaitFan (Got (Some seg)) \<and>
     list_all (\<lambda>f. \<exists>k a. snd f = VadEvent k a) (turn_frames (wc_sent c))"
proof -
  obtain d where d: "demo_start 1 = PDict d" "opens d (u ''call'') 1" "turn_limits demo_silero d = Inr (5, DEFAULT_MAX_AUDIO_BYTES)"
    using demo_opens by blast
  obtain seg where seg: "sv_segments demo_silero [demo_audio] False = ([seg], None)" using demo_silero_simps(5) by blast
  have l: "sv_loads demo_silero [1] = Inr (PDict d)" using demo_silero_simps(1) [of 1] d(1) by simp
  from utterance_before_stop [OF demo_key_ok l d(2) _ d(3) demo_silero_simps(3,4) seg, of "[]" "[]"]
  obtain c t where c: "ws_run demo_silero (recognize_stream demo_silero demo_key None [Text [1], Binary demo_audio] []) c"
    "wc_ctx c = Some t" "tc_pump t = PAwaitFan (Got (Some seg))" by auto
  have "\<forall>m \<in> set [Text [1], Binary demo_audio]. \<not> says_stop demo_silero m"
    using d(2) l by (simp add: says_stop_def opens_def)
  from no_answer_before_stop [OF demo_silero_simps(6) this c(1)] show ?thesis using c unfolding list_all_iff by blast
qed

end
