(* ===== verification/Ws_Complete.thy ===== *)
theory Ws_Complete
  imports Ws_Progress
begin

text \<open>
  A whole turn: \<open>start\<close>, the audio, \<open>stop\<close>. The specification says what the client receives in
  terms of the detector, the recogniser and the orchestrator on the complete audio, without
  queues and tasks; the theorem says that every interleaving comes to rest with exactly that.
\<close>

section \<open>Specification\<close>

definition first_utterance :: "ws_server \<Rightarrow> bytes list \<Rightarrow> segment_result option" where
  "first_utterance sv chunks = (case fst (sv_segments sv chunks True) of [] \<Rightarrow> None | seg # _ \<Rightarrow> Some seg)"

definition event_frame :: "segment_event \<Rightarrow> body" where
  "event_frame ev = VadEvent (ev_kind ev) (at_ms ev)"

definition asr_frame :: "segment_result \<Rightarrow> partial_transcript \<Rightarrow> body" where
  "asr_frame seg p =
     (if pt_is_final p then Final (pt_text p) (start_ms seg) (start_ms seg + pt_end_ms p)
      else Partial (pt_text p) (start_ms seg) (start_ms seg + pt_end_ms p))"

definition last_final :: "partial_transcript list \<Rightarrow> pystr" where
  "last_final ps = (case rev (filter pt_is_final ps) of [] \<Rightarrow> [] | p # _ \<Rightarrow> pt_text p)"

text \<open>What the orchestrator makes of the transcript and the whole audio; \<open>b\<close> is the turn as opened.\<close>

definition answer_frames ::
  "ws_server \<Rightarrow> pystr \<Rightarrow> turn \<Rightarrow> bytes list \<Rightarrow> session_store \<Rightarrow> pystr \<Rightarrow> body list \<times> session_store" where
  "answer_frames sv uuid b chunks st final_text =
     (if strip final_text = [] then ([ErrorFrame ''NO_SPEECH'' (Detail ''no transcript produced'') False], st)
      else case bindE (optional_str (tc_scene_id b)) (\<lambda>scene_id.
                bindE (optional_str (tc_category_path b)) (\<lambda>category_path.
                  RecognitionRequest scene_id category_path final_text
                    (if tc_max_audio_bytes b < int (length (concat chunks)) then None else Some (concat chunks))
                    (Some (tc_session b)) (tc_n_best b))) of
        Inl e \<Rightarrow> ([], st)
      | Inr req \<Rightarrow>
          (case recognize (sv_frames sv) (sv_orc sv) uuid req st of
             (Inr response, st) \<Rightarrow> ([Result (response\<lparr>rs_session_id := tc_session b\<rparr>)], st)
           | (Inl e, st) \<Rightarrow>
               (if is_key_error e then [ErrorFrame ''UNKNOWN_SCENE'' (StrOf e) False]
                else if is_value_error e then [ErrorFrame ''INVALID_REQUEST'' (StrOf e) False] else [], st)))"

text \<open>The frames of the recogniser, and the transcript that goes to the orchestrator, if any.\<close>

definition asr_frames :: "ws_server \<Rightarrow> segment_result \<Rightarrow> body list" where
  "asr_frames sv seg =
     (case sv_asr sv (segment_chunks seg) of (ps, failure) \<Rightarrow>
        map (asr_frame seg) ps @
        (case failure of None \<Rightarrow> [] | Some e \<Rightarrow> [ErrorFrame ''ASR_FAILED'' (StrOf e) False]))"

definition heard_frames :: "ws_server \<Rightarrow> bytes list \<Rightarrow> body list" where
  "heard_frames sv chunks =
     (case first_utterance sv chunks of
        None \<Rightarrow> []
      | Some seg \<Rightarrow> if pcm16 seg = [] then [] else asr_frames sv seg)"

definition transcript :: "ws_server \<Rightarrow> bytes list \<Rightarrow> pystr option" where
  "transcript sv chunks =
     (case first_utterance sv chunks of
        None \<Rightarrow> Some []
      | Some seg \<Rightarrow>
          if pcm16 seg = [] then Some []
          else (case sv_asr sv (segment_chunks seg) of
                  (ps, None) \<Rightarrow> Some (last_final ps)
                | (ps, Some e) \<Rightarrow> None))"

definition turn_outcome ::
  "ws_server \<Rightarrow> pystr \<Rightarrow> turn \<Rightarrow> bytes list \<Rightarrow> session_store \<Rightarrow> body list \<times> session_store" where
  "turn_outcome sv uuid b chunks st =
     (case (case transcript sv chunks of None \<Rightarrow> ([], st) | Some x \<Rightarrow> answer_frames sv uuid b chunks st x) of
        (reply, st) \<Rightarrow> (map event_frame (fst (sv_events sv chunks True)) @ heard_frames sv chunks @ reply, st))"

section \<open>Audio on its way\<close>

abbreviation audio_items :: "bytes list \<Rightarrow> bytes option list" where
  "audio_items chunks \<equiv> map Some chunks @ [None]"

definition window :: "'a list \<Rightarrow> nat \<Rightarrow> nat \<Rightarrow> 'a list" where
  "window xs j i = drop j (take i xs)"

lemma window_snoc: "j \<le> i \<Longrightarrow> i < length xs \<Longrightarrow> window xs j (Suc i) = window xs j i @ [xs ! i]"
  by (simp add: window_def take_Suc_conv_app_nth)

lemma window_Cons: "window xs j i = y # ys \<Longrightarrow> j < i \<and> j < length xs \<and> y = xs ! j \<and> ys = window xs (Suc j) i"
  unfolding window_def
  by (metis Cons_nth_drop_Suc drop_eq_Nil2 leI length_take list.distinct(1) list.inject min_less_iff_conj nth_take)

lemma window_Nil [simp]: "window xs j j = []"
  by (simp add: window_def)

lemma item_cases:
  assumes "j < Suc (length chunks)"
  shows "audio_items chunks ! j = Some c \<Longrightarrow> j < length chunks \<and> c = chunks ! j"
    and "audio_items chunks ! j = None \<Longrightarrow> j = length chunks"
  using assms by (auto simp: nth_append split: if_splits)

definition same_turn :: "turn \<Rightarrow> turn \<Rightarrow> bool" where
  "same_turn b t \<longleftrightarrow> tc_session t = tc_session b \<and> tc_turn t = tc_turn b \<and> tc_scene_id t = tc_scene_id b \<and>
     tc_category_path t = tc_category_path b \<and> tc_n_best t = tc_n_best b \<and> tc_max_audio_bytes t = tc_max_audio_bytes b"

text \<open>The loop has received \<open>i\<close> items, the fan-out forwarded \<open>j\<close>, the event forwarder taken \<open>e\<close>.\<close>

definition flow :: "bytes list \<Rightarrow> nat \<Rightarrow> nat \<Rightarrow> nat \<Rightarrow> turn \<Rightarrow> bool" where
  "flow chunks i j e t \<longleftrightarrow>
     e \<le> j \<and> j \<le> i \<and> i \<le> Suc (length chunks) \<and>
     tc_queue t = window (audio_items chunks) j i \<and> tc_events_q t = window (audio_items chunks) e j \<and>
     tc_ev_taken t = take e chunks \<and> tc_ev_ended t = (e = Suc (length chunks)) \<and>
     tc_fan t = (if tc_pump t = PNew then Unstarted else if j = Suc (length chunks) then Finished else Running) \<and>
     (tc_pump t = PNew \<longrightarrow> j = 0) \<and>
     tc_audio_overflow t = (tc_max_audio_bytes t < int (length (concat (take i chunks)))) \<and>
     tc_audio_accum t = (if tc_audio_overflow t then [] else concat (take i chunks))"

definition yields :: "ws_server \<Rightarrow> turn \<Rightarrow> segment_event list" where
  "yields sv t = fst (sv_events sv (tc_ev_taken t) (tc_ev_ended t))"

definition events_ok :: "ws_server \<Rightarrow> turn \<Rightarrow> bool" where
  "events_ok sv t \<longleftrightarrow>
     tc_ev_sent t \<le> length (yields sv t) \<and>
     (case tc_events t of
        Unstarted \<Rightarrow> tc_pump t = PNew
      | Running \<Rightarrow> (case tc_pump t of PFirst _ _ \<Rightarrow> True | PAwaitFan _ \<Rightarrow> True | PAwaitEvents _ \<Rightarrow> True | _ \<Rightarrow> False)
      | Finished \<Rightarrow> tc_pump t \<noteq> PNew \<and> tc_ev_ended t \<and> tc_ev_sent t = length (yields sv t)
      | Cancelled \<Rightarrow> False)"

definition source_at :: "bytes list \<Rightarrow> nat \<Rightarrow> bytes list \<Rightarrow> bool \<Rightarrow> bytes option list \<Rightarrow> bool" where
  "source_at chunks j taken ended q \<longleftrightarrow>
     (\<exists>s \<le> j. q = window (audio_items chunks) s j \<and> taken = take s chunks \<and> ended = (s = Suc (length chunks)))"

definition pump_ok :: "ws_server \<Rightarrow> bytes list \<Rightarrow> nat \<Rightarrow> turn \<Rightarrow> bool" where
  "pump_ok sv chunks j t \<longleftrightarrow>
     (case tc_pump t of
        PNew \<Rightarrow> \<not> tc_cancelled t \<and> tc_segments_q t = []
      | PFirst taken ended \<Rightarrow> \<not> tc_cancelled t \<and> source_at chunks j taken ended (tc_segments_q t)
      | PAwaitFan r \<Rightarrow> \<not> tc_cancelled t \<and> r = Got (first_utterance sv chunks)
      | PAwaitEvents r \<Rightarrow> \<not> tc_cancelled t \<and> r = Got (first_utterance sv chunks) \<and> tc_fan t = Finished
      | PAsr seg n final_text \<Rightarrow> \<not> tc_cancelled t \<and> first_utterance sv chunks = Some seg \<and> pcm16 seg \<noteq> [] \<and>
          n \<le> length (fst (sv_asr sv (segment_chunks seg))) \<and>
          final_text = last_final (take n (fst (sv_asr sv (segment_chunks seg)))) \<and> tc_fan t = Finished
      | PDone final_text \<Rightarrow> tc_fan t = Finished \<and>
          (if tc_cancelled t then transcript sv chunks = None else transcript sv chunks = Some final_text)
      | _ \<Rightarrow> False)"

text \<open>What the pump has sent.\<close>

definition heard :: "ws_server \<Rightarrow> bytes list \<Rightarrow> turn \<Rightarrow> body list" where
  "heard sv chunks t =
     (case tc_pump t of
        PAsr seg n _ \<Rightarrow> map (asr_frame seg) (take n (fst (sv_asr sv (segment_chunks seg))))
      | PDone _ \<Rightarrow> heard_frames sv chunks
      | _ \<Rightarrow> [])"

definition final_ok :: "ws_server \<Rightarrow> turn \<Rightarrow> bytes list \<Rightarrow> session_store \<Rightarrow> turn \<Rightarrow> body list \<Rightarrow> session_store \<Rightarrow> bool" where
  "final_ok sv b chunks st0 t reply st \<longleftrightarrow>
     (case tc_finalize t of
        ZWait \<Rightarrow> reply = [] \<and> st = st0
      | ZMatch req \<Rightarrow> reply = [] \<and> st = st0 \<and>
          (\<exists>x. tc_pump t = PDone x \<and> \<not> tc_cancelled t \<and> strip x \<noteq> [] \<and> turn_request x t = Inr req)
      | ZCancelled \<Rightarrow> False
      | _ \<Rightarrow> (\<exists>x uuid. tc_pump t = PDone x \<and>
          (reply, st) = (case transcript sv chunks of None \<Rightarrow> ([], st0) | Some y \<Rightarrow> answer_frames sv uuid b chunks st0 y)))"

definition on_course ::
  "ws_server \<Rightarrow> turn \<Rightarrow> bytes list \<Rightarrow> session_store \<Rightarrow> nat \<Rightarrow> turn \<Rightarrow> body list \<Rightarrow> session_store \<Rightarrow> bool" where
  "on_course sv b chunks st0 i t sent st \<longleftrightarrow>
     same_turn b t \<and> events_ok sv t \<and> (\<exists>j e. flow chunks i j e t \<and> pump_ok sv chunks j t) \<and>
     (\<exists>reply. sent = map event_frame (take (tc_ev_sent t) (yields sv t)) @ heard sv chunks t @ reply \<and>
        final_ok sv b chunks st0 t reply st)"

section \<open>The tasks stay on course\<close>

lemma on_courseI:
  "same_turn b t \<Longrightarrow> events_ok sv t \<Longrightarrow> flow chunks i j e t \<Longrightarrow> pump_ok sv chunks j t \<Longrightarrow>
     sent = map event_frame (take (tc_ev_sent t) (yields sv t)) @ heard sv chunks t @ reply \<Longrightarrow>
     final_ok sv b chunks st0 t reply st \<Longrightarrow> on_course sv b chunks st0 i t sent st"
  by (auto simp: on_course_def)

lemma on_courseE:
  assumes "on_course sv b chunks st0 i t sent st"
  obtains j e reply where "flow chunks i j e t" "pump_ok sv chunks j t" "events_ok sv t" "same_turn b t"
    "sent = map event_frame (take (tc_ev_sent t) (yields sv t)) @ heard sv chunks t @ reply"
    "final_ok sv b chunks st0 t reply st"
  using assms by (auto simp: on_course_def)

lemma flow_frame:
  "flow chunks i j e t \<Longrightarrow> tc_queue t' = tc_queue t \<Longrightarrow> tc_events_q t' = tc_events_q t \<Longrightarrow> tc_ev_taken t' = tc_ev_taken t \<Longrightarrow>
     tc_ev_ended t' = tc_ev_ended t \<Longrightarrow> tc_fan t' = tc_fan t \<Longrightarrow> (tc_pump t' = PNew) = (tc_pump t = PNew) \<Longrightarrow>
     tc_max_audio_bytes t' = tc_max_audio_bytes t \<Longrightarrow> tc_audio_overflow t' = tc_audio_overflow t \<Longrightarrow>
     tc_audio_accum t' = tc_audio_accum t \<Longrightarrow> flow chunks i j e t'"
  by (simp add: flow_def)

lemma events_ok_frame:
  "events_ok sv t \<Longrightarrow> tc_ev_taken t' = tc_ev_taken t \<Longrightarrow> tc_ev_ended t' = tc_ev_ended t \<Longrightarrow> tc_ev_sent t' = tc_ev_sent t \<Longrightarrow>
     tc_events t' = tc_events t \<Longrightarrow> tc_pump t' = tc_pump t \<Longrightarrow> events_ok sv t'"
  by (auto simp: events_ok_def yields_def split: task.splits)

lemma final_ok_frame:
  "final_ok sv b chunks st0 t reply st \<Longrightarrow> tc_finalize t' = tc_finalize t \<Longrightarrow> tc_pump t' = tc_pump t \<Longrightarrow>
     tc_cancelled t' = tc_cancelled t \<Longrightarrow> (\<And>x. turn_request x t' = turn_request x t) \<Longrightarrow> final_ok sv b chunks st0 t' reply st"
  by (auto simp: final_ok_def split: finalizer.splits)

lemma source_at_fan:
  assumes "source_at chunks j taken ended q" and "j < Suc (length chunks)"
  shows "source_at chunks (Suc j) taken ended (q @ [audio_items chunks ! j])"
proof -
  obtain s where s: "s \<le> j" "q = window (audio_items chunks) s j" "taken = take s chunks" "ended = (s = Suc (length chunks))"
    using assms(1) by (auto simp: source_at_def)
  then show ?thesis unfolding source_at_def using assms(2) window_snoc [OF s(1), of "audio_items chunks"]
    by (intro exI [of _ s]) simp
qed

lemma fan_on_course:
  assumes "on_course sv b chunks st0 i t sent st" and "fan_out t = Some t'"
  shows "on_course sv b chunks st0 i t' sent st"
proof -
  obtain j e reply where j: "flow chunks i j e t" "pump_ok sv chunks j t" "events_ok sv t" "same_turn b t"
    "sent = map event_frame (take (tc_ev_sent t) (yields sv t)) @ heard sv chunks t @ reply" "final_ok sv b chunks st0 t reply st"
    using assms(1) by (rule on_courseE)
  obtain item rest where q: "tc_fan t = Running" "tc_queue t = item # rest"
    "t' = t\<lparr>tc_queue := rest, tc_events_q := tc_events_q t @ [item], tc_segments_q := tc_segments_q t @ [item],
       tc_fan := (if item = None then Finished else Running)\<rparr>"
    using assms(2) by (auto simp: fan_out_def split: if_splits list.splits)
  have w: "j < i" "j < Suc (length chunks)" "item = audio_items chunks ! j" "rest = window (audio_items chunks) (Suc j) i"
    using window_Cons [of "audio_items chunks" j i item rest] q(2) j(1) by (auto simp: flow_def)
  have last: "(item = None) = (Suc j = Suc (length chunks))" using w(2,3) by (auto simp: nth_append)
  have "flow chunks i (Suc j) e t'"
    using j(1) q w last window_snoc [of e j "audio_items chunks"] by (auto simp: flow_def)
  moreover have "pump_ok sv chunks (Suc j) t'"
  proof (cases "tc_pump t")
    case (PFirst taken ended)
    then show ?thesis using j(2) q(3) source_at_fan [OF _ w(2)] w(3) by (auto simp: pump_ok_def)
  next
    case PNew
    then show ?thesis using q(1) j(1) by (simp add: flow_def)
  qed (use j(2) q in \<open>auto simp: pump_ok_def\<close>)
  moreover have "same_turn b t'" using j(4) q(3) by (simp add: same_turn_def)
  moreover have "events_ok sv t'" by (rule events_ok_frame [OF j(3)]) (simp_all add: q(3))
  moreover have "sent = map event_frame (take (tc_ev_sent t') (yields sv t')) @ heard sv chunks t' @ reply"
    using j(5) q(3) by (simp add: yields_def heard_def)
  moreover have "final_ok sv b chunks st0 t' reply st"
    using j(6) by (rule final_ok_frame) (simp_all add: q(3) turn_request_def)
  ultimately show ?thesis by (intro on_courseI)
qed

text \<open>The forwarder: what it has sent stays a prefix of what the detector yields.\<close>

lemma events_taken:
  assumes "incremental (sv_events sv)" and "flow chunks i j e t" and "events_ok sv t"
    and "tc_events_q t = item # rest" and "tc_ev_sent t = length (yields sv t)"
    and "t' = (case item of Some chunk \<Rightarrow> t\<lparr>tc_events_q := rest, tc_ev_taken := tc_ev_taken t @ [chunk]\<rparr>
      | None \<Rightarrow> t\<lparr>tc_events_q := rest, tc_ev_ended := True\<rparr>)"
  shows "flow chunks i j (Suc e) t' \<and> events_ok sv t' \<and>
    take (tc_ev_sent t') (yields sv t') = take (tc_ev_sent t) (yields sv t)"
proof -
  have w: "e < j" "e < Suc (length chunks)" "item = audio_items chunks ! e" "rest = window (audio_items chunks) (Suc e) j"
    using window_Cons [of "audio_items chunks" e j item rest] assms(2,4) by (auto simp: flow_def)
  have old: "\<not> tc_ev_ended t" "tc_ev_taken t = take e chunks" using assms(2) w(2) by (auto simp: flow_def)
  note stable = incremental.taken_stable [OF assms(1), of "tc_ev_sent t" "tc_ev_taken t"]
  have len: "tc_ev_sent t \<le> length (fst (sv_events sv (tc_ev_taken t) False))" using assms(5) old by (simp add: yields_def)
  have st: "tc_events t \<noteq> Finished" using assms(3) old by (auto simp: events_ok_def)
  show ?thesis
  proof (cases item)
    case None
    then have e: "e = length chunks" using item_cases(2) [OF w(2)] w(3) by simp
    have t': "t' = t\<lparr>tc_events_q := rest, tc_ev_ended := True\<rparr>" using assms(6) None by simp
    have "flow chunks i j (Suc e) t'" using assms(2) w(1,2,4) e by (auto simp: flow_def t')
    then show ?thesis using assms(3) stable(2,4) [OF len] old(1) st t'
      by (auto simp: events_ok_def yields_def split: task.splits)
  next
    case (Some c)
    then have e: "e < length chunks" "c = chunks ! e" using item_cases(1) [OF w(2)] w(3) by auto
    have t': "t' = t\<lparr>tc_events_q := rest, tc_ev_taken := tc_ev_taken t @ [c]\<rparr>" using assms(6) Some by simp
    have "flow chunks i j (Suc e) t'" using assms(2) w(1,2,4) e by (auto simp: flow_def t' take_Suc_conv_app_nth)
    then show ?thesis using assms(3) stable(1,3) [OF len, of c] old(1) st t'
      by (auto simp: events_ok_def yields_def split: task.splits)
  qed
qed

lemma events_on_course:
  assumes "incremental (sv_events sv)" and "on_course sv b chunks st0 i t sent st" and "forward_events sv t = Some (t', out)"
  shows "on_course sv b chunks st0 i t' (sent @ out) st"
proof -
  obtain j e reply where oc: "flow chunks i j e t" "pump_ok sv chunks j t" "events_ok sv t" "same_turn b t"
    "sent = map event_frame (take (tc_ev_sent t) (yields sv t)) @ heard sv chunks t @ reply" "final_ok sv b chunks st0 t reply st"
    using assms(2) by (rule on_courseE)
  have run: "tc_events t = Running" "tc_pump t \<noteq> PNew" "heard sv chunks t = []"
    using forward_events_frame(1) [OF assms(3)] oc(3) by (auto simp: events_ok_def heard_def split: pump.splits)
  have quiet: "tc_finalize t = ZWait" "reply = []" "st = st0" "\<not> tc_cancelled t"
    using oc(2,3,6) run by (auto simp: events_ok_def final_ok_def pump_ok_def split: finalizer.splits pump.splits)
  have ok: "snd (sv_events sv (tc_ev_taken t) (tc_ev_ended t)) = None" by (rule incremental.no_error [OF assms(1)])
  consider (send) "tc_ev_sent t < length (yields sv t)" "t' = t\<lparr>tc_ev_sent := Suc (tc_ev_sent t)\<rparr>"
      "out = [event_frame (yields sv t ! tc_ev_sent t)]"
    | (fin) "tc_ev_sent t = length (yields sv t)" "tc_ev_ended t" "t' = t\<lparr>tc_events := Finished\<rparr>" "out = []"
    | (item) x rest where "tc_ev_sent t = length (yields sv t)" "tc_events_q t = x # rest" "out = []"
      "t' = (case x of Some chunk \<Rightarrow> t\<lparr>tc_events_q := rest, tc_ev_taken := tc_ev_taken t @ [chunk]\<rparr>
        | None \<Rightarrow> t\<lparr>tc_events_q := rest, tc_ev_ended := True\<rparr>)"
    using assms(3) run(1) quiet(4) ok oc(3)
    by (auto simp: forward_events_def yields_def events_ok_def event_frame_def split: prod.splits if_splits list.splits option.splits)
  then show ?thesis
  proof cases
    case send
    have y: "yields sv t' = yields sv t" using send(2) by (simp add: yields_def)
    have "events_ok sv t'" using oc(3) send(1,2) y by (auto simp: events_ok_def run(1))
    moreover have "flow chunks i j e t'" by (rule flow_frame [OF oc(1)]) (simp_all add: send(2))
    moreover have "map event_frame (take (tc_ev_sent t') (yields sv t')) = map event_frame (take (tc_ev_sent t) (yields sv t)) @ out"
      unfolding y using send by (simp add: take_Suc_conv_app_nth)
    moreover have "same_turn b t'" "pump_ok sv chunks j t'" "heard sv chunks t' = []" "tc_finalize t' = ZWait"
      using oc(2,4) run(3) quiet(1) send(2) by (auto simp: same_turn_def pump_ok_def heard_def split: pump.splits)
    ultimately show ?thesis using oc(5) run(3) quiet by (auto simp: on_course_def final_ok_def)
  next
    case fin
    have "events_ok sv t'" using oc(3) fin run by (auto simp: events_ok_def yields_def)
    moreover have "flow chunks i j e t'" by (rule flow_frame [OF oc(1)]) (simp_all add: fin(3))
    moreover have "yields sv t' = yields sv t" using fin(3) by (simp add: yields_def)
    moreover have "same_turn b t'" "pump_ok sv chunks j t'" "heard sv chunks t' = []" "tc_finalize t' = ZWait" "tc_ev_sent t' = tc_ev_sent t"
      using oc(2,4) run(3) quiet(1) fin(3) by (auto simp: same_turn_def pump_ok_def heard_def split: pump.splits)
    ultimately show ?thesis using oc(5) run(3) quiet fin(4) by (auto simp: on_course_def final_ok_def)
  next
    case (item x rest)
    note new = events_taken [OF assms(1) oc(1,3) item(2,1,4)]
    have same: "same_turn b t'" "pump_ok sv chunks j t'" "heard sv chunks t' = heard sv chunks t" "tc_finalize t' = tc_finalize t"
      using oc(2,4) item(4) by (auto simp: same_turn_def pump_ok_def heard_def split: option.splits pump.splits)
    then show ?thesis using oc(5) new quiet item(3) by (auto simp: on_course_def final_ok_def)
  qed
qed

text \<open>The pump picks the first utterance of the whole stream, whenever the detector yields it.\<close>

lemma first_yield:
  assumes "incremental (sv_segments sv)" and "source_at chunks j taken ended q"
  shows "sv_segments sv taken ended = (seg # segs, failure) \<Longrightarrow> first_utterance sv chunks = Some seg"
    and "sv_segments sv taken ended = ([], failure) \<Longrightarrow> ended \<Longrightarrow> first_utterance sv chunks = None"
proof -
  obtain s where s: "taken = take s chunks" "ended = (s = Suc (length chunks))" using assms(2) by (auto simp: source_at_def)
  have "prefix (fst (sv_segments sv taken ended)) (fst (sv_segments sv chunks True))"
  proof (cases ended)
    case False
    then show ?thesis using incremental.upto_final [OF assms(1), of taken "drop s chunks"] s by simp
  qed (use s in simp)
  then show "sv_segments sv taken ended = (seg # segs, failure) \<Longrightarrow> first_utterance sv chunks = Some seg"
    by (auto simp: first_utterance_def prefix_def)
  show "sv_segments sv taken ended = ([], failure) \<Longrightarrow> ended \<Longrightarrow> first_utterance sv chunks = None"
    using s by (auto simp: first_utterance_def)
qed

lemma source_at_take:
  assumes "source_at chunks j taken False (item # rest)"
  shows "case item of Some c \<Rightarrow> source_at chunks j (taken @ [c]) False rest | None \<Rightarrow> source_at chunks j taken True rest"
proof -
  obtain s where s: "s \<le> j" "item # rest = window (audio_items chunks) s j" "taken = take s chunks" "s \<noteq> Suc (length chunks)"
    using assms by (auto simp: source_at_def)
  have w: "s < j" "s < Suc (length chunks)" "item = audio_items chunks ! s" "rest = window (audio_items chunks) (Suc s) j"
    using window_Cons [of "audio_items chunks" s j item rest] s(2) by auto
  show ?thesis
  proof (cases item)
    case None
    then have "s = length chunks" using item_cases(2) [OF w(2)] w(3) by simp
    then have "source_at chunks j taken True rest"
      unfolding source_at_def using w(1,4) s(3) by (intro exI [of _ "Suc s"]) simp
    then show ?thesis using None by simp
  next
    case (Some c)
    then have "s < length chunks" "c = chunks ! s" using item_cases(1) [OF w(2)] w(3) by auto
    then have "source_at chunks j (taken @ [c]) False rest"
      unfolding source_at_def using w(1,4) s(3) by (intro exI [of _ "Suc s"]) (simp add: take_Suc_conv_app_nth)
    then show ?thesis using Some by simp
  qed
qed

lemma first_segment_ok:
  assumes "incremental (sv_segments sv)" and "tc_pump t = PFirst taken ended" and "pump_ok sv chunks j t"
    and "first_segment sv taken ended t = Some t'"
  shows "pump_ok sv chunks j t' \<and> heard sv chunks t' = []"
proof -
  have src: "source_at chunks j taken ended (tc_segments_q t)" "\<not> tc_cancelled t" using assms(2,3) by (auto simp: pump_ok_def)
  obtain segs failure where g: "sv_segments sv taken ended = (segs, failure)" by force
  have "failure = None" using incremental.no_error [OF assms(1), of taken ended] g by simp
  show ?thesis
  proof (cases segs)
    case (Cons seg more)
    then show ?thesis using assms(4) g src first_yield(1) [OF assms(1) src(1)]
      by (auto simp: first_segment_def pump_ok_def heard_def)
  next
    case Nil
    note empty = this
    show ?thesis
    proof (cases ended)
      case True
      then show ?thesis using assms(4) g empty src \<open>failure = None\<close> first_yield(2) [OF assms(1) src(1)]
        by (auto simp: first_segment_def pump_ok_def heard_def)
    next
      case False
      then obtain item rest where q: "tc_segments_q t = item # rest"
        using assms(4) g empty \<open>failure = None\<close> by (auto simp: first_segment_def split: list.splits)
      then show ?thesis using assms(4) g empty \<open>failure = None\<close> False src source_at_take [of chunks j taken item rest]
        by (auto simp: first_segment_def pump_ok_def heard_def split: option.splits)
    qed
  qed
qed

lemma last_final_snoc: "last_final (ps @ [p]) = (if pt_is_final p then pt_text p else last_final ps)"
  by (simp add: last_final_def)

lemma asr_ok:
  assumes "tc_pump t = PAsr seg n final_text" and "pump_ok sv chunks j t"
    and "stream_segment_through_asr sv seg n final_text t = (t', out)"
  shows "pump_ok sv chunks j t' \<and> heard sv chunks t' = heard sv chunks t @ out"
proof -
  obtain ps failure where g: "sv_asr sv (segment_chunks seg) = (ps, failure)" by force
  have ok: "\<not> tc_cancelled t" "first_utterance sv chunks = Some seg" "pcm16 seg \<noteq> []" "n \<le> length ps"
    "final_text = last_final (take n ps)" "tc_fan t = Finished"
    using assms(1,2) g by (auto simp: pump_ok_def)
  show ?thesis
  proof (cases "n < length ps")
    case True
    then show ?thesis using assms(1,3) g ok
      by (auto simp: stream_segment_through_asr_def pump_ok_def heard_def asr_frame_def last_final_snoc
          take_Suc_conv_app_nth Let_def split: if_splits)
  next
    case False
    then have "n = length ps" using ok(4) by simp
    then show ?thesis using assms(1,3) g ok
      by (auto simp: stream_segment_through_asr_def pump_ok_def heard_def heard_frames_def asr_frames_def transcript_def
          split: option.splits)
  qed
qed

lemma pump_turn:
  assumes "pump_vad_asr sv t = Some (t', out)"
  shows "same_turn t t'" "tc_queue t' = tc_queue t" "tc_events_q t' = tc_events_q t" "tc_ev_taken t' = tc_ev_taken t"
    "tc_ev_ended t' = tc_ev_ended t" "tc_ev_sent t' = tc_ev_sent t" "tc_audio_overflow t' = tc_audio_overflow t"
    "tc_audio_accum t' = tc_audio_accum t" "tc_pump t' \<noteq> PNew"
    "tc_pump t \<noteq> PNew \<Longrightarrow> tc_fan t' = tc_fan t \<and> tc_events t' = tc_events t"
  using assms
  by (auto simp: same_turn_def pump_vad_asr_def first_segment_def stream_segment_through_asr_def Let_def
      split: pump.splits if_splits prod.splits list.splits option.splits first_outcome.splits)

lemma pump_ok_step:
  assumes "incremental (sv_segments sv)" and "pump_ok sv chunks j t" and "events_ok sv t"
    and "flow chunks i j e t" and "pump_vad_asr sv t = Some (t', out)"
  shows "pump_ok sv chunks j t' \<and> heard sv chunks t' = heard sv chunks t @ out"
proof (cases "tc_pump t")
  case PNew
  then show ?thesis using assms(2,4,5)
    by (auto simp: pump_vad_asr_def pump_ok_def heard_def source_at_def flow_def)
next
  case (PFirst taken ended)
  then show ?thesis using first_segment_ok [OF assms(1) PFirst assms(2)] assms(5)
    by (auto simp: pump_vad_asr_def heard_def)
next
  case (PAwaitFan r)
  then show ?thesis using assms(2,4,5)
    by (auto simp: pump_vad_asr_def pump_ok_def heard_def flow_def split: if_splits)
next
  case (PAwaitEvents r)
  then show ?thesis using assms(2,5)
    by (auto simp: pump_vad_asr_def pump_ok_def heard_def heard_frames_def transcript_def last_final_def
        split: if_splits option.splits)
next
  case (PAsr seg n final_text)
  then show ?thesis using asr_ok [OF PAsr assms(2)] assms(5) by (auto simp: pump_vad_asr_def)
qed (use assms(5) in \<open>auto simp: pump_vad_asr_def\<close>)

lemma pump_events_ok:
  assumes "events_ok sv t" and "pump_vad_asr sv t = Some (t', out)" and "\<not> tc_cancelled t"
  shows "events_ok sv t'"
proof -
  note f = pump_turn [OF assms(2)]
  have y: "yields sv t' = yields sv t" using f(4,5) by (simp add: yields_def)
  show ?thesis
  proof (cases "tc_pump t")
    case PNew
    then have "tc_events t' = Running" "tc_pump t' = PFirst [] False" using assms(2) by (auto simp: pump_vad_asr_def)
    then show ?thesis using assms(1) f y by (simp add: events_ok_def)
  next
    case (PFirst taken ended)
    then obtain r where "first_segment sv taken ended t = Some t'" using assms(2) by (auto simp: pump_vad_asr_def)
    then show ?thesis using assms(1) f y PFirst first_segment_frame(5) [of sv taken ended t t']
      by (auto simp: events_ok_def split: task.splits)
  next
    case (PAwaitEvents r)
    then have "tc_events t \<noteq> Running" using assms(2) by (auto simp: pump_vad_asr_def split: if_splits)
    then show ?thesis using assms(1) f y PAwaitEvents by (auto simp: events_ok_def split: task.splits)
  next
    case (PAwaitFan r)
    then have "tc_pump t' = PAwaitEvents r" using assms(2) by (auto simp: pump_vad_asr_def split: if_splits)
    then show ?thesis using assms(1) f y PAwaitFan by (auto simp: events_ok_def split: task.splits)
  next
    case (PAsr seg n x)
    then show ?thesis using assms(1) f y by (auto simp: events_ok_def split: task.splits)
  qed (use assms(2) in \<open>auto simp: pump_vad_asr_def\<close>)
qed

lemma pump_flow:
  assumes "flow chunks i j e t" and "pump_vad_asr sv t = Some (t', out)"
  shows "flow chunks i j e t'"
proof (cases "tc_pump t = PNew")
  case True
  then have "tc_fan t' = Running" using assms(2) by (auto simp: pump_vad_asr_def)
  then show ?thesis using assms(1) True pump_turn(1-9) [OF assms(2)] by (simp add: flow_def same_turn_def)
next
  case False
  then show ?thesis using assms(1) pump_turn [OF assms(2)] by (intro flow_frame [OF assms(1)]) (auto simp: same_turn_def)
qed

lemma pump_on_course:
  assumes "incremental (sv_segments sv)" and "on_course sv b chunks st0 i t sent st" and "pump_vad_asr sv t = Some (t', out)"
  shows "on_course sv b chunks st0 i t' (sent @ out) st"
proof -
  obtain j e reply where oc: "flow chunks i j e t" "pump_ok sv chunks j t" "events_ok sv t" "same_turn b t"
    "sent = map event_frame (take (tc_ev_sent t) (yields sv t)) @ heard sv chunks t @ reply" "final_ok sv b chunks st0 t reply st"
    using assms(2) by (rule on_courseE)
  have busy: "\<not> pump_done (tc_pump t)" "tc_finalize t' = tc_finalize t" using pump_frame(1,4) [OF assms(3)] by auto
  have quiet: "tc_finalize t = ZWait" "reply = []" "st = st0" "\<not> tc_cancelled t"
    using oc(2,6) busy by (auto simp: final_ok_def pump_ok_def split: finalizer.splits pump.splits)
  have y: "yields sv t' = yields sv t" "tc_ev_sent t' = tc_ev_sent t" using pump_turn(4-6) [OF assms(3)] by (auto simp: yields_def)
  have new: "pump_ok sv chunks j t'" "heard sv chunks t' = heard sv chunks t @ out"
    using pump_ok_step [OF assms(1) oc(2,3,1) assms(3)] by auto
  have "same_turn b t'" using oc(4) pump_turn(1) [OF assms(3)] by (simp add: same_turn_def)
  then show ?thesis
    using pump_events_ok [OF oc(3) assms(3) quiet(4)] pump_flow [OF oc(1) assms(3)] new(1)
    by (rule on_courseI [where reply = "[]"]) (use oc(5) y new(2) quiet busy(2) in \<open>simp_all add: final_ok_def\<close>)
qed

text \<open>When the pump is through, all the audio has been received.\<close>

lemma all_received:
  assumes "flow chunks i j e t" and "tc_fan t = Finished"
  shows "i = Suc (length chunks)"
    and "tc_audio_overflow t = (tc_max_audio_bytes t < int (length (concat chunks)))"
    and "\<not> tc_audio_overflow t \<Longrightarrow> tc_audio_accum t = concat chunks"
  using assms by (auto simp: flow_def split: if_splits)

lemma finalize_on_course:
  assumes "on_course sv b chunks st0 i t sent st" and "finalize_turn sv uuid st t = Some (t', out, st', obs)"
  shows "on_course sv b chunks st0 i t' (sent @ out) st'"
proof -
  obtain j e reply where oc: "flow chunks i j e t" "pump_ok sv chunks j t" "events_ok sv t" "same_turn b t"
    "sent = map event_frame (take (tc_ev_sent t) (yields sv t)) @ heard sv chunks t @ reply" "final_ok sv b chunks st0 t reply st"
    using assms(1) by (rule on_courseE)
  have idle: "reply = []" "st = st0" using finalize_frame(1) [OF assms(2)] oc(6) by (auto simp: final_ok_def split: finalizer.splits)
  obtain x where x: "tc_pump t = PDone x"
    using assms(2) oc(2,6) by (auto simp: finalize_turn_def final_ok_def pump_ok_def split: finalizer.splits pump.splits)
  have pump: "tc_fan t = Finished" "if tc_cancelled t then transcript sv chunks = None else transcript sv chunks = Some x"
    using oc(2) x by (auto simp: pump_ok_def)
  note audio = all_received(2,3) [OF oc(1) pump(1)]
  have req: "turn_request y t = bindE (optional_str (tc_scene_id b)) (\<lambda>scene_id.
      bindE (optional_str (tc_category_path b)) (\<lambda>category_path.
        RecognitionRequest scene_id category_path y
          (if tc_max_audio_bytes b < int (length (concat chunks)) then None else Some (concat chunks))
          (Some (tc_session b)) (tc_n_best b)))" for y
    using audio oc(4) by (simp add: turn_request_def same_turn_def)
  have same_session: "tc_session t = tc_session b" using oc(4) by (simp add: same_turn_def)
  obtain z m where t': "t' = t\<lparr>tc_finalize := z, tc_metric_recorded := m\<rparr>"
  proof -
    have "t' = t\<lparr>tc_finalize := tc_finalize t', tc_metric_recorded := tc_metric_recorded t'\<rparr>"
      using assms(2) by (auto simp: finalize_turn_def finish_def split: finalizer.splits pump.splits if_splits prod.splits sum.splits)
    then show thesis using that by blast
  qed
  have "final_ok sv b chunks st0 t' out st'"
  proof (cases "tc_finalize t")
    case ZWait
    then show ?thesis using assms(2) x pump(2) req idle
      by (auto simp: finalize_turn_def finish_def final_ok_def answer_frames_def turn_request_def split: if_splits sum.splits)
  next
    case (ZMatch r)
    then have m: "\<not> tc_cancelled t" "strip x \<noteq> []" "turn_request x t = Inr r" using oc(6) x by (auto simp: final_ok_def)
    obtain res st1 where rec: "recognize (sv_frames sv) (sv_orc sv) uuid r st0 = (res, st1)" by force
    have "answer_frames sv uuid b chunks st0 x = (out, st') \<and> (tc_finalize t' = ZDone \<or> (\<exists>e. tc_finalize t' = ZFailed e))"
      using assms(2) ZMatch m req [of x] rec idle same_session
      by (cases res) (auto simp: finalize_turn_def finish_def answer_frames_def split: if_splits)
    moreover have "tc_pump t' = PDone x" using t' x by simp
    ultimately show ?thesis using pump(2) m(1) by (auto simp: final_ok_def intro!: exI [of _ uuid])
  qed (use finalize_frame(1) [OF assms(2)] in auto)
  moreover have "same_turn b t'" "pump_ok sv chunks j t'"
    using oc(2,4) x by (simp_all add: t' same_turn_def pump_ok_def)
  moreover have "events_ok sv t'" by (rule events_ok_frame [OF oc(3)]) (simp_all add: t')
  moreover have "flow chunks i j e t'" by (rule flow_frame [OF oc(1)]) (simp_all add: t')
  moreover have "sent @ out = map event_frame (take (tc_ev_sent t') (yields sv t')) @ heard sv chunks t' @ out"
    using oc(5) idle by (simp add: t' yields_def heard_def)
  ultimately show ?thesis by (intro on_courseI)
qed

section \<open>The receive loop stays on course\<close>

lemma not_through:
  assumes "on_course sv b chunks st0 i t sent st" and "i < Suc (length chunks)"
  shows "\<not> tc_cancelled t" "tc_finalize t = ZWait"
proof -
  obtain j e reply where oc: "flow chunks i j e t" "pump_ok sv chunks j t" "final_ok sv b chunks st0 t reply st"
    using assms(1) by (rule on_courseE)
  have "tc_fan t \<noteq> Finished" using all_received(1) [OF oc(1)] assms(2) by auto
  then show "\<not> tc_cancelled t" "tc_finalize t = ZWait"
    using oc(2,3) by (auto simp: pump_ok_def final_ok_def split: pump.splits finalizer.splits)
qed

text \<open>The loop adds one item, and the audio of it, to a turn.\<close>

lemma item_received:
  assumes "on_course sv b chunks st0 i t sent st" and "i < Suc (length chunks)"
    and "tc_queue t' = tc_queue t @ [audio_items chunks ! i]"
    and "tc_audio_overflow t' = (tc_max_audio_bytes t < int (length (concat (take (Suc i) chunks))))"
    and "tc_audio_accum t' = (if tc_audio_overflow t' then [] else concat (take (Suc i) chunks))"
    and "t' = t\<lparr>tc_queue := tc_queue t', tc_audio_overflow := tc_audio_overflow t', tc_audio_accum := tc_audio_accum t'\<rparr>"
  shows "on_course sv b chunks st0 (Suc i) t' sent st"
proof -
  obtain q a v where t': "t' = t\<lparr>tc_queue := q, tc_audio_overflow := v, tc_audio_accum := a\<rparr>" using assms(6) by blast
  obtain j e reply where oc: "flow chunks i j e t" "pump_ok sv chunks j t" "events_ok sv t" "same_turn b t"
    "sent = map event_frame (take (tc_ev_sent t) (yields sv t)) @ heard sv chunks t @ reply" "final_ok sv b chunks st0 t reply st"
    using assms(1) by (rule on_courseE)
  have "tc_queue t' = window (audio_items chunks) j (Suc i)"
    using oc(1) assms(2,3) window_snoc [of j i "audio_items chunks"] by (auto simp: flow_def)
  then have "flow chunks (Suc i) j e t'"
    using oc(1) assms(2,4,5) by (auto simp: flow_def t')
  moreover have "pump_ok sv chunks j t'" using oc(2) by (auto simp: t' pump_ok_def split: pump.splits)
  moreover have "same_turn b t'" using oc(4) by (simp add: t' same_turn_def)
  moreover have "events_ok sv t'" by (rule events_ok_frame [OF oc(3)]) (simp_all add: t')
  moreover have "sent = map event_frame (take (tc_ev_sent t') (yields sv t')) @ heard sv chunks t' @ reply"
    using oc(5) by (simp add: t' yields_def heard_def)
  moreover have "final_ok sv b chunks st0 t' reply st"
    using oc(6) not_through(2) [OF assms(1,2)] by (simp add: t' final_ok_def)
  ultimately show ?thesis by (intro on_courseI)
qed

lemma handle_pcm_on_course:
  assumes "on_course sv b chunks st0 i t sent st" and "i < length chunks" and "wc_ctx c = Some t"
  shows "\<exists>t'. handle_pcm (chunks ! i) c = c\<lparr>wc_ctx := Some t'\<rparr> \<and> on_course sv b chunks st0 (Suc i) t' sent st"
proof -
  let ?d = "chunks ! i"
  define t' where "t' = (if tc_audio_overflow t then t
      else if tc_max_audio_bytes t < int (length (tc_audio_accum t) + length ?d)
      then t\<lparr>tc_audio_overflow := True, tc_audio_accum := []\<rparr>
      else t\<lparr>tc_audio_accum := tc_audio_accum t @ ?d\<rparr>)\<lparr>tc_queue := tc_queue t @ [Some ?d]\<rparr>"
  obtain j e where fl: "flow chunks i j e t" using assms(1) by (auto simp: on_course_def)
  have more_audio: "concat (take (Suc i) chunks) = concat (take i chunks) @ ?d" using assms(2) by (simp add: take_Suc_conv_app_nth)
  have "tc_audio_overflow t' = (tc_max_audio_bytes t < int (length (concat (take (Suc i) chunks))))"
    "tc_audio_accum t' = (if tc_audio_overflow t' then [] else concat (take (Suc i) chunks))"
    unfolding more_audio using fl by (auto simp: t'_def flow_def)
  moreover have "tc_queue t' = tc_queue t @ [audio_items chunks ! i]" using assms(2) by (simp add: t'_def nth_append)
  moreover have "t' = t\<lparr>tc_queue := tc_queue t', tc_audio_overflow := tc_audio_overflow t', tc_audio_accum := tc_audio_accum t'\<rparr>"
    by (simp add: t'_def)
  ultimately have "on_course sv b chunks st0 (Suc i) t' sent st"
    using item_received [OF assms(1)] assms(2) by simp
  moreover have "handle_pcm ?d c = c\<lparr>wc_ctx := Some t'\<rparr>"
    using assms(3) not_through(1) [OF assms(1)] assms(2) by (simp add: handle_pcm_def t'_def Let_def)
  ultimately show ?thesis by blast
qed

lemma handle_stop_on_course:
  assumes "on_course sv b chunks st0 (length chunks) t sent st" and "wc_ctx c = Some t"
  shows "\<exists>t'. handle_stop c = c\<lparr>wc_ctx := Some t'\<rparr> \<and> on_course sv b chunks st0 (Suc (length chunks)) t' sent st"
proof -
  let ?t = "t\<lparr>tc_queue := tc_queue t @ [None]\<rparr>"
  obtain j e where fl: "flow chunks (length chunks) j e t" using assms(1) by (auto simp: on_course_def)
  have "on_course sv b chunks st0 (Suc (length chunks)) ?t sent st"
    by (rule item_received [OF assms(1)]) (use fl in \<open>auto simp: flow_def nth_append\<close>)
  then show ?thesis using assms(2) not_through(1) [OF assms(1)] by (auto simp: handle_stop_def)
qed

definition in_turn :: "ws_server \<Rightarrow> turn \<Rightarrow> bytes list \<Rightarrow> pystr \<Rightarrow> session_store \<Rightarrow> conn \<Rightarrow> bool" where
  "in_turn sv b chunks y st0 c \<longleftrightarrow>
     (\<exists>i t sent. wc_loop c = Receive \<and> i \<le> Suc (length chunks) \<and>
        wc_inbox c = drop i (map Binary chunks @ [Text y]) \<and> wc_ctx c = Some t \<and>
        wc_sent c = map (Pair (turn_key b)) sent \<and> on_course sv b chunks st0 i t sent (wc_store c))"

lemma says_stop_receive: "says_stop sv (Text y) \<Longrightarrow> ws_receive sv uuid (Text y) c = handle_stop c"
  by (auto simp: says_stop_def ws_receive_def ws_text_def Let_def split: sum.splits pyval.splits)

lemma in_turn_step:
  assumes "incremental (sv_events sv)" and "incremental (sv_segments sv)" and "says_stop sv (Text y)"
    and "in_turn sv b chunks y st0 c" and "ws_step sv c c'"
  shows "in_turn sv b chunks y st0 c'"
proof -
  obtain i t sent where c: "wc_loop c = Receive" "i \<le> Suc (length chunks)" "wc_inbox c = drop i (map Binary chunks @ [Text y])"
    "wc_ctx c = Some t" "wc_sent c = map (Pair (turn_key b)) sent" "on_course sv b chunks st0 i t sent (wc_store c)"
    using assms(4) unfolding in_turn_def by blast
  have key: "turn_key t = turn_key b" using c(6) by (auto simp: on_course_def same_turn_def turn_key_def)
  from assms(5) show ?thesis
  proof cases
    case (loop uuid)
    then have "wc_inbox c \<noteq> []" using c(1) by (auto simp: loop_step_def)
    then have i: "i < Suc (length chunks)" using c(3) by (cases "i < Suc (length chunks)") auto
    have "wc_inbox c = (map Binary chunks @ [Text y]) ! i # drop (Suc i) (map Binary chunks @ [Text y])"
      unfolding c(3) using i by (intro Cons_nth_drop_Suc [symmetric]) simp
    then have c': "c' = ws_receive sv uuid ((map Binary chunks @ [Text y]) ! i) (c\<lparr>wc_inbox := drop (Suc i) (map Binary chunks @ [Text y])\<rparr>)"
      using loop c(1) by (simp add: loop_step_def)
    have "\<exists>t'. c' = c\<lparr>wc_inbox := drop (Suc i) (map Binary chunks @ [Text y]), wc_ctx := Some t'\<rparr> \<and>
        on_course sv b chunks st0 (Suc i) t' sent (wc_store c)"
    proof (cases "i < length chunks")
      case True
      then show ?thesis unfolding c' using handle_pcm_on_course [OF c(6) True, of "c\<lparr>wc_inbox := drop (Suc i) (map Binary chunks @ [Text y])\<rparr>"] c(4)
        by (auto simp: nth_append ws_receive_def)
    next
      case False
      then have "i = length chunks" using i by simp
      then show ?thesis unfolding c' using handle_stop_on_course [of sv b chunks st0 t sent "wc_store c" "c\<lparr>wc_inbox := []\<rparr>"] c(4,6)
        by (auto simp: nth_append says_stop_receive [OF assms(3)])
    qed
    then show ?thesis unfolding in_turn_def using c i by (intro exI [of _ "Suc i"]) auto
  next
    case (fan t1 t')
    then have "on_course sv b chunks st0 i t' sent (wc_store c)" using fan_on_course [OF c(6)] c(4) by simp
    then show ?thesis unfolding in_turn_def using c fan by (intro exI [of _ i] exI [of _ t'] exI [of _ sent]) simp
  next
    case (events t1 t' out)
    then have "on_course sv b chunks st0 i t' (sent @ out) (wc_store c)" using events_on_course [OF assms(1) c(6)] c(4) by simp
    then show ?thesis unfolding in_turn_def using c events key by (intro exI [of _ i] exI [of _ t'] exI [of _ "sent @ out"]) simp
  next
    case (pump t1 t' out)
    then have "on_course sv b chunks st0 i t' (sent @ out) (wc_store c)" using pump_on_course [OF assms(2) c(6)] c(4) by simp
    then show ?thesis unfolding in_turn_def using c pump key by (intro exI [of _ i] exI [of _ t'] exI [of _ "sent @ out"]) simp
  next
    case (finalize t1 uuid t' out st obs)
    then have "on_course sv b chunks st0 i t' (sent @ out) st" using finalize_on_course [OF c(6)] c(4) by simp
    then show ?thesis unfolding in_turn_def using c finalize key by (intro exI [of _ i] exI [of _ t'] exI [of _ "sent @ out"]) simp
  qed
qed

section \<open>At rest\<close>

lemma settled_blocked:
  assumes "settled sv c" and "wc_ctx c = Some t"
  shows "loop_step sv uuid c = None" "fan_out t = None" "forward_events sv t = None" "pump_vad_asr sv t = None"
    "finalize_turn sv uuid (wc_store c) t = None"
  using assms ws_step.loop [of sv uuid c] ws_step.fan [OF assms(2), of _ sv] ws_step.events [OF assms(2), of sv]
    ws_step.pump [OF assms(2), of sv] ws_step.finalize [OF assms(2), of sv uuid]
  unfolding settled_def by (metis not_None_eq prod_cases4 surj_pair)+

lemma rest_fan:
  assumes "flow chunks (Suc (length chunks)) j e t" and "tc_pump t \<noteq> PNew" and "fan_out t = None"
  shows "j = Suc (length chunks)" and "tc_fan t = Finished"
proof -
  show j: "j = Suc (length chunks)"
  proof (rule ccontr)
    assume "j \<noteq> Suc (length chunks)"
    then have "tc_fan t = Running" "tc_queue t \<noteq> []" using assms(1,2) by (auto simp: flow_def window_def)
    then show False using assms(3) by (auto simp: fan_out_def split: list.splits)
  qed
  then show "tc_fan t = Finished" using assms(1,2) by (simp add: flow_def)
qed

lemma rest_events:
  assumes "flow chunks i (Suc (length chunks)) e t" and "events_ok sv t" and "tc_pump t \<noteq> PNew"
    and "forward_events sv t = None" and "incremental (sv_events sv)"
  shows "tc_events t = Finished"
proof (rule ccontr)
  assume "tc_events t \<noteq> Finished"
  then have run: "tc_events t = Running" using assms(2,3) by (auto simp: events_ok_def split: task.splits)
  have "tc_events_q t \<noteq> [] \<or> tc_ev_ended t" using assms(1) by (auto simp: flow_def window_def)
  then show False using assms(4) run incremental.no_error [OF assms(5), of "tc_ev_taken t" "tc_ev_ended t"]
    by (auto simp: forward_events_def split: prod.splits if_splits list.splits option.splits)
qed

lemma rest_pump:
  assumes "pump_ok sv chunks (Suc (length chunks)) t" and "tc_pump t \<noteq> PNew" and "tc_fan t = Finished"
    and "tc_events t = Finished" and "pump_vad_asr sv t = None" and "incremental (sv_segments sv)"
  obtains x where "tc_pump t = PDone x"
proof (cases "tc_pump t")
  case (PFirst taken ended)
  then have src: "source_at chunks (Suc (length chunks)) taken ended (tc_segments_q t)" using assms(1) by (simp add: pump_ok_def)
  have "first_segment sv taken ended t = None" using assms(5) PFirst by (simp add: pump_vad_asr_def)
  then have "\<not> ended" "tc_segments_q t = []" using incremental.no_error [OF assms(6), of taken ended]
    by (auto simp: first_segment_def split: prod.splits list.splits option.splits if_splits)
  then show thesis using src by (auto simp: source_at_def window_def)
qed (use assms(1-5) that in
    \<open>auto simp: pump_vad_asr_def pump_ok_def split: first_outcome.splits option.splits if_splits\<close>)

lemma at_rest:
  assumes "incremental (sv_events sv)" and "incremental (sv_segments sv)"
    and "in_turn sv b chunks y st0 c" and "settled sv c"
  shows "\<exists>uuid. (wc_sent c, wc_store c) =
    (map (Pair (turn_key b)) (fst (turn_outcome sv uuid b chunks st0)), snd (turn_outcome sv uuid b chunks st0))"
proof -
  obtain i t sent where c: "wc_loop c = Receive" "i \<le> Suc (length chunks)" "wc_inbox c = drop i (map Binary chunks @ [Text y])"
    "wc_ctx c = Some t" "wc_sent c = map (Pair (turn_key b)) sent" "on_course sv b chunks st0 i t sent (wc_store c)"
    using assms(3) unfolding in_turn_def by blast
  obtain j e reply where oc: "flow chunks i j e t" "pump_ok sv chunks j t" "events_ok sv t" "same_turn b t"
    "sent = map event_frame (take (tc_ev_sent t) (yields sv t)) @ heard sv chunks t @ reply" "final_ok sv b chunks st0 t reply (wc_store c)"
    using c(6) by (rule on_courseE)
  note blocked = settled_blocked(1) [OF assms(4) c(4), of "[]"] settled_blocked(2-4) [OF assms(4) c(4)]
    settled_blocked(5) [OF assms(4) c(4), of "[]"]
  have "wc_inbox c = []" using blocked(1) c(1) by (auto simp: loop_step_def split: list.splits)
  then have i: "i = Suc (length chunks)" using c(2,3) by (cases "i < Suc (length chunks)") auto
  have new: "tc_pump t \<noteq> PNew" using blocked(4) by (auto simp: pump_vad_asr_def)
  note fan = rest_fan [OF oc(1) [unfolded i] new blocked(2)]
  have events: "tc_events t = Finished" by (rule rest_events [OF oc(1) [unfolded fan(1)] oc(3) new blocked(3) assms(1)])
  obtain x where x: "tc_pump t = PDone x" using rest_pump [OF oc(2) [unfolded fan(1)] new fan(2) events blocked(4) assms(2)] .
  have "tc_finalize t \<noteq> ZWait" "tc_finalize t \<noteq> ZMatch req" for req
    using blocked(5) x by (auto simp: finalize_turn_def finish_def split: if_splits sum.splits prod.splits)
  then obtain uuid where reply: "(reply, wc_store c) =
      (case transcript sv chunks of None \<Rightarrow> ([], st0) | Some y \<Rightarrow> answer_frames sv uuid b chunks st0 y)"
    using oc(6) by (auto simp: final_ok_def split: finalizer.splits)
  have "tc_ev_ended t" "tc_ev_sent t = length (yields sv t)" using oc(3) events by (auto simp: events_ok_def)
  then have "take (tc_ev_sent t) (yields sv t) = fst (sv_events sv chunks True)" using oc(1) by (auto simp: flow_def yields_def)
  moreover have "heard sv chunks t = heard_frames sv chunks" using x by (simp add: heard_def)
  ultimately have "(sent, wc_store c) = turn_outcome sv uuid b chunks st0"
    using oc(5) reply by (auto simp: turn_outcome_def split: prod.splits)
  then have "fst (turn_outcome sv uuid b chunks st0) = sent" "snd (turn_outcome sv uuid b chunks st0) = wc_store c"
    by (metis fst_conv, metis snd_conv)
  then show ?thesis using c(5) by auto
qed

text \<open>
  C10. A complete turn gets its answer. The client opens a turn, sends its audio in any number of
  frames and says stop. Then every interleaving of the receive loop and the four tasks comes to
  rest, and at rest the client has received exactly, in this order, the detector's events for the
  whole audio, the transcripts of its first utterance, and the orchestrator's answer to the final
  transcript (or the error that stands for it), all under the turn's session and number; the
  sessions are as the orchestrator left them. Path B is given all the audio, or nothing if it
  is over the limit.
\<close>

theorem complete_turn_answered:
  assumes "incremental (sv_events sv)" and "incremental (sv_segments sv)"
    and "check_ws_api_key (sv_env sv) header query"
    and "sv_loads sv x = Inr (PDict control)" and "opens control sid tid" and "0 \<le> tid"
    and "turn_limits sv control = Inr (n, limit)" and "says_stop sv (Text y)"
  shows "(\<exists>c. ws_run sv (recognize_stream sv header query (Text x # map Binary chunks @ [Text y]) st) c \<and> settled sv c) \<and>
    (\<forall>c. ws_run sv (recognize_stream sv header query (Text x # map Binary chunks @ [Text y]) st) c \<and> settled sv c \<longrightarrow>
      (\<exists>uuid frames st'. turn_outcome sv uuid (fresh_turn control sid tid n limit) chunks st = (frames, st') \<and>
         wc_sent c = map (Pair (Some (sid, tid))) frames \<and> wc_store c = st'))"
proof -
  let ?c0 = "recognize_stream sv header query (Text x # map Binary chunks @ [Text y]) st"
  let ?b = "fresh_turn control sid tid n limit"
  define c1 where "c1 = \<lparr>wc_inbox = map Binary chunks @ [Text y], wc_loop = Receive, wc_session_id = Some sid, wc_current_turn_id = tid,
      wc_ctx = Some ?b, wc_sent = [], wc_store = st, wc_observed = []\<rparr>"
  have start: "loop_step sv uuid ?c0 = Some c1" for uuid unfolding c1_def by (rule first_start [OF assms(3-7)])
  have no_turn: "wc_ctx ?c0 = None" by (simp add: recognize_stream_def)
  have only: "c = c1" if "ws_step sv ?c0 c" for c
    using that by cases (auto simp: start no_turn)
  have "0 < limit" using assms(7) max_audio_bytes_pos by (auto simp: turn_limits_def result_simps)
  then have "on_course sv ?b chunks st 0 ?b [] st"
    by (intro on_courseI [where j = 0 and e = 0 and reply = "[]"])
      (simp_all add: same_turn_def events_ok_def flow_def pump_ok_def heard_def final_ok_def TurnContext_def)
  then have first: "in_turn sv ?b chunks y st c1"
    unfolding in_turn_def by (intro exI [of _ 0] exI [of _ ?b] exI [of _ "[]"]) (simp add: c1_def)
  have "\<exists>uuid frames st'. turn_outcome sv uuid ?b chunks st = (frames, st') \<and>
      wc_sent c = map (Pair (Some (sid, tid))) frames \<and> wc_store c = st'" if run: "ws_run sv ?c0 c" and rest: "settled sv c" for c
  proof -
    have "ws_run sv c1 c"
      using run
    proof (cases rule: converse_rtranclpE)
      case base
      then show ?thesis using rest ws_step.loop [OF start [of "[]"]] by (auto simp: settled_def)
    qed (use only in auto)
    then have "in_turn sv ?b chunks y st c"
      using first by (induction rule: rtranclp_induct) (auto intro: in_turn_step [OF assms(1,2,8)])
    from at_rest [OF assms(1,2) this rest] obtain uuid where
      "wc_sent c = map (Pair (turn_key ?b)) (fst (turn_outcome sv uuid ?b chunks st))"
      "wc_store c = snd (turn_outcome sv uuid ?b chunks st)" by auto
    moreover have "turn_key ?b = Some (sid, tid)" by (simp add: turn_key_def TurnContext_def)
    ultimately show ?thesis
      by (intro exI [of _ uuid] exI [of _ "fst (turn_outcome sv uuid ?b chunks st)"] exI [of _ "snd (turn_outcome sv uuid ?b chunks st)"]) simp
  qed
  then show ?thesis using ws_run_settles [of sv ?c0] by blast
qed

theorem complete_turn_answered_witness:
  "\<exists>c uuid b reply. ws_run demo_sv (recognize_stream demo_sv demo_key None demo_turn []) c \<and> settled demo_sv c \<and>
     map snd (wc_sent c) =
       [VadEvent SpeechStart 0, VadEvent SpeechEnd 0, Partial (u ''card'') 0 0, Final (u ''card'') 0 0] @ reply \<and>
     (reply, wc_store c) = answer_frames demo_sv uuid b [[0, 0]] [] (u ''card'')"
proof -
  obtain d where d: "demo_start 1 = PDict d" "opens d (u ''call'') 1" "turn_limits demo_silero d = Inr (5, DEFAULT_MAX_AUDIO_BYTES)"
    using demo_opens by blast
  let ?b = "fresh_turn d (u ''call'') 1 5 DEFAULT_MAX_AUDIO_BYTES"
  have loads: "sv_loads demo_sv [1] = Inr (PDict d)" "says_stop demo_sv (Text [])" "check_ws_api_key (sv_env demo_sv) demo_key None"
    "turn_limits demo_sv d = Inr (5, DEFAULT_MAX_AUDIO_BYTES)" "incremental (sv_events demo_sv)" "incremental (sv_segments demo_sv)"
    using d demo_key_ok mock_ev.incremental_axioms mock_seg.incremental_axioms
    by (simp_all add: demo_sv_def demo_silero_def says_stop_def dict_get_def turn_limits_def)
  have heard: "map event_frame (fst (sv_events demo_sv [[0, 0]] True)) = [VadEvent SpeechStart 0, VadEvent SpeechEnd 0]"
    "transcript demo_sv [[0, 0]] = Some (u ''card'')"
    "heard_frames demo_sv [[0, 0]] = [Partial (u ''card'') 0 0, Final (u ''card'') 0 0]"
    by (simp_all add: transcript_def first_utterance_def heard_frames_def asr_frames_def asr_frame_def
        event_frame_def last_final_def segment_chunks_def demo_defs)
  have script: "demo_turn = Text [1] # map Binary [[0, 0]] @ [Text []]" by (simp add: demo_turn_def)
  note turn = complete_turn_answered [OF loads(5,6,3,1) d(2) _ loads(4,2), of "[[0, 0]]" "[]", folded script]
  obtain c where c: "ws_run demo_sv (recognize_stream demo_sv demo_key None demo_turn []) c" "settled demo_sv c"
    using turn by auto
  then obtain uuid frames st' where f: "turn_outcome demo_sv uuid ?b [[0, 0]] [] = (frames, st')"
    "wc_sent c = map (Pair (Some (u ''call'', 1))) frames" "wc_store c = st'"
    using turn by auto
  obtain r s where r: "answer_frames demo_sv uuid ?b [[0, 0]] [] (u ''card'') = (r, s)" by force
  then show ?thesis using c f heard
    by (intro exI [of _ c] exI [of _ uuid] exI [of _ ?b] exI [of _ r]) (auto simp: turn_outcome_def comp_def)
qed

end
