(* ===== verification/Py_Sha256.thy ===== *)
theory Py_Sha256
  imports Py_Sha1
begin

unbundle bit_operations_syntax

text \<open>
  \<open>hashlib.sha256\<close>, which pins the model artefacts: the padding of SHA-1, a 64-word schedule and
  the FIPS 180 compression over eight 32-bit words.
\<close>

definition rotr32 :: "nat \<Rightarrow> 32 word \<Rightarrow> 32 word" where
  "rotr32 n w = drop_bit n w OR push_bit (32 - n) w"

definition SHA256_K :: "32 word list" where
  "SHA256_K =
     [0x428A2F98, 0x71374491, 0xB5C0FBCF, 0xE9B5DBA5, 0x3956C25B, 0x59F111F1,
      0x923F82A4, 0xAB1C5ED5, 0xD807AA98, 0x12835B01, 0x243185BE, 0x550C7DC3,
      0x72BE5D74, 0x80DEB1FE, 0x9BDC06A7, 0xC19BF174, 0xE49B69C1, 0xEFBE4786,
      0x0FC19DC6, 0x240CA1CC, 0x2DE92C6F, 0x4A7484AA, 0x5CB0A9DC, 0x76F988DA,
      0x983E5152, 0xA831C66D, 0xB00327C8, 0xBF597FC7, 0xC6E00BF3, 0xD5A79147,
      0x06CA6351, 0x14292967, 0x27B70A85, 0x2E1B2138, 0x4D2C6DFC, 0x53380D13,
      0x650A7354, 0x766A0ABB, 0x81C2C92E, 0x92722C85, 0xA2BFE8A1, 0xA81A664B,
      0xC24B8B70, 0xC76C51A3, 0xD192E819, 0xD6990624, 0xF40E3585, 0x106AA070,
      0x19A4C116, 0x1E376C08, 0x2748774C, 0x34B0BCB5, 0x391C0CB3, 0x4ED8AA4A,
      0x5B9CCA4F, 0x682E6FF3, 0x748F82EE, 0x78A5636F, 0x84C87814, 0x8CC70208,
      0x90BEFFFA, 0xA4506CEB, 0xBEF9A3F7, 0xC67178F2]"

fun sha256_schedule :: "nat \<Rightarrow> 32 word list \<Rightarrow> 32 word list" where
  "sha256_schedule 0 ws = ws"
| "sha256_schedule (Suc n) ws =
     (let w2 = ws ! 1; w15 = ws ! 14;
          s0 = rotr32 7 w15 XOR rotr32 18 w15 XOR drop_bit 3 w15;
          s1 = rotr32 17 w2 XOR rotr32 19 w2 XOR drop_bit 10 w2
      in sha256_schedule n ((ws ! 15 + s0 + ws ! 6 + s1) # ws))"

definition sha256_round :: "32 word list \<Rightarrow> 32 word \<times> 32 word \<Rightarrow> 32 word list" where
  "sha256_round s x =
     (case (s, x) of
        ([a, b, c, d, e, f, g, h], (k, w)) \<Rightarrow>
          (let s1 = rotr32 6 e XOR rotr32 11 e XOR rotr32 25 e;
               ch = (e AND f) XOR ((NOT e) AND g);
               t1 = h + s1 + ch + k + w;
               s0 = rotr32 2 a XOR rotr32 13 a XOR rotr32 22 a;
               maj = (a AND b) XOR (a AND c) XOR (b AND c)
           in [t1 + s0 + maj, a, b, c, d + t1, e, f, g])
      | _ \<Rightarrow> s)"

definition sha256_block :: "32 word list \<Rightarrow> 32 word list \<Rightarrow> 32 word list" where
  "sha256_block s ws = map2 (+) s (foldl sha256_round s (zip SHA256_K (rev (sha256_schedule 48 (rev ws)))))"

function sha256_blocks :: "32 word list \<Rightarrow> 32 word list \<Rightarrow> 32 word list" where
  "sha256_blocks s ws = (if ws = [] then s else sha256_blocks (sha256_block s (take 16 ws)) (drop 16 ws))"
  by pat_completeness auto
termination
  by (relation "measure (\<lambda>(s, ws). length ws)") auto

declare sha256_blocks.simps [simp del]

definition SHA256_H :: "32 word list" where
  "SHA256_H = [0x6A09E667, 0xBB67AE85, 0x3C6EF372, 0xA54FF53A, 0x510E527F, 0x9B05688C, 0x1F83D9AB, 0x5BE0CD19]"

definition sha256 :: "bytes \<Rightarrow> bytes" where
  "sha256 msg = concat (map pack32 (sha256_blocks SHA256_H (be_words (sha1_pad msg))))"

lemma length_sha256_round: "length (sha256_round s x) = length s"
  by (auto simp: sha256_round_def Let_def split: prod.splits list.splits)

lemma length_sha256_block [simp]: "length (sha256_block s ws) = length s"
proof -
  have "length (foldl sha256_round s xs) = length s" for xs
    by (induction xs arbitrary: s) (simp_all add: length_sha256_round)
  then show ?thesis by (simp add: sha256_block_def)
qed

lemma length_sha256_blocks: "length (sha256_blocks s ws) = length s"
proof (induction s ws rule: sha256_blocks.induct)
  case (1 s ws)
  then show ?case by (subst sha256_blocks.simps) simp
qed

lemma length_sha256: "length (sha256 msg) = 32"
proof -
  have "length (concat (map pack32 ws)) = 4 * length ws" for ws by (induction ws) simp_all
  then show ?thesis by (simp add: sha256_def length_sha256_blocks SHA256_H_def)
qed

end
