(* ===== verification/Fetch_Models.thy ===== *)
theory Fetch_Models
  imports Py_Sha256
begin

text \<open>
  \<open>scripts/fetch_models.py\<close>: the download of the model artefacts, pinned by URL and SHA-256. The
  file system is a dictionary from paths to contents; the network is the parameter \<open>urlopen\<close>,
  which raises or gives the chunks that \<open>read\<close> returns and the exception that ends them, if any.
  Errors of the file system itself (opening, writing or renaming a file) are not modelled.
  Shown here: no artefact is ever in place with contents other than those it had or the pinned
  ones, and a run that returns leaves every artefact in place.
\<close>

type_synonym files = "(pystr, bytes) dict"
type_synonym network = "pystr \<Rightarrow> (bytes list \<times> exn option) result"

record model =
  spec_name :: pystr
  spec_url :: pystr
  spec_sha256 :: pystr
  spec_dest :: pystr

definition model_spec :: "pystr \<Rightarrow> string \<Rightarrow> string \<Rightarrow> string \<Rightarrow> string \<Rightarrow> model" where
  "model_spec dir name url digest file =
     \<lparr>spec_name = u name, spec_url = u url, spec_sha256 = u digest, spec_dest = dir @ u ''/'' @ u file\<rparr>"

definition MODELS :: "pystr \<Rightarrow> model list" where
  "MODELS dir =
     [model_spec dir ''silero_vad''
        ''https://github.com/snakers4/silero-vad/raw/v5.1.2/src/silero_vad/data/silero_vad.onnx''
        ''2623a2953f6ff3d2c1e61740c6cdb7168133479b267dfef114a4a3cc5bdd788f'' ''silero_vad.onnx'',
      model_spec dir ''nlu_embedder''
        ''https://huggingface.co/Xenova/bge-small-zh-v1.5/resolve/75c43b069aac4d136ba6bc1122f995fedcfd2781/onnx/model_quantized.onnx''
        ''15b717c382bcb518ba457b93ea6850ede7f4f1cd8937454aa06972366cd19bcc'' ''nlu_embedder_quantized.onnx'',
      model_spec dir ''nlu_tokenizer''
        ''https://huggingface.co/Xenova/bge-small-zh-v1.5/resolve/75c43b069aac4d136ba6bc1122f995fedcfd2781/tokenizer.json''
        ''48cea5d44424912a6fd1ea647bf4fe50b55ab8b1e5879c3275f80e339e8fae26'' ''nlu_tokenizer.json'',
      model_spec dir ''asr_paraformer_model''
        ''https://huggingface.co/csukuangfj/paraformer-onnxruntime-python-example/resolve/bbf29cf22ede51f541c052af8f8e77fc54c76e21/model.int8.onnx''
        ''9ada9127ca5b82320385ac12340eb8b05dee64fd45cf8cf593ec693826ec2fd7'' ''paraformer_zh.int8.onnx'',
      model_spec dir ''asr_paraformer_tokens''
        ''https://huggingface.co/csukuangfj/paraformer-onnxruntime-python-example/resolve/bbf29cf22ede51f541c052af8f8e77fc54c76e21/tokens.txt''
        ''59aba8873a2ed1e122c25fee421e25f283b63290efbde85c1f01a853d83cb6e6'' ''paraformer_zh.tokens.txt'',
      model_spec dir ''asr_paraformer_cmvn''
        ''https://huggingface.co/csukuangfj/paraformer-onnxruntime-python-example/resolve/bbf29cf22ede51f541c052af8f8e77fc54c76e21/am.mvn''
        ''29b3c740a2c0cfc6b308126d31d7f265fa2be74f3bb095cd2f143ea970896ae5'' ''paraformer_zh.am.mvn'']"

definition sha256_hex :: "bytes \<Rightarrow> pystr" where
  "sha256_hex content = hexdigest (sha256 content)"

text \<open>\<open>dest.with_suffix(dest.suffix + ".part")\<close>\<close>

definition part_file :: "model \<Rightarrow> pystr" where
  "part_file spec = spec_dest spec @ u ''.part''"

text \<open>The read loop: what is written before an empty chunk or an exception.\<close>

fun copy_chunks :: "bytes list \<Rightarrow> exn option \<Rightarrow> bytes \<times> exn option" where
  "copy_chunks [] failure = ([], failure)"
| "copy_chunks (chunk # chunks) failure =
     (if chunk = [] then ([], None)
      else case copy_chunks chunks failure of (rest, e) \<Rightarrow> (chunk @ rest, e))"

definition download :: "network \<Rightarrow> model \<Rightarrow> files \<Rightarrow> unit result \<times> files" where
  "download urlopen spec fs =
     (case urlopen (spec_url spec) of
        Inl e \<Rightarrow> (Inl e, fs)
      | Inr (chunks, failure) \<Rightarrow>
          (case copy_chunks chunks failure of
             (content, Some e) \<Rightarrow> (Inl e, dput (part_file spec) content fs)
           | (content, None) \<Rightarrow>
               (let fs = dput (part_file spec) content fs
                in if sha256_hex content \<noteq> spec_sha256 spec
                   then (Inl (OtherError ''SystemExit: sha256 mismatch''), dpop (part_file spec) fs)
                   else (Inr (), dput (spec_dest spec) content (dpop (part_file spec) fs)))))"

definition needs_fetch :: "model \<Rightarrow> bool \<Rightarrow> files \<Rightarrow> bool" where
  "needs_fetch spec force fs =
     (force \<or> (case dget fs (spec_dest spec) of None \<Rightarrow> True | Some content \<Rightarrow> sha256_hex content \<noteq> spec_sha256 spec))"

fun fetch_models :: "network \<Rightarrow> bool \<Rightarrow> model list \<Rightarrow> files \<Rightarrow> int result \<times> files" where
  "fetch_models urlopen force [] fs = (Inr 0, fs)"
| "fetch_models urlopen force (spec # specs) fs =
     (if needs_fetch spec force fs
      then (case download urlopen spec fs of
              (Inl e, fs) \<Rightarrow> (Inl e, fs)
            | (Inr _, fs) \<Rightarrow> fetch_models urlopen force specs fs)
      else fetch_models urlopen force specs fs)"

section \<open>Properties\<close>

definition verified :: "model \<Rightarrow> files \<Rightarrow> bool" where
  "verified spec fs \<longleftrightarrow> (\<exists>content. dget fs (spec_dest spec) = Some content \<and> sha256_hex content = spec_sha256 spec)"

text \<open>The artefacts have their own places, and no artefact lies where another is downloaded to.\<close>

definition own_places :: "model list \<Rightarrow> bool" where
  "own_places specs \<longleftrightarrow> distinct (map spec_dest specs) \<and> (\<forall>a \<in> set specs. \<forall>b \<in> set specs. spec_dest a \<noteq> part_file b)"

lemma MODELS_own_places: "own_places (MODELS dir)"
  by (simp add: own_places_def MODELS_def model_spec_def part_file_def)

lemma needs_fetch_iff: "needs_fetch spec force fs \<longleftrightarrow> force \<or> \<not> verified spec fs"
  by (auto simp: needs_fetch_def verified_def split: option.splits)

lemma download_effect:
  assumes "download urlopen spec fs = (r, fs')"
  shows "r = Inr x \<Longrightarrow> verified spec fs'"
    and "p \<noteq> spec_dest spec \<Longrightarrow> p \<noteq> part_file spec \<Longrightarrow> dget fs' p = dget fs p"
    and "spec_dest spec \<noteq> part_file spec \<Longrightarrow> dget fs' (spec_dest spec) = dget fs (spec_dest spec) \<or> verified spec fs'"
  using assms
  by (auto simp: download_def verified_def dict_simps Let_def split: sum.splits prod.splits option.splits if_splits)

lemma verified_cong: "dget fs' (spec_dest a) = dget fs (spec_dest a) \<Longrightarrow> verified a fs' = verified a fs"
  by (simp add: verified_def)

lemma fetch_effect:
  assumes "fetch_models urlopen force specs fs = (r, fs')" and "own_places specs"
  shows "(\<forall>p. p \<notin> spec_dest ` set specs \<longrightarrow> p \<notin> part_file ` set specs \<longrightarrow> dget fs' p = dget fs p) \<and>
    (\<forall>a \<in> set specs. dget fs' (spec_dest a) = dget fs (spec_dest a) \<or> verified a fs') \<and>
    (\<forall>x. r = Inr x \<longrightarrow> (\<forall>a \<in> set specs. verified a fs'))"
  using assms
proof (induction specs arbitrary: fs)
  case (Cons s specs)
  have places: "own_places specs" "spec_dest s \<notin> spec_dest ` set specs" "spec_dest s \<notin> part_file ` set specs"
    "spec_dest s \<noteq> part_file s" "\<And>a. a \<in> set specs \<Longrightarrow> spec_dest a \<noteq> part_file s \<and> spec_dest a \<noteq> spec_dest s"
    using Cons.prems(2) by (auto simp: own_places_def intro: rev_image_eqI)
  have tail: ?case if run: "fetch_models urlopen force specs fs1 = (r, fs')"
    and same: "\<And>p. p \<noteq> spec_dest s \<Longrightarrow> p \<noteq> part_file s \<Longrightarrow> dget fs1 p = dget fs p" and s: "verified s fs1" for fs1
  proof -
    note IH = Cons.IH [OF run places(1)]
    have "verified s fs'" using IH places(2,3) s verified_cong by blast
    then show ?thesis using IH same places(5) by (auto simp: verified_def)
  qed
  show ?case
  proof (cases "needs_fetch s force fs")
    case False
    then show ?thesis using tail [of fs] Cons.prems(1) by (simp add: needs_fetch_iff)
  next
    case True
    obtain r1 fs1 where d: "download urlopen s fs = (r1, fs1)" by force
    note eff = download_effect [OF d]
    show ?thesis
    proof (cases r1)
      case (Inl e)
      then show ?thesis using Cons.prems(1) True d eff places(4,5) by (auto simp: verified_def)
    next
      case (Inr x)
      then show ?thesis using tail [of fs1] Cons.prems(1) True d eff by simp
    qed
  qed
qed simp

lemma fetch_up_to_date: "\<forall>a \<in> set specs. verified a fs \<Longrightarrow> fetch_models urlopen False specs fs = (Inr 0, fs)"
  by (induction specs) (simp_all add: needs_fetch_iff)

text \<open>
  C27. Only pinned artefacts are installed: whatever the network delivers and wherever a run stops,
  each artefact is as it was or has its pinned digest, and no file but the artefacts and their
  part files is touched; a run that returns has every artefact in place, and another run then
  downloads nothing.
\<close>

theorem fetch_models_verified:
  assumes "own_places specs" and "fetch_models urlopen force specs fs = (r, fs')"
  shows "(\<forall>a \<in> set specs. dget fs' (spec_dest a) = dget fs (spec_dest a) \<or> verified a fs') \<and>
    (\<forall>p. p \<notin> spec_dest ` set specs \<and> p \<notin> part_file ` set specs \<longrightarrow> dget fs' p = dget fs p) \<and>
    (r = Inr 0 \<longrightarrow> (\<forall>a \<in> set specs. verified a fs') \<and> (\<forall>net. fetch_models net False specs fs' = (Inr 0, fs')))"
  using fetch_effect [OF assms(2,1)] fetch_up_to_date by blast

theorem fetch_models_verified_witness:
  "\<exists>fs'. fetch_models (\<lambda>_. Inr ([[1], [2]], None)) False
      [\<lparr>spec_name = u ''m'', spec_url = u ''x'', spec_sha256 = sha256_hex [1, 2], spec_dest = u ''d''\<rparr>] [] = (Inr 0, fs') \<and>
    dget fs' (u ''d'') = Some [1, 2] \<and>
    fetch_models (\<lambda>_. Inl FileNotFoundError) False
      [\<lparr>spec_name = u ''m'', spec_url = u ''x'', spec_sha256 = sha256_hex [1, 2], spec_dest = u ''d''\<rparr>] fs' = (Inr 0, fs')"
proof -
  let ?s = "\<lparr>spec_name = u ''m'', spec_url = u ''x'', spec_sha256 = sha256_hex [1, 2], spec_dest = u ''d''\<rparr>"
  let ?net = "\<lambda>_. Inr ([[1], [2]], None)"
  have own: "own_places [?s]" by (simp add: own_places_def part_file_def)
  have run: "fetch_models ?net False [?s] [] = (Inr 0, [(u ''d'', [1, 2])])"
    by (simp add: needs_fetch_def download_def part_file_def)
  from fetch_models_verified [OF own run] show ?thesis using run by (intro exI conjI) auto
qed

end
