(* ===== verification/Spec2Isabelle.thy ===== *)
theory Spec2Isabelle
  imports Bridge_Server Mrcp_Server Boot Slu Concurrent Ws_Complete Fetch_Models
begin

text \<open>
  sandroid is the intent engine behind a turn-based voice dialogue. A caller sends text, a file or
  a stream of audio for a point in a scene, a tree of categories with intents, and gets the
  intent that was meant and where the dialogue goes next. This library models the Python program
  under \<open>src/src/sandroid\<close> and \<open>src/scripts/fetch_models.py\<close> and proves what makes it correct.

  \<^bold>\<open>The program.\<close> Scenes are YAML files that the loader turns into validated trees
  (\<open>core/scene_loader.py\<close>, \<open>core/domain.py\<close>); a registry holds them and a store holds the
  sessions (\<open>storage\<close>). A turn (\<open>core/orchestrator.py\<close>) resolves the scene and category, collects
  the intents in scope (\<open>core/scope.py\<close>), ranks them against the text (\<open>core/matcher.py\<close>,
  \<open>models/nlu\<close>), fuses the ranking with an optional audio path (\<open>core/fusion.py\<close>) and moves the
  session. Audio becomes text through a voice activity detector (\<open>vad\<close>) and a recogniser
  (\<open>models/asr\<close>). Four front ends share this core: REST and WebSocket (\<open>api/routes.py\<close>, configured
  by \<open>api/deps.py\<close>), an MRCPv2 server with RTP audio (\<open>adapters/mrcp\<close>) and a bridge for UniMRCP.

  \<^bold>\<open>Conventions.\<close> A call that may raise is a value of \<open>exn + 'a\<close>. Text is a list of code points,
  bytes are words of eight bits, integers are unbounded as in Python, sequence numbers and
  time stamps of RTP are words of their width. Floats are rationals closed under correctly
  rounded operations (\<open>Py_Float\<close>); infinities and NaN do not occur. Dictionaries keep insertion
  order. State is passed explicitly. A loop that might not end has the value \<open>None\<close> where it
  does not; recursion that Python bounds by its stack has the bound as a parameter \<open>frames\<close>, and
  the theorems say how many frames are enough. An asynchronous generator is what it yields and
  the exception that ends it; a blocked read on a connection is a value of its own.

  \<^bold>\<open>Theories.\<close>

  \<^item> \<open>Prelude\<close>, \<open>Py_Text\<close>, \<open>Py_Float\<close>, \<open>Py_Codec\<close>, \<open>Py_Stream\<close>, \<open>Py_Sha1\<close>, \<open>Py_Sha256\<close>, \<open>Py_Wave\<close>:
    results, dictionaries, rankings; the parts of Python and its library that the sources use
    (white space and searching, double arithmetic, UTF-8 and packing, stream readers, digests,
    WAV files), with their round trips.
  \<^item> \<open>Domain\<close>, \<open>Scene_Loader\<close>, \<open>Example_Scenes\<close>: trees, paths, the loader. Accepted scenes are
    well-formed, and a category is found again by its path.
  \<^item> \<open>Scope\<close>: the candidate pool against a declarative visibility relation; how much stack is
    enough, and a scene the loader accepts on which no stack is.
  \<^item> \<open>Matcher\<close>, \<open>Embedder\<close>: the matcher contract as the locale \<open>intent_matcher\<close>, interpreted for
    both matchers; of the embedder's model only the shape of its output is assumed. \<open>Fusion\<close>: the
    weighted combination in rounded arithmetic, up to the cut to \<open>n_best\<close> entries.
  \<^item> \<open>Storage\<close>, \<open>Orchestrator\<close>: registry, session store (locale \<open>session_store_ops\<close>) and the turn:
    what it returns, what it leaves in the store on success and on every error (when both paths
    raise, either exception may be the one that is seen). \<open>Concurrent\<close>: turns
    of several callers, each suspended while its matcher runs, as a transition system; turns on
    different sessions do not disturb each other (locale \<open>keyed_turns\<close>), turns on one session can
    lose an entry of its history but never invent or repeat one.
  \<^item> \<open>Segmenter\<close>, \<open>Vad\<close>, \<open>Vad_Stream\<close>: the speech state machine (its segments are exact runs of the
    input, and no utterance the start window confirms is lost but for a short rest after a forced
    cut at the end), both detectors (locale \<open>voice_activity_detector\<close>), streaming against file mode
    on whole samples and where an odd byte makes them differ, and the detectors while audio is arriving (locale \<open>incremental\<close>).
  \<^item> \<open>Asr\<close>, \<open>Audio\<close>: the recognisers (locale \<open>asr_backend\<close>), decoding and resampling.
    \<open>Slu\<close>: the end-to-end recogniser's contract (locale \<open>slu_contract\<close>) and its stub.
  \<^item> \<open>Settings\<close>, \<open>Http_Api\<close>: configuration, the REST handlers and probes; which requests fail how.
  \<^item> \<open>Boot\<close>: logging, the cached factories, the warm-up. After a boot every request is served by the
    same objects, in production by the models; the bridge gives up its matcher instead of failing.
  \<^item> \<open>Ws_Turn\<close>, \<open>Ws_Stream\<close>: the WebSocket endpoint as a transition system: a turn with its
    fan-out, event forwarder, pump and finalizer, and the receive loop that opens, feeds, stops
    and abandons turns. One step runs one of them to its next \<open>await\<close>, so a run is any
    interleaving; cancellation follows asyncio. \<open>Ws_Protocol\<close> proves that the frames of a turn
    follow the protocol automaton, that turns do not mix and leave no task behind;
    \<open>Ws_Progress\<close> that every run comes to rest, that there is no answer before \<open>stop\<close>, and that a
    barge-in can hang a connection; \<open>Ws_Complete\<close> that a complete turn ends, under every
    interleaving, with exactly the frames its specification states.
  \<^item> \<open>Rtp\<close>, \<open>Mrcp_Messages\<close>, \<open>Mrcp_Server\<close>: jitter buffer and sample order across sequence
    wrap-around, with the receiver's bound of 4096 bytes on a datagram, the self-referential message length, the connection handler and the simulator,
    up to a recognition end to end.
  \<^item> \<open>Bridge_Codec\<close>, \<open>Bridge_Server\<close>: CBOR, frames and documents of the bridge, its channels.
  \<^item> \<open>Fetch_Models\<close>: the download of pinned artefacts.

  \<^bold>\<open>Parameters.\<close> Code outside the repository is an argument: the YAML reader and directory
  listing, \<open>json.loads\<close>, Python's \<open>str\<close> of an exception or a JSON value, the ONNX sessions,
  the tokenizer and filter bank, float32 arithmetic, uuid4, the network of the fetcher. The bridge
  takes as arguments whether the recogniser answers in time and, after a second START, which
  task gets which audio. Theorems about the orchestrator hold for every matcher, those
  about the streams for every detector and recogniser, within the contracts of the locales.

  \<^bold>\<open>Not modelled.\<close> Sockets and servers; argument parsing; log output, the bridge's traffic log, metric
  values and clocks (the outcome labels of the metrics are modelled); request parsing by FastAPI
  and coercion by pydantic before a handler runs; the sine tone of the smoke test; errors of the
  file system under the fetcher. A frame sent
  on a WebSocket is taken to be accepted by the transport. The WebSocket theories follow one
  connection with the store to itself; \<open>Concurrent\<close> says when that makes no difference. The
  factories are called one at a time: two threads that both miss a cache are not modelled, and
  after the warm-up there is no miss.
\<close>

end
